(* ===== verification/Prelude.thy ===== *)
theory Prelude
  imports Main "HOL-Library.Word" "HOL-Library.Char_ord" "HOL-Library.List_Lexorder"
begin

text \<open>
  The shared vocabulary of the development: bytes and C strings, the functions of the C
  library that the sources call (in the "C" locale, which the program never changes), the
  collections of rewrite rules the component theories extend, and the generic contracts
  (locales) that several components satisfy.

  A byte of the program (\<^verbatim>\<open>char\<close> or \<^verbatim>\<open>unsigned char\<close>) is a HOL \<open>char\<close>; its unsigned value
  is \<open>byte_val\<close>. A (pointer, length) pair is the list of the bytes it denotes. A
  NUL-terminated buffer is represented by the bytes before its terminator, and \<open>cstr\<close> cuts
  a byte list where a C string function would stop reading it.
\<close>

named_theorems c_simps "the C library functions, for unfolding"
named_theorems buf_simps "growable buffers"
named_theorems codec_simps "encoders and decoders"
named_theorems json_simps "JSON values, parser and writer"
named_theorems http_simps "HTTP request parser and router"
named_theorems store_simps "database tables and store operations"

type_synonym byte = char
type_synonym bytes = "char list"
type_synonym int64 = int

abbreviation byte_val :: "byte \<Rightarrow> nat" where
  "byte_val c \<equiv> of_char c"

abbreviation NUL :: byte where
  "NUL \<equiv> CHR 0x00"


subsection \<open>The C library, as the sources use it\<close>

text \<open>\<open>strlen\<close>, \<open>strcmp\<close> and \<open>%s\<close> read up to the first NUL.\<close>

definition cstr :: "bytes \<Rightarrow> bytes" where
  "cstr s = takeWhile (\<lambda>c. c \<noteq> NUL) s"

definition c_tolower :: "byte \<Rightarrow> byte" where
  [c_simps]: "c_tolower c = (if 65 \<le> byte_val c \<and> byte_val c \<le> 90 then char_of (byte_val c + 32) else c)"

definition c_isspace :: "byte \<Rightarrow> bool" where
  [c_simps]: "c_isspace c \<longleftrightarrow> byte_val c = 32 \<or> (9 \<le> byte_val c \<and> byte_val c \<le> 13)"

definition c_isdigit :: "byte \<Rightarrow> bool" where
  [c_simps]: "c_isdigit c \<longleftrightarrow> 48 \<le> byte_val c \<and> byte_val c \<le> 57"

definition digit_val :: "byte \<Rightarrow> nat" where
  [c_simps]: "digit_val c = byte_val c - 48"

definition digit_char :: "nat \<Rightarrow> byte" where
  "digit_char d = char_of (48 + d)"

text \<open>The decimal digits of a natural number, as \<^verbatim>\<open>printf\<close> writes them.\<close>

fun show_nat :: "nat \<Rightarrow> bytes" where
  "show_nat n = (if n < 10 then [digit_char n] else show_nat (n div 10) @ [digit_char (n mod 10)])"

declare show_nat.simps [simp del]

text \<open>\<^verbatim>\<open>printf("%d")\<close> and its 64-bit variant \<^verbatim>\<open>PRId64\<close>.\<close>

definition show_int :: "int \<Rightarrow> bytes" where
  "show_int i = (if i < 0 then CHR ''-'' # show_nat (nat (- i)) else show_nat (nat i))"

text \<open>The value of a digit string, most significant digit first.\<close>

definition digits_val :: "bytes \<Rightarrow> nat" where
  "digits_val ds = foldl (\<lambda>acc c. acc * 10 + digit_val c) 0 ds"

text \<open>
  \<^verbatim>\<open>snprintf(dst, cap, "%s", s)\<close>: the C string \<open>s\<close> cut to \<open>cap - 1\<close> bytes.
\<close>

definition c_snprintf_s :: "nat \<Rightarrow> bytes \<Rightarrow> bytes" where
  "c_snprintf_s cap s = take (cap - 1) (cstr s)"

text \<open>
  \<^verbatim>\<open>strtoll(s, &end, 10)\<close>: leading white space, an optional sign, digits. The exact value and the bytes
  from \<^verbatim>\<open>end\<close> on, or \<open>None\<close> when there is no digit (\<^verbatim>\<open>end == s\<close>); \<^verbatim>\<open>errno\<close> is \<^verbatim>\<open>ERANGE\<close> iff the value
  is outside the 64-bit range.
\<close>

definition in_int64 :: "int \<Rightarrow> bool" where
  "in_int64 i \<longleftrightarrow> - (2 ^ 63) \<le> i \<and> i < 2 ^ 63"

definition c_strtoll :: "bytes \<Rightarrow> (int \<times> bytes) option" where
  "c_strtoll s =
     (let s1 = dropWhile c_isspace s;
          neg = s1 \<noteq> [] \<and> hd s1 = CHR ''-'';
          s2 = (if s1 \<noteq> [] \<and> (hd s1 = CHR ''-'' \<or> hd s1 = CHR ''+'') then tl s1 else s1);
          ds = takeWhile c_isdigit s2
      in if ds = [] then None
         else Some (if neg then - int (digits_val ds) else int (digits_val ds), dropWhile c_isdigit s2))"

lemma cstr_simps [simp]:
  "cstr [] = []"
  "cstr (c # s) = (if c = NUL then [] else c # cstr s)"
  by (simp_all add: cstr_def)

lemma cstr_id: "NUL \<notin> set s \<Longrightarrow> cstr s = s"
  by (induction s) auto

lemma NUL_notin_cstr [simp]: "NUL \<notin> set (cstr s)"
  by (induction s) auto

lemma cstr_idem [simp]: "cstr (cstr s) = cstr s"
  by (simp add: cstr_id)

lemma length_cstr_le: "length (cstr s) \<le> length s"
  by (induction s) auto

lemma byte_val_le: "byte_val c \<le> 255"
  using nat_of_char_less_256 [of c] by linarith

lemma byte_val_char_of: "n < 256 \<Longrightarrow> byte_val (char_of n) = n"
  by simp

lemma char_of_eqI: "byte_val c = n \<Longrightarrow> char_of n = c"
  by auto

lemma c_tolower_idem [simp]: "c_tolower (c_tolower c) = c_tolower c"
  by (auto simp: c_tolower_def byte_val_char_of)

lemma digit_char_val:
  assumes "d < 10"
  shows "byte_val (digit_char d) = 48 + d" and "c_isdigit (digit_char d)"
    and "digit_val (digit_char d) = d"
  using assms by (simp_all add: digit_char_def byte_val_char_of c_isdigit_def digit_val_def)

lemma show_nat_nonempty [simp]: "show_nat n \<noteq> []"
  by (subst show_nat.simps) simp

lemma show_nat_digits: "list_all c_isdigit (show_nat n)"
proof (induction n rule: show_nat.induct)
  case (1 n)
  then show ?case
    by (subst show_nat.simps) (auto simp: digit_char_val)
qed

lemma digits_val_snoc [simp]: "digits_val (ds @ [c]) = digits_val ds * 10 + digit_val c"
  by (simp add: digits_val_def)

lemma digits_val_Nil [simp]: "digits_val [] = 0"
  by (simp add: digits_val_def)

lemma digits_val_show_nat [simp]: "digits_val (show_nat n) = n"
proof (induction n rule: show_nat.induct)
  case (1 n)
  show ?case
  proof (cases "n < 10")
    case True
    then show ?thesis
      by (subst show_nat.simps) (simp add: digits_val_def digit_char_val)
  next
    case False
    with 1 show ?thesis
      by (subst show_nat.simps) (simp add: digit_char_val)
  qed
qed

lemma show_nat_hd_nonzero: "n \<noteq> 0 \<Longrightarrow> hd (show_nat n) \<noteq> CHR ''0''"
proof (induction n rule: show_nat.induct)
  case (1 n)
  show ?case
  proof (cases "n < 10")
    case True
    have "byte_val (digit_char n) \<noteq> byte_val CHR ''0''"
      using True "1.prems" by (simp add: digit_char_val)
    then have "digit_char n \<noteq> CHR ''0''" by metis
    with True show ?thesis by (subst show_nat.simps) simp
  next
    case False
    then have "n div 10 \<noteq> 0" by simp
    with False 1 show ?thesis
      by (subst show_nat.simps) simp
  qed
qed

lemma show_nat_0: "show_nat 0 = ''0''"
  by (subst show_nat.simps) (simp add: digit_char_def char_of_eqI)

lemma show_nat_length_le:
  assumes "n < 10 ^ k" and "0 < k"
  shows "length (show_nat n) \<le> k"
  using assms
proof (induction n arbitrary: k rule: show_nat.induct)
  case (1 n)
  show ?case
  proof (cases "n < 10")
    case True
    with 1 show ?thesis by (subst show_nat.simps) simp
  next
    case False
    from "1.prems" obtain k' where k: "k = Suc k'" by (cases k) auto
    with "1.prems" False have "0 < k'" by (cases k') auto
    with "1.prems" k have "n div 10 < 10 ^ k'" by (simp add: less_mult_imp_div_less)
    with False 1 \<open>0 < k'\<close> have "length (show_nat (n div 10)) \<le> k'" by simp
    with False k show ?thesis by (subst show_nat.simps) simp
  qed
qed

lemma show_nat_first: "\<exists>c cs. show_nat n = c # cs \<and> c_isdigit c"
  using show_nat_digits [of n] by (cases "show_nat n") auto

lemma c_strtoll_show_int: "c_strtoll (show_int i) = Some (i, [])"
proof -
  obtain c cs where c: "show_nat (nat \<bar>i\<bar>) = c # cs" "c_isdigit c" using show_nat_first by blast
  then have nsp: "\<not> c_isspace c" "c \<noteq> CHR ''-''" "c \<noteq> CHR ''+''"
    by (auto simp: c_isdigit_def c_isspace_def)
  have dg: "takeWhile c_isdigit (show_nat n) = show_nat n" "dropWhile c_isdigit (show_nat n) = []" for n
    using show_nat_digits [of n] by (simp_all add: list_all_iff takeWhile_eq_all_conv dropWhile_eq_Nil_conv)
  show ?thesis
  proof (cases "i < 0")
    case True
    then show ?thesis
      by (simp add: c_strtoll_def show_int_def Let_def c_isspace_def dg)
  next
    case False
    with c nsp have "dropWhile c_isspace (show_nat (nat i)) = show_nat (nat i)"
      "hd (show_nat (nat i)) \<noteq> CHR ''-''" "hd (show_nat (nat i)) \<noteq> CHR ''+''" by simp_all
    with False show ?thesis by (simp add: c_strtoll_def show_int_def Let_def dg)
  qed
qed

lemma nat_shift_or:
  fixes a b :: nat
  assumes "b < 2 ^ k"
  shows "or (push_bit k a) b = a * 2 ^ k + b"
proof -
  have "and (push_bit k a) b = 0"
  proof (rule bit_eqI)
    fix n
    have "take_bit k b = b" using assms by (simp add: take_bit_nat_eq_self)
    then have "bit b n \<Longrightarrow> n < k" by (metis bit_take_bit_iff)
    then show "bit (and (push_bit k a) b) n = bit 0 n"
      by (auto simp: bit_and_iff bit_push_bit_iff)
  qed
  then have "or (push_bit k a) b = push_bit k a + b"
    by (rule disjunctive_add_eq_or [symmetric])
  then show ?thesis by (simp add: push_bit_eq_mult)
qed


subsection \<open>Splitting lists at the first byte that satisfies a test\<close>

text \<open>\<^verbatim>\<open>memchr\<close> and \<^verbatim>\<open>strchr\<close>: the bytes before the first occurrence and those after it.\<close>

fun split_at_char :: "byte \<Rightarrow> bytes \<Rightarrow> (bytes \<times> bytes) option" where
  "split_at_char c [] = None"
| "split_at_char c (x # xs) =
     (if x = c then Some ([], xs)
      else map_option (\<lambda>(a, b). (x # a, b)) (split_at_char c xs))"

lemma split_at_char_Some_iff:
  "split_at_char c xs = Some (a, b) \<longleftrightarrow> xs = a @ c # b \<and> c \<notin> set a"
proof (induction xs arbitrary: a)
  case (Cons x xs)
  then show ?case by (cases a) auto
qed simp

lemma split_at_char_None_iff: "split_at_char c xs = None \<longleftrightarrow> c \<notin> set xs"
  by (induction xs) auto

lemma split_at_char_append [simp]:
  "c \<notin> set a \<Longrightarrow> split_at_char c (a @ c # b) = Some (a, b)"
  by (simp add: split_at_char_Some_iff)

lemma length_filter_update:
  "i < length xs \<Longrightarrow>
     length (filter P (xs[i := y])) + (if P (xs ! i) then 1 else 0) = length (filter P xs) + (if P y then 1 else 0)"
proof (induction xs arbitrary: i)
  case (Cons x xs)
  then show ?case by (cases i) auto
qed simp

lemma find_Some_iff_nth:
  "List.find P xs = Some x \<longleftrightarrow> (\<exists>i < length xs. P (xs ! i) \<and> x = xs ! i \<and> (\<forall>j < i. \<not> P (xs ! j)))"
  by (rule find_Some_iff)

lemma take_eq_append_drop: "take n xs = ys \<Longrightarrow> \<exists>zs. xs = ys @ zs"
  by (metis append_take_drop_id)


subsection \<open>Contracts shared by several components\<close>

text \<open>
  A codec: what the decoder must do on what the encoder produced. Its laws are proved for
  each pair of the program's own functions by an interpretation.
\<close>

locale codec =
  fixes valid :: "'a \<Rightarrow> bool"
    and enc :: "'a \<Rightarrow> 'b"
    and dec :: "'b \<Rightarrow> 'a option"
  assumes dec_enc: "valid x \<Longrightarrow> dec (enc x) = Some x"
begin

lemma enc_inject: "valid x \<Longrightarrow> valid y \<Longrightarrow> enc x = enc y \<longleftrightarrow> x = y"
  by (metis dec_enc option.inject)

end

text \<open>A codec whose decoder accepts nothing but the canonical encoding.\<close>

locale canonical_codec = codec +
  assumes dec_valid: "dec b = Some x \<Longrightarrow> valid x"
    and enc_dec: "dec b = Some x \<Longrightarrow> enc x = b"
begin

lemma dec_inject: "dec a = Some x \<Longrightarrow> dec b = Some x \<Longrightarrow> a = b"
  by (metis enc_dec)

lemma dec_Some_iff: "dec b = Some x \<longleftrightarrow> valid x \<and> b = enc x"
  by (metis dec_enc dec_valid enc_dec)

end

end
