(* ===== verification/Buf.thy ===== *)
theory Buf
  imports Prelude
begin

text \<open>
  The growable byte buffer (\<^verbatim>\<open>src/src/platform/buf.c\<close>, \<^verbatim>\<open>buf.h\<close>). \<open>buf_data\<close> is the first
  \<^verbatim>\<open>len\<close> bytes of the C buffer and \<open>buf_cap\<close> its capacity; all \<^verbatim>\<open>size_t\<close> arithmetic is
  written out modulo \<open>2 ^ 64\<close>. Whether \<^verbatim>\<open>realloc\<close> can provide a block of a given size is the
  parameter \<open>mem\<close>, so that both branches of every allocation are in the model. An operation
  returns \<open>None\<close> when the doubling loop of \<^verbatim>\<open>ensure_capacity\<close> does not end.
\<close>

record ps_buf =
  buf_data :: bytes
  buf_cap :: nat

definition ps_buf_init :: ps_buf where
  [buf_simps]: "ps_buf_init = \<lparr>buf_data = [], buf_cap = 0\<rparr>"

definition ps_buf_free :: "ps_buf \<Rightarrow> ps_buf" where
  [buf_simps]: "ps_buf_free b = b\<lparr>buf_data := [], buf_cap := 0\<rparr>"

text \<open>The loop \<^verbatim>\<open>while (cap < need) cap *= 2;\<close> on \<^verbatim>\<open>size_t\<close>.\<close>

partial_function (option) grow_cap :: "nat \<Rightarrow> nat \<Rightarrow> nat option" where
  "grow_cap cap need = (if cap < need then grow_cap (cap * 2 mod 2 ^ 64) need else Some cap)"

definition ensure_capacity :: "(nat \<Rightarrow> bool) \<Rightarrow> ps_buf \<Rightarrow> nat \<Rightarrow> (bool \<times> ps_buf) option" where
  "ensure_capacity mem b additional =
     (if additional \<le> (buf_cap b + (2 ^ 64 - length (buf_data b))) mod 2 ^ 64 then Some (True, b)
      else
        let need = (length (buf_data b) + additional) mod 2 ^ 64;
            cap = (if buf_cap b = 0 then 256 else buf_cap b)
        in case grow_cap cap need of
             None \<Rightarrow> None
           | Some cap' \<Rightarrow> if mem cap' then Some (True, b\<lparr>buf_cap := cap'\<rparr>) else Some (False, b))"

definition ps_buf_append :: "(nat \<Rightarrow> bool) \<Rightarrow> ps_buf \<Rightarrow> bytes \<Rightarrow> (bool \<times> ps_buf) option" where
  "ps_buf_append mem b d =
     (if d = [] then Some (True, b)
      else case ensure_capacity mem b (length d) of
             None \<Rightarrow> None
           | Some (ok, b') \<Rightarrow>
               if ok then Some (True, b'\<lparr>buf_data := buf_data b' @ d\<rparr>) else Some (False, b'))"

definition ps_buf_append_str :: "(nat \<Rightarrow> bool) \<Rightarrow> ps_buf \<Rightarrow> bytes \<Rightarrow> (bool \<times> ps_buf) option" where
  "ps_buf_append_str mem b s = ps_buf_append mem b (cstr s)"

definition ps_buf_append_char :: "(nat \<Rightarrow> bool) \<Rightarrow> ps_buf \<Rightarrow> byte \<Rightarrow> (bool \<times> ps_buf) option" where
  "ps_buf_append_char mem b c = ps_buf_append mem b [c]"

text \<open>Well-formedness: the bytes in use fit in the allocated block.\<close>

definition buf_ok :: "ps_buf \<Rightarrow> bool" where
  "buf_ok b \<longleftrightarrow> length (buf_data b) \<le> buf_cap b \<and> buf_cap b < 2 ^ 64"

text \<open>
  A sequence of appends chained by \<^verbatim>\<open>&&\<close>, as the encoders and serializers write their output:
  it stops at the first append that fails.
\<close>

fun append_chunks :: "('b \<Rightarrow> bytes \<Rightarrow> (bool \<times> 'b) option) \<Rightarrow> 'b \<Rightarrow> bytes list \<Rightarrow> (bool \<times> 'b) option" where
  "append_chunks app b [] = Some (True, b)"
| "append_chunks app b (d # ds) =
     (case app b d of
        None \<Rightarrow> None
      | Some (ok, b') \<Rightarrow> if ok then append_chunks app b' ds else Some (False, b'))"

text \<open>What a client of an append-only buffer relies on.\<close>

locale append_buffer =
  fixes inv :: "'b \<Rightarrow> bool"
    and content :: "'b \<Rightarrow> bytes"
    and app :: "'b \<Rightarrow> bytes \<Rightarrow> (bool \<times> 'b) option"
    and limit :: nat
  assumes append_ok: "inv b \<Longrightarrow> length (content b) + length d \<le> limit \<Longrightarrow>
      \<exists>b'. app b d = Some (True, b') \<and> inv b' \<and> content b' = content b @ d"
begin

lemma append_chunks_ok:
  "inv b \<Longrightarrow> length (content b) + length (concat ds) \<le> limit \<Longrightarrow>
     \<exists>b'. append_chunks app b ds = Some (True, b') \<and> inv b' \<and> content b' = content b @ concat ds"
proof (induction ds arbitrary: b)
  case (Cons d ds)
  from Cons.prems have "length (content b) + length d \<le> limit" by simp
  from append_ok [OF Cons.prems(1) this] obtain b1 where
    b1: "app b d = Some (True, b1)" "inv b1" "content b1 = content b @ d" by blast
  with Cons.prems have "length (content b1) + length (concat ds) \<le> limit" by simp
  from Cons.IH [OF b1(2) this] b1 show ?case by auto
qed simp

end


subsection \<open>The doubling loop\<close>

lemma grow_cap_stop: "need \<le> cap \<Longrightarrow> grow_cap cap need = Some cap"
  by (subst grow_cap.simps) simp

lemma grow_cap_step: "cap < need \<Longrightarrow> grow_cap cap need = grow_cap (cap * 2 mod 2 ^ 64) need"
  by (subst grow_cap.simps) simp

lemma grow_cap_terminates:
  assumes "0 < cap" and "need \<le> 2 ^ 63" and "cap < 2 ^ 64"
  shows "\<exists>c. grow_cap cap need = Some c \<and> need \<le> c \<and> cap \<le> c \<and> c < 2 ^ 64"
  using assms
proof (induction "need - cap" arbitrary: cap rule: less_induct)
  case less
  show ?case
  proof (cases "need \<le> cap")
    case True
    then show ?thesis using less.prems by (auto simp: grow_cap_stop)
  next
    case False
    with less.prems have lt: "cap * 2 < 2 ^ 64" by simp
    then have m: "cap * 2 mod 2 ^ 64 = cap * 2" by simp
    from False less.prems have "need - cap * 2 < need - cap" by simp
    from less.hyps [OF this] less.prems lt obtain c where
      "grow_cap (cap * 2) need = Some c" "need \<le> c" "cap * 2 \<le> c" "c < 2 ^ 64" by auto
    with False m show ?thesis by (auto simp: grow_cap_step)
  qed
qed

text \<open>A request beyond \<open>2 ^ 63\<close> bytes never leaves the loop: the capacity wraps around to 0.\<close>

lemma pow2_mod_le: "(2::nat) ^ k mod 2 ^ 64 \<le> 2 ^ 63"
proof (cases "k < 64")
  case True
  then have "(2::nat) ^ k \<le> 2 ^ 63" by (intro power_increasing) auto
  then show ?thesis by (meson le_trans mod_less_eq_dividend)
next
  case False
  then have "(2::nat) ^ 64 dvd 2 ^ k" by (intro le_imp_power_dvd) simp
  then show ?thesis by (simp add: dvd_imp_mod_0)
qed

lemma grow_cap_Some_pow2:
  assumes "grow_cap cap need = Some r" and "\<exists>k. cap = 2 ^ k mod 2 ^ 64"
  shows "need \<le> r \<and> (\<exists>k. r = 2 ^ k mod 2 ^ 64)"
  using assms(2)
proof (rule rev_mp)
  show "(\<exists>k. cap = 2 ^ k mod 2 ^ 64) \<longrightarrow> need \<le> r \<and> (\<exists>k. r = 2 ^ k mod 2 ^ 64)"
  proof (rule grow_cap.raw_induct
      [where P = "\<lambda>cap need r. (\<exists>k. cap = 2 ^ k mod 2 ^ 64) \<longrightarrow> need \<le> r \<and> (\<exists>k. r = 2 ^ k mod 2 ^ 64)",
        OF _ assms(1)])
    fix f :: "nat \<Rightarrow> nat \<Rightarrow> nat option" and cap need r
    assume IH: "\<And>cap need r. f cap need = Some r \<Longrightarrow>
        (\<exists>k. cap = 2 ^ k mod 2 ^ 64) \<longrightarrow> need \<le> r \<and> (\<exists>k. r = 2 ^ k mod 2 ^ 64)"
      and eq: "(if cap < need then f (cap * 2 mod 2 ^ 64) need else Some cap) = Some r"
    have dbl: "\<exists>k. cap * 2 mod 2 ^ 64 = 2 ^ k mod 2 ^ 64" if "\<exists>k. cap = 2 ^ k mod 2 ^ 64"
      using that by (metis mod_mult_left_eq power_Suc2)
    show "(\<exists>k. cap = 2 ^ k mod 2 ^ 64) \<longrightarrow> need \<le> r \<and> (\<exists>k. r = 2 ^ k mod 2 ^ 64)"
    proof (cases "cap < need")
      case True
      with eq have "f (cap * 2 mod 2 ^ 64) need = Some r" by simp
      from IH [OF this] dbl show ?thesis by blast
    next
      case False
      with eq show ?thesis by simp
    qed
  qed
qed


subsection \<open>Appending\<close>

lemma ensure_capacity_ok:
  assumes "buf_ok b" and "length (buf_data b) + n \<le> 2 ^ 63"
  shows "\<exists>c. ensure_capacity mem b n = Some (True, b) \<and> length (buf_data b) + n \<le> buf_cap b \<or>
     length (buf_data b) + n \<le> c \<and> c < 2 ^ 64 \<and>
     ensure_capacity mem b n = (if mem c then Some (True, b\<lparr>buf_cap := c\<rparr>) else Some (False, b))"
proof -
  let ?len = "length (buf_data b)" and ?cap = "if buf_cap b = 0 then 256 else buf_cap b"
  from assms have sub: "(buf_cap b + (2 ^ 64 - ?len)) mod 2 ^ 64 = buf_cap b - ?len"
    by (auto simp: buf_ok_def mod_if)
  show ?thesis
  proof (cases "n \<le> buf_cap b - ?len")
    case True
    with assms sub show ?thesis by (auto simp: ensure_capacity_def buf_ok_def)
  next
    case False
    have "0 < ?cap" "?cap < 2 ^ 64" using assms(1) by (auto simp: buf_ok_def)
    from grow_cap_terminates [OF this(1) assms(2) this(2)] obtain c where
      "grow_cap ?cap (?len + n) = Some c" "?len + n \<le> c" "c < 2 ^ 64" by blast
    moreover from assms(2) have "(?len + n) mod 2 ^ 64 = ?len + n" by simp
    ultimately show ?thesis using False sub by (auto simp: ensure_capacity_def Let_def)
  qed
qed

lemma append_result:
  assumes "buf_ok b" and "length (buf_data b) + length d \<le> 2 ^ 63"
  shows "(\<exists>b'. ps_buf_append mem b d = Some (True, b') \<and> buf_ok b' \<and> buf_data b' = buf_data b @ d) \<or>
     ps_buf_append mem b d = Some (False, b) \<and> (\<exists>c. \<not> mem c)"
proof (cases "d = []")
  case True
  with assms(1) show ?thesis by (simp add: ps_buf_append_def)
next
  case False
  from ensure_capacity_ok [OF assms, of mem] consider
      "ensure_capacity mem b (length d) = Some (True, b)" "length (buf_data b) + length d \<le> buf_cap b"
    | c where "ensure_capacity mem b (length d) = Some (True, b\<lparr>buf_cap := c\<rparr>)"
        "length (buf_data b) + length d \<le> c" "c < 2 ^ 64"
    | c where "ensure_capacity mem b (length d) = Some (False, b)" "\<not> mem c"
    by (metis (full_types))
  then show ?thesis
    using False assms(1) by cases (auto simp: ps_buf_append_def buf_ok_def)
qed

interpretation ps_buf: append_buffer buf_ok buf_data "ps_buf_append (\<lambda>_. True)" "2 ^ 63"
proof
  fix b and d :: bytes
  assume "buf_ok b" "length (buf_data b) + length d \<le> 2 ^ 63"
  from append_result [OF this, of "\<lambda>_. True"]
  show "\<exists>b'. ps_buf_append (\<lambda>_. True) b d = Some (True, b') \<and> buf_ok b' \<and> buf_data b' = buf_data b @ d"
    by simp
qed

lemma buf_ok_init [simp]: "buf_ok ps_buf_init" "buf_data ps_buf_init = []"
  by (simp_all add: buf_ok_def ps_buf_init_def)


subsection \<open>Properties\<close>

text \<open>Appending is all or nothing and never writes past the block: below \<open>2 ^ 63\<close> bytes the call
  returns, and either the bytes are there, after the old ones and within the capacity, or an
  allocation failed and the buffer is the one passed in.\<close>

theorem append_all_or_nothing:
  assumes "buf_ok b" and "length (buf_data b) + length d \<le> 2 ^ 63"
  shows "case ps_buf_append mem b d of
      None \<Rightarrow> False
    | Some (True, b') \<Rightarrow> buf_ok b' \<and> buf_data b' = buf_data b @ d
    | Some (False, b') \<Rightarrow> b' = b \<and> (\<exists>c. \<not> mem c)"
  using append_result [OF assms, of mem] by auto

theorem append_all_or_nothing_witness:
  "case ps_buf_append (\<lambda>n. n < 256) ps_buf_init ''abc'' of
      None \<Rightarrow> False
    | Some (True, b') \<Rightarrow> buf_ok b' \<and> buf_data b' = buf_data ps_buf_init @ ''abc''
    | Some (False, b') \<Rightarrow> b' = ps_buf_init \<and> (\<exists>c. \<not> c < (256::nat))"
  by (rule append_all_or_nothing) simp_all

text \<open>The doubling loop of \<^verbatim>\<open>ensure_capacity\<close> does not end when a fresh buffer is asked for more
  than \<open>2 ^ 63\<close> bytes: the capacity runs through the powers of two and wraps around to 0, where it
  stays. (No input of the service is that long: requests are bounded by the limits of the parser.)\<close>

theorem append_diverges_beyond_2_63:
  assumes "2 ^ 63 < length d" and "length d < 2 ^ 64"
  shows "ps_buf_append mem ps_buf_init d = None"
proof -
  have "grow_cap 256 (length d) = None"
  proof (rule ccontr)
    assume "grow_cap 256 (length d) \<noteq> None"
    then obtain r where "grow_cap 256 (length d) = Some r" by auto
    moreover have "\<exists>k. (256::nat) = 2 ^ k mod 2 ^ 64" by (rule exI [of _ 8]) simp
    ultimately have "length d \<le> r \<and> (\<exists>k. r = 2 ^ k mod 2 ^ 64)" by (rule grow_cap_Some_pow2)
    then show False using pow2_mod_le assms(1) by (metis leD le_trans)
  qed
  then show ?thesis using assms by (auto simp: ps_buf_append_def ensure_capacity_def ps_buf_init_def)
qed

theorem append_diverges_beyond_2_63_witness:
  "ps_buf_append (\<lambda>_. True) ps_buf_init (replicate (2 ^ 63 + 1) NUL) = None"
  by (rule append_diverges_beyond_2_63) simp_all

end
