(* ===== verification/Base64url.thy ===== *)
theory Base64url
  imports Buf
begin

text \<open>
  The base64url codec (\<^verbatim>\<open>src/src/crypto/base64url.c\<close>), with the shifts and masks on 32-bit
  words as the source has them. \<open>b64_chunks\<close> lists the pieces the encoder appends to its
  output buffer; \<open>ps_base64url_encode\<close> appends them one after the other. The decoder is
  modelled on the buffer too, so that a rejected input leaves the bytes already decoded there.
  \<open>b64_encode\<close> and \<open>b64_decode\<close> are the pure functions both are shown to implement; the other
  components use those.
\<close>

unbundle bit_operations_syntax

definition ENCODE_TABLE :: bytes where
  "ENCODE_TABLE = ''ABCDEFGHIJKLMNOPQRSTUVWXYZabcdefghijklmnopqrstuvwxyz0123456789-_''"

definition sextet :: "32 word \<Rightarrow> nat \<Rightarrow> byte" where
  "sextet n k = ENCODE_TABLE ! unat (drop_bit k n AND 0x3F)"

definition uc :: "byte \<Rightarrow> 32 word" where
  "uc c = word_of_nat (byte_val c)"

fun b64_chunks :: "bytes \<Rightarrow> bytes list" where
  "b64_chunks (a # b # c # rest) =
     (let n = push_bit 16 (uc a) OR push_bit 8 (uc b) OR uc c
      in [sextet n 18, sextet n 12, sextet n 6, sextet n 0] # b64_chunks rest)"
| "b64_chunks [a, b] =
     (let n = push_bit 16 (uc a) OR push_bit 8 (uc b)
      in [[sextet n 18, sextet n 12, sextet n 6]])"
| "b64_chunks [a] = (let n = push_bit 16 (uc a) in [[sextet n 18, sextet n 12]])"
| "b64_chunks [] = []"

definition ps_base64url_encode :: "(nat \<Rightarrow> bool) \<Rightarrow> bytes \<Rightarrow> ps_buf \<Rightarrow> (bool \<times> ps_buf) option" where
  "ps_base64url_encode mem d out = append_chunks (ps_buf_append mem) out (b64_chunks d)"

definition b64_encode :: "bytes \<Rightarrow> bytes" where
  "b64_encode d = concat (b64_chunks d)"

definition decode_char :: "byte \<Rightarrow> int" where
  "decode_char c =
     (let v = int (byte_val c) in
      if 65 \<le> v \<and> v \<le> 90 then v - 65
      else if 97 \<le> v \<and> v \<le> 122 then v - 97 + 26
      else if 48 \<le> v \<and> v \<le> 57 then v - 48 + 52
      else if c = CHR ''-'' then 62
      else if c = CHR ''_'' then 63
      else - 1)"

definition u32 :: "int \<Rightarrow> 32 word" where
  "u32 i = word_of_int i"

text \<open>\<^verbatim>\<open>(char)w\<close>: the low byte.\<close>

definition lo8 :: "32 word \<Rightarrow> byte" where
  "lo8 w = char_of (unat (w AND 0xFF))"

fun decode_groups :: "(nat \<Rightarrow> bool) \<Rightarrow> bytes \<Rightarrow> ps_buf \<Rightarrow> (bool \<times> ps_buf) option" where
  "decode_groups mem (t0 # t1 # t2 # t3 # rest) out =
     (let c0 = decode_char t0; c1 = decode_char t1; c2 = decode_char t2; c3 = decode_char t3
      in if c0 < 0 \<or> c1 < 0 \<or> c2 < 0 \<or> c3 < 0 then Some (False, out)
         else
           let n = push_bit 18 (u32 c0) OR push_bit 12 (u32 c1) OR push_bit 6 (u32 c2) OR u32 c3
           in case ps_buf_append mem out [lo8 (drop_bit 16 n), lo8 (drop_bit 8 n), lo8 n] of
                None \<Rightarrow> None
              | Some (ok, out') \<Rightarrow> if ok then decode_groups mem rest out' else Some (False, out'))"
| "decode_groups mem [t0, t1] out =
     (let c0 = decode_char t0; c1 = decode_char t1
      in if c0 < 0 \<or> c1 < 0 \<or> u32 c1 AND 0x0F \<noteq> 0 then Some (False, out)
         else ps_buf_append mem out [lo8 (push_bit 2 (u32 c0) OR drop_bit 4 (u32 c1))])"
| "decode_groups mem [t0, t1, t2] out =
     (let c0 = decode_char t0; c1 = decode_char t1; c2 = decode_char t2
      in if c0 < 0 \<or> c1 < 0 \<or> c2 < 0 \<or> u32 c2 AND 0x03 \<noteq> 0 then Some (False, out)
         else
           let n = push_bit 18 (u32 c0) OR push_bit 12 (u32 c1) OR push_bit 6 (u32 c2)
           in ps_buf_append mem out [lo8 (drop_bit 16 n), lo8 (drop_bit 8 n)])"
| "decode_groups mem _ out = Some (True, out)"

definition ps_base64url_decode :: "(nat \<Rightarrow> bool) \<Rightarrow> bytes \<Rightarrow> ps_buf \<Rightarrow> (bool \<times> ps_buf) option" where
  "ps_base64url_decode mem text out =
     (if length text mod 4 = 1 then Some (False, out) else decode_groups mem text out)"

text \<open>The decoder on values: the decoded bytes, or \<open>None\<close> for a rejected input.\<close>

definition sextet_val :: "byte \<Rightarrow> nat option" where
  "sextet_val c = (if decode_char c < 0 then None else Some (nat (decode_char c)))"

fun b64_decode :: "bytes \<Rightarrow> bytes option" where
  "b64_decode [] = Some []"
| "b64_decode [_] = None"
| "b64_decode [t0, t1] =
     (case (sextet_val t0, sextet_val t1) of
        (Some x, Some y) \<Rightarrow> if y mod 16 \<noteq> 0 then None else Some [char_of (x * 4 + y div 16)]
      | _ \<Rightarrow> None)"
| "b64_decode [t0, t1, t2] =
     (case (sextet_val t0, sextet_val t1, sextet_val t2) of
        (Some x, Some y, Some z) \<Rightarrow>
          if z mod 4 \<noteq> 0 then None
          else Some [char_of (x * 4 + y div 16), char_of (y mod 16 * 16 + z div 4)]
      | _ \<Rightarrow> None)"
| "b64_decode (t0 # t1 # t2 # t3 # rest) =
     (case (sextet_val t0, sextet_val t1, sextet_val t2, sextet_val t3) of
        (Some x, Some y, Some z, Some w) \<Rightarrow>
          map_option (\<lambda>r. char_of (x * 4 + y div 16) # char_of (y mod 16 * 16 + z div 4) #
             char_of (z mod 4 * 64 + w) # r) (b64_decode rest)
      | _ \<Rightarrow> None)"


subsection \<open>The alphabet\<close>

lemma length_ENCODE_TABLE: "length ENCODE_TABLE = 64"
  by (simp add: ENCODE_TABLE_def)

lemma map_sextet_val_TABLE: "map sextet_val ENCODE_TABLE = map Some [0..<64]"
proof -
  have "[0..<64] = 0 # 1 # [2..<64]" by (simp add: upt_conv_Cons numeral_2_eq_2)
  then show ?thesis
    by (simp add: ENCODE_TABLE_def sextet_val_def decode_char_def)
qed

lemma sextet_val_TABLE: "k < 64 \<Longrightarrow> sextet_val (ENCODE_TABLE ! k) = Some k"
  using arg_cong [OF map_sextet_val_TABLE, of "\<lambda>xs. xs ! k"] by (simp add: length_ENCODE_TABLE)

lemma decode_char_less: "decode_char c < 64"
  by (simp add: decode_char_def Let_def)

lemma decode_char_inj:
  assumes "decode_char c = decode_char d" and "0 \<le> decode_char c"
  shows "c = d"
proof -
  have "c = d \<or> byte_val c = byte_val d"
    using assms by (auto simp: decode_char_def Let_def split: if_splits)
  then show ?thesis by simp
qed

lemma TABLE_sextet_val:
  assumes "sextet_val c = Some k"
  shows "k < 64" and "ENCODE_TABLE ! k = c"
proof -
  show k: "k < 64"
    using assms decode_char_less [of c] by (auto simp: sextet_val_def split: if_splits)
  from sextet_val_TABLE [OF k] assms show "ENCODE_TABLE ! k = c"
    by (auto simp: sextet_val_def split: if_splits intro!: decode_char_inj)
qed


subsection \<open>The word arithmetic, on natural numbers\<close>

lemma unat_uc: "unat (uc c) = byte_val c"
proof -
  have "byte_val c < 2 ^ 32"
    by (rule less_le_trans [OF nat_of_char_less_256]) simp
  then show ?thesis by (simp add: uc_def unsigned_of_nat take_bit_nat_eq_self)
qed

lemma unat_and_mask:
  "unat (w AND 0x3F :: 32 word) = unat w mod 64"
  "unat (w AND 0xFF :: 32 word) = unat w mod 256"
  "unat (w AND 0x0F :: 32 word) = unat w mod 16"
  "unat (w AND 0x03 :: 32 word) = unat w mod 4"
proof -
  have "w AND 0x3F = take_bit 6 w" "w AND 0xFF = take_bit 8 w" "w AND 0x0F = take_bit 4 w" "w AND 0x03 = take_bit 2 w"
    by (simp_all add: take_bit_eq_mask mask_eq_exp_minus_1)
  then show "unat (w AND 0x3F) = unat w mod 64" "unat (w AND 0xFF) = unat w mod 256"
    "unat (w AND 0x0F) = unat w mod 16" "unat (w AND 0x03) = unat w mod 4"
    by (simp_all only: unsigned_take_bit_eq) (simp_all add: take_bit_eq_mod)
qed

lemma unat_shift_or:
  assumes "unat a * 2 ^ k + unat b < 2 ^ 32" and "unat b < 2 ^ k"
  shows "unat (push_bit k a OR b :: 32 word) = unat a * 2 ^ k + unat b"
proof -
  have "push_bit k (unat a) OR unat b = push_bit k (unat a) + unat b"
    using nat_shift_or [OF assms(2)] by (simp add: push_bit_eq_mult)
  moreover have "unat (push_bit k a) = push_bit k (unat a)"
    unfolding unsigned_push_bit_eq using assms(1) by (simp add: take_bit_nat_eq_self push_bit_eq_mult)
  ultimately have "unat (push_bit k a OR b) = push_bit k (unat a) + unat b"
    by (simp only: unsigned_or_eq)
  then show ?thesis by (simp only: push_bit_eq_mult)
qed

lemma sextet_eq: "sextet n k = ENCODE_TABLE ! (unat n div 2 ^ k mod 64)"
  unfolding sextet_def unat_and_mask unat_drop_bit_eq unfolding drop_bit_eq_div ..

abbreviation TBL :: "nat \<Rightarrow> byte" where
  "TBL k \<equiv> ENCODE_TABLE ! k"

lemma div_mod_shift:
  fixes A B C :: nat
  assumes "B < 256" and "C < 256"
  shows "(A * 65536 + B * 256 + C) div 262144 = A div 4"
    and "(A * 65536 + B * 256 + C) div 4096 = A * 16 + B div 16"
    and "(A * 65536 + B * 256 + C) div 64 = A * 1024 + B * 4 + C div 64"
proof -
  have 1: "(A * 65536 + B * 256 + C) div 256 = A * 256 + B" using assms by simp
  have 2: "(A * 256 + B) div 256 = A" using assms by simp
  have "(A * 65536 + B * 256 + C) div 262144 = (A * 65536 + B * 256 + C) div 256 div 256 div 4"
    by (simp flip: div_mult2_eq)
  then show "(A * 65536 + B * 256 + C) div 262144 = A div 4" by (simp only: 1 2)
  have "(A * 65536 + B * 256 + C) div 4096 = (A * 65536 + B * 256 + C) div 256 div 16"
    by (simp flip: div_mult2_eq)
  then show "(A * 65536 + B * 256 + C) div 4096 = A * 16 + B div 16" unfolding 1 by simp
  show "(A * 65536 + B * 256 + C) div 64 = A * 1024 + B * 4 + C div 64" by simp
qed

lemma mod_64_split:
  fixes A D :: nat
  assumes "D < 16"
  shows "(A * 16 + D) mod 64 = A mod 4 * 16 + D"
  using assms mod_mult2_eq [of "A * 16 + D" 16 4] by simp

lemma mod_64_split':
  fixes A B D :: nat
  assumes "D < 4"
  shows "(A * 1024 + B * 4 + D) mod 64 = B mod 16 * 4 + D"
proof -
  have "(A * 1024 + B * 4 + D) mod 64 = (B * 4 + D + A * 16 * 64) mod 64" by (simp add: algebra_simps)
  also have "\<dots> = (B * 4 + D) mod 64" by (rule mod_mult_self1)
  also have "\<dots> = B mod 16 * 4 + D" using assms mod_mult2_eq [of "B * 4 + D" 4 16] by simp
  finally show ?thesis .
qed

lemma unat_3_bytes: "unat (push_bit 16 (uc a) OR push_bit 8 (uc b) OR uc c) =
    byte_val a * 65536 + byte_val b * 256 + byte_val c"
proof -
  have less: "byte_val b * 256 + byte_val c \<le> 65535"
    "byte_val a * 65536 + (byte_val b * 256 + byte_val c) \<le> 16777215"
    using byte_val_le [of a] byte_val_le [of b] byte_val_le [of c] by linarith+
  have 1: "unat (push_bit 8 (uc b) OR uc c) = byte_val b * 256 + byte_val c"
    using less(1) by (subst unat_shift_or) (simp_all add: unat_uc)
  with less have "unat (push_bit 16 (uc a) OR (push_bit 8 (uc b) OR uc c)) =
      byte_val a * 65536 + byte_val b * 256 + byte_val c"
    by (subst unat_shift_or) (simp_all add: unat_uc)
  then show ?thesis by (simp only: or.assoc)
qed

lemma uc_NUL: "uc NUL = 0"
  by (simp add: uc_def)

lemma sextets_3_bytes:
  defines "n a b c \<equiv> push_bit 16 (uc a) OR push_bit 8 (uc b) OR uc c"
  shows "sextet (n a b c) 18 = TBL (byte_val a div 4)"
    and "sextet (n a b c) 12 = TBL (byte_val a mod 4 * 16 + byte_val b div 16)"
    and "sextet (n a b c) 6 = TBL (byte_val b mod 16 * 4 + byte_val c div 64)"
    and "sextet (n a b c) 0 = TBL (byte_val c mod 64)"
proof -
  have less: "byte_val a < 256" "byte_val b < 256" "byte_val c < 256" by simp_all
  then have d: "byte_val b div 16 < 16" "byte_val c div 64 < 4" "byte_val a div 4 < 64" by linarith+
  note eq = sextet_eq n_def unat_3_bytes
  show "sextet (n a b c) 18 = TBL (byte_val a div 4)"
    unfolding eq using d by (simp add: div_mod_shift less)
  show "sextet (n a b c) 12 = TBL (byte_val a mod 4 * 16 + byte_val b div 16)"
    unfolding eq using d by (simp add: div_mod_shift less mod_64_split)
  show "sextet (n a b c) 6 = TBL (byte_val b mod 16 * 4 + byte_val c div 64)"
    unfolding eq using d by (simp add: div_mod_shift less mod_64_split')
  have "(byte_val a * 65536 + byte_val b * 256 + byte_val c) mod 64 =
      (byte_val c + (byte_val a * 1024 + byte_val b * 4) * 64) mod 64" by (simp add: algebra_simps)
  also have "\<dots> = byte_val c mod 64" by (rule mod_mult_self1)
  finally have "(byte_val a * 65536 + byte_val b * 256 + byte_val c) mod 64 = byte_val c mod 64" .
  then show "sextet (n a b c) 0 = TBL (byte_val c mod 64)"
    unfolding eq by simp
qed

text \<open>The encoder, with each output byte as the table entry of a six-bit number.\<close>

lemma b64_encode_simps [codec_simps]:
  "b64_encode [] = []"
  "b64_encode [a] = [TBL (byte_val a div 4), TBL (byte_val a mod 4 * 16)]"
  "b64_encode [a, b] = [TBL (byte_val a div 4), TBL (byte_val a mod 4 * 16 + byte_val b div 16),
     TBL (byte_val b mod 16 * 4)]"
  "b64_encode (a # b # c # rest) = TBL (byte_val a div 4) # TBL (byte_val a mod 4 * 16 + byte_val b div 16) #
     TBL (byte_val b mod 16 * 4 + byte_val c div 64) # TBL (byte_val c mod 64) # b64_encode rest"
  using sextets_3_bytes [of a NUL NUL] sextets_3_bytes [of a b NUL] sextets_3_bytes [of a b c]
  by (simp_all add: b64_encode_def uc_NUL Let_def)


subsection \<open>Decoding inverts encoding, and accepts nothing else\<close>

lemma b64_decode_encode: "b64_decode (b64_encode d) = Some d"
proof (induction d rule: b64_chunks.induct)
  case (1 a b c rest)
  have lt: "byte_val a div 4 < 64" "byte_val a mod 4 * 16 + byte_val b div 16 < 64"
    "byte_val b mod 16 * 4 + byte_val c div 64 < 64"
    using byte_val_le [of a] byte_val_le [of b] byte_val_le [of c] by linarith+
  have "byte_val b div 16 < 16" "byte_val c div 64 < 4"
    using byte_val_le [of b] byte_val_le [of c] by linarith+
  then show ?case
    using 1 lt by (simp add: codec_simps sextet_val_TABLE)
next
  case (2 a b)
  have "byte_val a div 4 < 64" "byte_val a mod 4 * 16 + byte_val b div 16 < 64" "byte_val b mod 16 * 4 < 64"
    "byte_val b div 16 < 16"
    using byte_val_le [of a] byte_val_le [of b] by linarith+
  then show ?case by (simp add: codec_simps sextet_val_TABLE)
next
  case (3 a)
  have "byte_val a div 4 < 64" "byte_val a mod 4 * 16 < 64"
    using byte_val_le [of a] by linarith+
  then show ?case by (simp add: codec_simps sextet_val_TABLE)
qed (simp add: codec_simps)

lemma byte_val_4_16: "x < 64 \<Longrightarrow> y < 64 \<Longrightarrow> byte_val (char_of (x * 4 + y div 16)) = x * 4 + y div 16"
  by (rule byte_val_char_of) linarith

lemma byte_val_16_4: "z < 64 \<Longrightarrow> byte_val (char_of (y mod 16 * 16 + z div 4)) = y mod 16 * 16 + z div 4"
  for y z :: nat
proof (rule byte_val_char_of)
  assume "z < 64"
  moreover have "y mod 16 < 16" by simp
  ultimately show "y mod 16 * 16 + z div 4 < 256" by linarith
qed

lemma byte_val_64_1: "w < 64 \<Longrightarrow> byte_val (char_of (z mod 4 * 64 + w)) = z mod 4 * 64 + w"
  for z w :: nat
proof (rule byte_val_char_of)
  assume "w < 64"
  moreover have "z mod 4 < 4" by simp
  ultimately show "z mod 4 * 64 + w < 256" by linarith
qed

lemma b64_encode_decode: "b64_decode t = Some d \<Longrightarrow> b64_encode d = t"
proof (induction t arbitrary: d rule: b64_decode.induct)
  case (3 t0 t1)
  then obtain x y where xy: "sextet_val t0 = Some x" "sextet_val t1 = Some y" and y: "y mod 16 = 0"
    and d: "d = [char_of (x * 4 + y div 16)]"
    by (auto split: option.splits if_splits)
  from xy [THEN TABLE_sextet_val(1)] have lt: "x < 64" "y < 64" .
  then have dv: "y div 16 < 4" "y div 16 * 16 = y" using y by (linarith, simp flip: minus_mod_eq_div_mult)
  show ?case
    using xy [THEN TABLE_sextet_val(2)] lt dv unfolding d
    by (simp add: codec_simps byte_val_4_16)
next
  case (4 t0 t1 t2)
  then obtain x y z where xy: "sextet_val t0 = Some x" "sextet_val t1 = Some y" "sextet_val t2 = Some z"
    and z: "z mod 4 = 0"
    and d: "d = [char_of (x * 4 + y div 16), char_of (y mod 16 * 16 + z div 4)]"
    by (auto split: option.splits if_splits)
  from xy [THEN TABLE_sextet_val(1)] have lt: "x < 64" "y < 64" "z < 64" .
  then have dv: "y div 16 < 4" "z div 4 < 16" "z div 4 * 4 = z" "y div 16 * 16 + y mod 16 = y"
    using z by (linarith, linarith, simp flip: minus_mod_eq_div_mult, simp)
  show ?case
    using xy [THEN TABLE_sextet_val(2)] lt dv unfolding d
    by (simp add: codec_simps byte_val_4_16 byte_val_16_4)
next
  case (5 t0 t1 t2 t3 rest)
  then obtain x y z w r where xy: "sextet_val t0 = Some x" "sextet_val t1 = Some y" "sextet_val t2 = Some z"
    "sextet_val t3 = Some w" and r: "b64_decode rest = Some r"
    and d: "d = char_of (x * 4 + y div 16) # char_of (y mod 16 * 16 + z div 4) # char_of (z mod 4 * 64 + w) # r"
    by (auto split: option.splits)
  from xy [THEN TABLE_sextet_val(1)] have lt: "x < 64" "y < 64" "z < 64" "w < 64" .
  then have dv: "y div 16 < 4" "z div 4 < 16" "z div 4 * 4 + z mod 4 = z" "y div 16 * 16 + y mod 16 = y"
    by (linarith, linarith, simp, simp)
  have "b64_encode r = rest" using 5 xy r by simp
  then show ?case
    using xy [THEN TABLE_sextet_val(2)] lt dv unfolding d
    by (simp add: codec_simps byte_val_4_16 byte_val_16_4 byte_val_64_1)
qed (auto simp: codec_simps)

interpretation base64url: canonical_codec "\<lambda>_. True" b64_encode b64_decode
  by unfold_locales (simp_all add: b64_decode_encode b64_encode_decode)

lemma length_b64_encode: "length (b64_encode d) = (length d * 4 + 2) div 3"
  by (induction d rule: b64_chunks.induct) (simp_all add: codec_simps)

lemma b64_decode_alphabet: "b64_decode t = Some d \<Longrightarrow> c \<in> set t \<Longrightarrow> 0 \<le> decode_char c"
  by (induction t arbitrary: d rule: b64_decode.induct)
    (auto simp: sextet_val_def split: option.splits if_splits)

lemma b64_encode_no_dot: "CHR ''.'' \<notin> set (b64_encode d)"
  using b64_decode_alphabet [OF b64_decode_encode, of "CHR ''.''" d] by (auto simp: decode_char_def)


subsection \<open>The routines on buffers implement the codec\<close>

lemma unat_u32: "0 \<le> c \<Longrightarrow> c < 64 \<Longrightarrow> unat (u32 c) = nat c"
  by (simp add: u32_def unsigned_of_int take_bit_int_eq_self)

lemma unat_4_sextets:
  assumes "unat a < 64" and "unat b < 64" and "unat c < 64" and "unat d < 64"
  shows "unat (push_bit 18 a OR push_bit 12 b OR push_bit 6 c OR d :: 32 word) =
    unat a * 262144 + unat b * 4096 + unat c * 64 + unat d"
proof -
  have 1: "unat (push_bit 6 c OR d) = unat c * 64 + unat d"
    using assms by (subst unat_shift_or) simp_all
  have 2: "unat (push_bit 12 b OR (push_bit 6 c OR d)) = unat b * 4096 + (unat c * 64 + unat d)"
    using assms 1 by (subst unat_shift_or) simp_all
  have "unat (push_bit 18 a OR (push_bit 12 b OR (push_bit 6 c OR d))) =
      unat a * 262144 + (unat b * 4096 + (unat c * 64 + unat d))"
    using assms 2 by (subst unat_shift_or) simp_all
  then show ?thesis by (simp only: or.assoc add.assoc)
qed

lemma lo8_eq: "lo8 w = char_of (unat w mod 256)"
  by (simp only: lo8_def unat_and_mask)

lemma lo8_4_sextets:
  assumes "unat a < 64" and "unat b < 64" and "unat c < 64" and "unat d < 64"
  defines "n \<equiv> push_bit 18 a OR push_bit 12 b OR push_bit 6 c OR d :: 32 word"
  shows "lo8 (drop_bit 16 n) = char_of (unat a * 4 + unat b div 16)"
    and "lo8 (drop_bit 8 n) = char_of (unat b mod 16 * 16 + unat c div 4)"
    and "lo8 n = char_of (unat c mod 4 * 64 + unat d)"
proof -
  define N where "N = unat a * 262144 + unat b * 4096 + unat c * 64 + unat d"
  have n: "unat n = N" using assms(1-4) unfolding n_def N_def by (rule unat_4_sextets)
  have "N div 64 = unat a * 4096 + unat b * 64 + unat c" using assms(4) by (simp add: N_def)
  moreover have "N div 256 = N div 64 div 4" by (simp flip: div_mult2_eq)
  ultimately have d256: "N div 256 = unat a * 1024 + unat b * 16 + unat c div 4" by simp
  moreover have "N div 65536 = N div 256 div 256" by (simp flip: div_mult2_eq)
  moreover have "(unat a * 1024 + unat b * 16 + unat c div 4) div 256 =
      (unat a * 1024 + unat b * 16 + unat c div 4) div 16 div 16" by (simp flip: div_mult2_eq)
  moreover have "(unat a * 1024 + unat b * 16 + unat c div 4) div 16 = unat a * 64 + unat b"
    using assms(3) by simp
  moreover have "(unat a * 64 + unat b) div 16 = unat a * 4 + unat b div 16" by linarith
  ultimately have d65536: "N div 65536 = unat a * 4 + unat b div 16" by simp
  have "unat b div 16 < 4" using assms(2) by linarith
  then show "lo8 (drop_bit 16 n) = char_of (unat a * 4 + unat b div 16)"
    unfolding lo8_eq unat_drop_bit_eq n using d65536 assms(1) by (simp add: drop_bit_eq_div)
  have "unat a * 1024 + unat b * 16 + unat c div 4 = unat b * 16 + unat c div 4 + unat a * 4 * 256" by simp
  then have "N div 256 mod 256 = (unat b * 16 + unat c div 4) mod 256"
    unfolding d256 by (simp only: mod_mult_self1)
  also have "\<dots> = unat b mod 16 * 16 + unat c div 4"
    using assms(3) mod_mult2_eq [of "unat b * 16 + unat c div 4" 16 16] by simp
  finally show "lo8 (drop_bit 8 n) = char_of (unat b mod 16 * 16 + unat c div 4)"
    unfolding lo8_eq unat_drop_bit_eq n by (simp add: drop_bit_eq_div)
  have "N = unat c * 64 + unat d + (unat a * 1024 + unat b * 16) * 256" by (simp add: N_def)
  then have "N mod 256 = (unat c * 64 + unat d) mod 256" by (simp only: mod_mult_self1)
  also have "\<dots> = unat c mod 4 * 64 + unat d"
    using assms(4) mod_mult2_eq [of "unat c * 64 + unat d" 64 4] by simp
  finally show "lo8 n = char_of (unat c mod 4 * 64 + unat d)"
    unfolding lo8_eq n by simp
qed

lemma lo8_2_sextets:
  assumes "unat a < 64" and "unat b < 64"
  shows "lo8 (push_bit 2 a OR drop_bit 4 b) = char_of (unat a * 4 + unat b div 16)"
proof -
  have b: "unat (drop_bit 4 b) = unat b div 16"
    unfolding unat_drop_bit_eq by (simp add: drop_bit_eq_div)
  have "unat b div 16 < 4" using assms(2) by linarith
  with assms(1) have "unat (push_bit 2 a OR drop_bit 4 b) = unat a * 4 + unat b div 16"
    unfolding b [symmetric] by (subst unat_shift_or) simp_all
  with assms(1) \<open>unat b div 16 < 4\<close> show ?thesis by (simp add: lo8_eq)
qed

text \<open>The words of a group whose characters all belong to the alphabet.\<close>

lemma decode_char_word:
  assumes "0 \<le> decode_char c"
  shows "sextet_val c = Some (unat (u32 (decode_char c)))" and "unat (u32 (decode_char c)) < 64"
  using assms decode_char_less [of c] by (simp_all add: sextet_val_def unat_u32)

lemma sextet_val_word:
  "sextet_val c = (if decode_char c < 0 then None else Some (unat (u32 (decode_char c))))"
  using decode_char_word(1) [of c] by (simp add: sextet_val_def)

lemma word_and_eq_0_iff:
  "u32 c AND 0x0F = 0 \<longleftrightarrow> unat (u32 c) mod 16 = 0"
  "u32 c AND 0x03 = 0 \<longleftrightarrow> unat (u32 c) mod 4 = 0"
  by (simp_all only: unat_and_mask [symmetric] unat_eq_zero)

text \<open>The loop over the groups does what \<open>b64_decode\<close> says, and fails where it is undefined.\<close>

definition groups_decoded :: "bytes \<Rightarrow> ps_buf \<Rightarrow> bool" where
  "groups_decoded t out \<longleftrightarrow> (case b64_decode t of
     Some d \<Rightarrow> \<exists>out'. decode_groups (\<lambda>_. True) t out = Some (True, out') \<and> buf_ok out' \<and>
                buf_data out' = buf_data out @ d
   | None \<Rightarrow> \<exists>out'. decode_groups (\<lambda>_. True) t out = Some (False, out') \<and> buf_ok out')"

lemma decode_group_2:
  assumes ok: "buf_ok out" and len: "length (buf_data out) + 2 \<le> 2 ^ 63"
  shows "groups_decoded [t0, t1] out"
proof (cases "decode_char t0 < 0 \<or> decode_char t1 < 0 \<or> u32 (decode_char t1) AND 0x0F \<noteq> 0")
  case True
  with ok show ?thesis by (auto simp: groups_decoded_def Let_def sextet_val_word word_and_eq_0_iff)
next
  case False
  then have w: "0 \<le> decode_char t0" "0 \<le> decode_char t1" by auto
  let ?d = "[lo8 (push_bit 2 (u32 (decode_char t0)) OR drop_bit 4 (u32 (decode_char t1)))]"
  note lo = lo8_2_sextets [OF w [THEN decode_char_word(2)]]
  from ps_buf.append_ok [OF ok, of ?d] len obtain out' where
    "ps_buf_append (\<lambda>_. True) out ?d = Some (True, out')" "buf_ok out'" "buf_data out' = buf_data out @ ?d"
    by auto
  then show ?thesis using False by (simp add: groups_decoded_def Let_def sextet_val_word word_and_eq_0_iff lo)
qed

lemma decode_group_3:
  assumes ok: "buf_ok out" and len: "length (buf_data out) + 3 \<le> 2 ^ 63"
  shows "groups_decoded [t0, t1, t2] out"
proof (cases "decode_char t0 < 0 \<or> decode_char t1 < 0 \<or> decode_char t2 < 0 \<or> u32 (decode_char t2) AND 0x03 \<noteq> 0")
  case True
  with ok show ?thesis by (auto simp: groups_decoded_def Let_def sextet_val_word word_and_eq_0_iff)
next
  case False
  then have w: "0 \<le> decode_char t0" "0 \<le> decode_char t1" "0 \<le> decode_char t2" by auto
  let ?n = "push_bit 18 (u32 (decode_char t0)) OR push_bit 12 (u32 (decode_char t1)) OR push_bit 6 (u32 (decode_char t2))"
  let ?d = "[lo8 (drop_bit 16 ?n), lo8 (drop_bit 8 ?n)]"
  have "unat (0 :: 32 word) < 64" by simp
  note lo = lo8_4_sextets(1,2) [OF w [THEN decode_char_word(2)] this, unfolded or.right_neutral]
  from ps_buf.append_ok [OF ok, of ?d] len obtain out' where
    "ps_buf_append (\<lambda>_. True) out ?d = Some (True, out')" "buf_ok out'" "buf_data out' = buf_data out @ ?d"
    by auto
  then show ?thesis using False lo by (simp add: groups_decoded_def Let_def sextet_val_word word_and_eq_0_iff)
qed

lemma decode_groups_decoded:
  assumes "length t mod 4 \<noteq> 1" and "buf_ok out" and "length (buf_data out) + length t \<le> 2 ^ 63"
  shows "groups_decoded t out"
  using assms
proof (induction t arbitrary: out rule: b64_decode.induct)
  case (3 t0 t1)
  then show ?case by (simp add: decode_group_2)
next
  case (4 t0 t1 t2)
  then show ?case by (simp add: decode_group_3)
next
  case (5 t0 t1 t2 t3 rest)
  show ?case
  proof (cases "decode_char t0 < 0 \<or> decode_char t1 < 0 \<or> decode_char t2 < 0 \<or> decode_char t3 < 0")
    case True
    with 5 show ?thesis by (auto simp: groups_decoded_def Let_def sextet_val_word)
  next
    case False
    then have w: "0 \<le> decode_char t0" "0 \<le> decode_char t1" "0 \<le> decode_char t2" "0 \<le> decode_char t3" by auto
    let ?n = "push_bit 18 (u32 (decode_char t0)) OR push_bit 12 (u32 (decode_char t1)) OR
      push_bit 6 (u32 (decode_char t2)) OR u32 (decode_char t3)"
    let ?d = "[lo8 (drop_bit 16 ?n), lo8 (drop_bit 8 ?n), lo8 ?n]"
    note lo = lo8_4_sextets [OF w [THEN decode_char_word(2)]]
    from ps_buf.append_ok [OF 5(3), of ?d] 5(4) obtain out' where
      o: "ps_buf_append (\<lambda>_. True) out ?d = Some (True, out')" "buf_ok out'" "buf_data out' = buf_data out @ ?d"
      by auto
    from w have sx: "sextet_val t0 = Some (unat (u32 (decode_char t0)))" "sextet_val t1 = Some (unat (u32 (decode_char t1)))"
      "sextet_val t2 = Some (unat (u32 (decode_char t2)))" "sextet_val t3 = Some (unat (u32 (decode_char t3)))"
      by (simp_all add: decode_char_word(1))
    have "length rest mod 4 \<noteq> 1" "length (buf_data out') + length rest \<le> 2 ^ 63" using 5 o by auto
    from 5(1) [OF refl sx(1) refl sx(2) refl sx(3) sx(4) this(1) o(2) this(2)] show ?thesis using False o lo sx
      by (auto simp: groups_decoded_def Let_def split: option.splits)
  qed
qed (auto simp: groups_decoded_def)

lemmas decode_groups_result = decode_groups_decoded [unfolded groups_decoded_def]

lemma b64_decode_len1: "length t mod 4 = 1 \<Longrightarrow> b64_decode t = None"
proof (induction t rule: b64_decode.induct)
  case (5 t0 t1 t2 t3 rest)
  then show ?case
    by (cases "sextet_val t0"; cases "sextet_val t1"; cases "sextet_val t2"; cases "sextet_val t3") auto
qed auto

lemma ps_base64url_decode_result:
  assumes "buf_ok out" and "length (buf_data out) + length t \<le> 2 ^ 63"
  shows "case b64_decode t of
     Some d \<Rightarrow> \<exists>out'. ps_base64url_decode (\<lambda>_. True) t out = Some (True, out') \<and> buf_ok out' \<and>
                buf_data out' = buf_data out @ d
   | None \<Rightarrow> \<exists>out'. ps_base64url_decode (\<lambda>_. True) t out = Some (False, out') \<and> buf_ok out'"
  using decode_groups_result [OF _ assms] b64_decode_len1 [of t] assms(1)
  by (cases "length t mod 4 = 1") (simp_all add: ps_base64url_decode_def split: option.splits)

lemma ps_base64url_encode_result:
  assumes "buf_ok out" and "length (buf_data out) + length (b64_encode d) \<le> 2 ^ 63"
  shows "\<exists>out'. ps_base64url_encode (\<lambda>_. True) d out = Some (True, out') \<and> buf_ok out' \<and>
     buf_data out' = buf_data out @ b64_encode d"
  using ps_buf.append_chunks_ok [OF assms(1), of "b64_chunks d"] assms(2)
  by (simp add: ps_base64url_encode_def b64_encode_def)


subsection \<open>Properties\<close>

text \<open>Encoding and decoding through the buffers of the service round-trips every byte string: the
  encoder succeeds, its output has the unpadded length, and decoding that output gives the bytes back.\<close>

theorem base64url_roundtrip:
  assumes "length d \<le> 2 ^ 60"
  shows "\<exists>e out. ps_base64url_encode (\<lambda>_. True) d ps_buf_init = Some (True, e) \<and>
    length (buf_data e) = (length d * 4 + 2) div 3 \<and>
    ps_base64url_decode (\<lambda>_. True) (buf_data e) ps_buf_init = Some (True, out) \<and> buf_data out = d"
proof -
  have len: "length (b64_encode d) \<le> 2 ^ 63" using assms by (simp add: length_b64_encode)
  from ps_base64url_encode_result [of ps_buf_init d] len obtain e where
    "ps_base64url_encode (\<lambda>_. True) d ps_buf_init = Some (True, e)" "buf_data e = b64_encode d" by auto
  with ps_base64url_decode_result [of ps_buf_init "b64_encode d"] len length_b64_encode [of d]
  show ?thesis by (auto simp: b64_decode_encode)
qed

theorem base64url_roundtrip_witness:
  "\<exists>e out. ps_base64url_encode (\<lambda>_. True) [CHR 0xFF, CHR 0x00] ps_buf_init = Some (True, e) \<and>
    length (buf_data e) = (length [CHR 0xFF, CHR 0x00] * 4 + 2) div 3 \<and>
    ps_base64url_decode (\<lambda>_. True) (buf_data e) ps_buf_init = Some (True, out) \<and> buf_data out = [CHR 0xFF, CHR 0x00]"
  by (rule base64url_roundtrip) simp

text \<open>The decoder is strict: a text it accepts is exactly the canonical encoding of the bytes it
  returns, so two different texts never decode to the same bytes (no token malleability through
  stray bits, padding or alien characters).\<close>

theorem base64url_decode_canonical:
  assumes "length t \<le> 2 ^ 60" and "ps_base64url_decode (\<lambda>_. True) t ps_buf_init = Some (True, out)"
  shows "\<exists>e. ps_base64url_encode (\<lambda>_. True) (buf_data out) ps_buf_init = Some (True, e) \<and> buf_data e = t"
proof -
  have "b64_decode t = Some (buf_data out)"
    using ps_base64url_decode_result [of ps_buf_init t] assms by (auto split: option.splits)
  then have "b64_encode (buf_data out) = t" by (rule b64_encode_decode)
  with ps_base64url_encode_result [of ps_buf_init "buf_data out"] assms(1) show ?thesis by auto
qed

theorem base64url_decode_canonical_witness:
  "\<exists>e. ps_base64url_encode (\<lambda>_. True) (buf_data \<lparr>buf_data = ''Hi'', buf_cap = 256\<rparr>) ps_buf_init = Some (True, e) \<and>
    buf_data e = ''SGk''"
proof (rule base64url_decode_canonical)
  have g: "grow_cap 256 n = Some 256" if "n \<le> 256" for n using that by (rule grow_cap_stop)
  show "ps_base64url_decode (\<lambda>_. True) ''SGk'' ps_buf_init = Some (True, \<lparr>buf_data = ''Hi'', buf_cap = 256\<rparr>)"
    by (simp add: ps_base64url_decode_def ps_buf_append_char_def ps_buf_append_def ensure_capacity_def ps_buf_init_def
        g decode_char_def Let_def u32_def lo8_def char_of_eq_iff)
qed simp

end
