(* ===== verification/Double.thy ===== *)
theory Double
  imports Prelude Complex_Main
begin

text \<open>
  IEEE 754 double precision numbers, as far as the sources use them: \<^verbatim>\<open>double\<close> is the type of a
  JSON number and of the token count of a rate limiter bucket. A finite double is the rational
  number it denotes; \<open>fl\<close> rounds an exact result to the nearest representable number, ties to
  the even mantissa, with gradual underflow. \<open>strtod_exact\<close> is \<^verbatim>\<open>strtod\<close> on a decimal literal and
  \<open>fmt_17g\<close> is \<^verbatim>\<open>printf("%.17g")\<close>. Everything is executable.
\<close>

datatype double = Fin rat | NegZero | Inf bool | NaN

text \<open>The number of digits of a natural number in base \<open>b\<close> (none for 0).\<close>

fun ndig :: "nat \<Rightarrow> nat \<Rightarrow> nat" where
  "ndig b n = (if n = 0 \<or> b \<le> 1 then 0 else Suc (ndig b (n div b)))"

declare ndig.simps [simp del]

text \<open>The largest \<open>k\<close> with \<open>b ^ k \<le> x\<close>, for a positive rational \<open>x\<close>.\<close>

definition flog :: "nat \<Rightarrow> rat \<Rightarrow> int" where
  "flog b x = (if 1 \<le> x then int (ndig b (nat \<lfloor>x\<rfloor>)) - 1 else - int (ndig b (nat (\<lceil>1 / x\<rceil> - 1))))"

definition rat_pow :: "nat \<Rightarrow> int \<Rightarrow> rat" where
  "rat_pow b k = (if 0 \<le> k then of_nat b ^ nat k else 1 / of_nat b ^ nat (- k))"

text \<open>Rounding to the nearest integer, ties to even.\<close>

definition rhe :: "rat \<Rightarrow> int" where
  "rhe x = (let f = \<lfloor>x\<rfloor>; d = x - of_int f in
     if d < 1 / 2 then f else if 1 / 2 < d then f + 1 else if even f then f else f + 1)"

text \<open>
  The double nearest to \<open>x\<close>: a multiple of \<open>2 ^ e\<close>, where \<open>e\<close> leaves 53 bits of mantissa and is at
  least \<open>- 1074\<close>. Overflow is the caller's concern.
\<close>

definition ulp_exp :: "rat \<Rightarrow> int" where
  "ulp_exp a = max (- 1074) (flog 2 a - 52)"

definition fl :: "rat \<Rightarrow> rat" where
  "fl x = (if x = 0 then 0
     else let a = \<bar>x\<bar>; u = rat_pow 2 (ulp_exp a); m = of_int (rhe (a / u)) * u
          in if x < 0 then - m else m)"

definition double_of :: "bool \<Rightarrow> rat \<Rightarrow> double" where
  "double_of neg a = (let r = fl a in
     if 2 ^ 1024 \<le> r then Inf neg
     else if r = 0 then (if neg then NegZero else Fin 0)
     else Fin (if neg then - r else r))"

text \<open>The conversion \<^verbatim>\<open>(double)n\<close> of an integer.\<close>

definition double_of_int :: "int \<Rightarrow> double" where
  "double_of_int n = double_of (n < 0) (of_int \<bar>n\<bar>)"

definition dbl_isfinite :: "double \<Rightarrow> bool" where
  "dbl_isfinite d = (case d of Fin _ \<Rightarrow> True | NegZero \<Rightarrow> True | _ \<Rightarrow> False)"

text \<open>
  \<^verbatim>\<open>strtod\<close> on the literal \<open>[-]ip[.fp][e(+|-)ep]\<close>: the double nearest to its exact value.
\<close>

definition strtod_exact :: "bool \<Rightarrow> bytes \<Rightarrow> bytes \<Rightarrow> bool \<Rightarrow> bytes \<Rightarrow> double" where
  "strtod_exact neg ip fp eneg ep =
     (let m = digits_val (ip @ fp);
          k = (if eneg then - int (digits_val ep) else int (digits_val ep)) - int (length fp)
      in double_of neg (of_nat m * rat_pow 10 k))"

text \<open>
  \<^verbatim>\<open>printf("%.17g")\<close> of a finite double: \<open>D\<close> is the 17-digit decimal mantissa and \<open>X\<close> the decimal
  exponent; the scientific form is used when \<open>X < -4\<close> or \<open>X \<ge> 17\<close>, and trailing zeros of the
  fraction are dropped.
\<close>

definition strip_zeros :: "bytes \<Rightarrow> bytes" where
  "strip_zeros ds = rev (dropWhile (\<lambda>c. c = CHR ''0'') (rev ds))"

definition pad_zeros :: "nat \<Rightarrow> bytes \<Rightarrow> bytes" where
  "pad_zeros w ds = replicate (w - length ds) CHR ''0'' @ ds"

definition dec_frac :: "bytes \<Rightarrow> bytes" where
  "dec_frac ds = (if strip_zeros ds = [] then [] else CHR ''.'' # strip_zeros ds)"

definition dec_mantissa :: "rat \<Rightarrow> nat \<times> int" where
  "dec_mantissa a = (let X = flog 10 a; D = nat (rhe (a * rat_pow 10 (16 - X)))
     in if D = 10 ^ 17 then (10 ^ 16, X + 1) else (D, X))"

definition fmt_abs_17g :: "rat \<Rightarrow> bytes" where
  "fmt_abs_17g a = (case dec_mantissa a of (D, X) \<Rightarrow>
     if X < - 4 \<or> 17 \<le> X then
       show_nat (D div 10 ^ 16) @ dec_frac (pad_zeros 16 (show_nat (D mod 10 ^ 16))) @
       ''e'' @ (if X < 0 then ''-'' else ''+'') @ pad_zeros 2 (show_nat (nat \<bar>X\<bar>))
     else
       let k = nat (16 - X) in
       show_nat (D div 10 ^ k) @ dec_frac (pad_zeros k (show_nat (D mod 10 ^ k))))"

definition fmt_17g :: "double \<Rightarrow> bytes" where
  "fmt_17g d = (case d of
       NegZero \<Rightarrow> ''-0''
     | Fin x \<Rightarrow> if x = 0 then ''0'' else if x < 0 then CHR ''-'' # fmt_abs_17g (- x) else fmt_abs_17g x
     | Inf neg \<Rightarrow> if neg then ''-inf'' else ''inf''
     | NaN \<Rightarrow> ''nan'')"


subsection \<open>Digit counts and exponents\<close>

lemma ndig_0 [simp]: "ndig b 0 = 0"
  by (subst ndig.simps) simp

lemma ndig_bounds:
  assumes "1 < b" and "0 < n"
  shows "0 < ndig b n" and "b ^ (ndig b n - 1) \<le> n" and "n < b ^ ndig b n"
proof -
  have "0 < ndig b n \<and> b ^ (ndig b n - 1) \<le> n \<and> n < b ^ ndig b n"
    using assms
  proof (induction b n rule: ndig.induct)
    case (1 b n)
    then have eq: "ndig b n = Suc (ndig b (n div b))" by (subst ndig.simps) simp
    show ?case
    proof (cases "n div b = 0")
      case True
      with 1 have "n < b" by (simp add: div_eq_0_iff)
      with True eq 1 show ?thesis by simp
    next
      case False
      with 1 have IH: "0 < ndig b (n div b)" "b ^ (ndig b (n div b) - 1) \<le> n div b" "n div b < b ^ ndig b (n div b)"
        by auto
      from IH(1,2) have "b ^ ndig b (n div b) \<le> b * (n div b)"
        by (cases "ndig b (n div b)") auto
      also have "\<dots> \<le> n" by simp
      finally have lo: "b ^ ndig b (n div b) \<le> n" .
      from IH(3) 1 have "n < b ^ ndig b (n div b) * b" by (simp add: div_less_iff_less_mult)
      with lo eq show ?thesis by (simp add: mult.commute)
    qed
  qed
  then show "0 < ndig b n" and "b ^ (ndig b n - 1) \<le> n" and "n < b ^ ndig b n" by auto
qed

lemma ndig_show_nat: "0 < n \<Longrightarrow> ndig 10 n = length (show_nat n)"
proof (induction n rule: show_nat.induct)
  case (1 n)
  then show ?case
    by (subst ndig.simps, subst show_nat.simps) (auto simp: ndig.simps [of 10 0])
qed

lemma rhe_of_int [simp]: "rhe (of_int n) = n"
  by (simp add: rhe_def)

lemma rhe_close: "\<bar>of_int (rhe x) - x\<bar> \<le> 1 / 2"
  unfolding rhe_def Let_def by (auto simp: abs_if split: if_splits) linarith+

lemma rhe_nonneg: "0 \<le> x \<Longrightarrow> 0 \<le> rhe x"
  by (auto simp: rhe_def Let_def)

lemma rat_pow_pos [simp]: "0 < b \<Longrightarrow> 0 < rat_pow b k"
  by (simp add: rat_pow_def)

lemma fl_0 [simp]: "fl 0 = 0"
  by (simp add: fl_def)

lemma fl_pos_eq: "0 < x \<Longrightarrow> fl x = of_int (rhe (x / rat_pow 2 (ulp_exp x))) * rat_pow 2 (ulp_exp x)"
  by (simp add: fl_def Let_def)

lemma fl_nonneg: "0 \<le> x \<Longrightarrow> 0 \<le> fl x"
proof (cases "x = 0")
  case False
  assume "0 \<le> x"
  with False have "0 < x" by simp
  moreover have u: "0 < rat_pow 2 (ulp_exp x)" by simp
  ultimately have "0 \<le> rhe (x / rat_pow 2 (ulp_exp x))" by (intro rhe_nonneg divide_nonneg_pos) simp_all
  with \<open>0 < x\<close> u show ?thesis unfolding fl_pos_eq [OF \<open>0 < x\<close>]
    by (intro mult_nonneg_nonneg less_imp_le [OF u]) simp
qed simp

lemma ndig_le: "1 < b \<Longrightarrow> n < b ^ k \<Longrightarrow> ndig b n \<le> k"
proof (cases "n = 0")
  case False
  assume "1 < b" "n < b ^ k"
  with False have "b ^ (ndig b n - 1) < b ^ k"
    by (intro le_less_trans [OF ndig_bounds(2)]) simp_all
  with \<open>1 < b\<close> have "ndig b n - 1 < k" by (rule power_less_imp_less_exp)
  then show ?thesis by simp
qed simp

lemma ulp_exp_nonpos:
  assumes "0 < x" and "x < 2 ^ 53"
  shows "ulp_exp x \<le> 0"
proof (cases "1 \<le> x")
  case True
  from assms(2) have "\<lfloor>x\<rfloor> < 2 ^ 53" by (simp add: floor_less_iff)
  then have "nat \<lfloor>x\<rfloor> < 2 ^ 53" using True by (simp add: nat_less_iff)
  then have "ndig 2 (nat \<lfloor>x\<rfloor>) \<le> 53" by (intro ndig_le) simp
  with True show ?thesis by (simp add: ulp_exp_def flog_def)
qed (simp add: ulp_exp_def flog_def)

lemma rat_pow_le_1: "k \<le> 0 \<Longrightarrow> rat_pow 2 k \<le> 1"
  by (simp add: rat_pow_def)

lemma fl_close:
  assumes "0 \<le> x" and "x < 2 ^ 53"
  shows "\<bar>fl x - x\<bar> \<le> 1 / 2"
proof (cases "x = 0")
  case False
  with assms(1) have pos: "0 < x" by simp
  define u where "u = rat_pow 2 (ulp_exp x)"
  have u: "0 < u" "u \<le> 1"
    using ulp_exp_nonpos [OF pos assms(2)] by (simp_all add: u_def rat_pow_le_1)
  have "fl x - x = (of_int (rhe (x / u)) - x / u) * u"
    using u unfolding fl_pos_eq [OF pos] u_def [symmetric] by (simp add: algebra_simps)
  then have "\<bar>fl x - x\<bar> = \<bar>of_int (rhe (x / u)) - x / u\<bar> * u" using u by (simp add: abs_mult)
  also have "\<dots> \<le> 1 / 2 * 1" using u rhe_close [of "x / u"] by (intro mult_mono) auto
  finally show ?thesis by simp
qed simp

text \<open>Integers of up to 53 bits are exact.\<close>

lemma fl_of_nat:
  assumes "n \<le> 2 ^ 53"
  shows "fl (of_nat n) = of_nat n"
proof (cases "n = 0 \<or> n = 2 ^ 53")
  case True
  have "ndig 2 (2 ^ 53) = 54" by (simp add: ndig.simps)
  then have "ulp_exp (2 ^ 53) = 1" by (simp add: ulp_exp_def flog_def)
  moreover have "rhe (2 ^ 53 / 2) = 2 ^ 52" using rhe_of_int [of "2 ^ 52"] by simp
  ultimately have "fl (2 ^ 53) = 2 ^ 53" by (simp add: fl_def rat_pow_def)
  with True show ?thesis by auto
next
  case False
  with assms have n: "0 < n" "n < 2 ^ 53" by auto
  define k where "k = nat (- ulp_exp (of_nat n))"
  have "(of_nat n :: rat) < 2 ^ 53" using n by (metis of_nat_less_numeral_power_cancel_iff)
  then have "ulp_exp (of_nat n) \<le> 0" using n by (intro ulp_exp_nonpos) auto
  then have u: "rat_pow 2 (ulp_exp (of_nat n)) = 1 / 2 ^ k"
    by (cases "ulp_exp (of_nat n) = 0") (simp_all add: k_def rat_pow_def)
  have "of_nat n / (1 / 2 ^ k) = (of_int (int n * 2 ^ k) :: rat)" by simp
  then have "rhe (of_nat n / (1 / 2 ^ k)) = int n * 2 ^ k" by (metis rhe_of_int)
  then show ?thesis using n by (simp add: fl_pos_eq u)
qed

lemma fl_of_int: "\<bar>n\<bar> \<le> 2 ^ 53 \<Longrightarrow> fl (of_int n) = of_int n"
proof -
  assume "\<bar>n\<bar> \<le> 2 ^ 53"
  then have "fl (of_nat (nat \<bar>n\<bar>)) = of_nat (nat \<bar>n\<bar>)" by (intro fl_of_nat) simp
  then have "fl (of_int \<bar>n\<bar>) = of_int \<bar>n\<bar>" by simp
  moreover have "fl (- x) = - fl x" for x by (simp add: fl_def Let_def)
  ultimately show ?thesis by (cases "n < 0") (auto simp: abs_if)
qed

lemma double_of_int_exact:
  assumes "\<bar>n\<bar> \<le> 2 ^ 53"
  shows "double_of_int n = Fin (of_int n)"
proof -
  have "(of_int \<bar>n\<bar> :: rat) \<le> of_int (2 ^ 53)" using assms by (simp only: of_int_le_iff)
  also have "\<dots> < 2 ^ 1024" by simp
  finally have "\<not> 2 ^ 1024 \<le> (of_int \<bar>n\<bar> :: rat)" by simp
  moreover have "fl (of_int \<bar>n\<bar>) = of_int \<bar>n\<bar>" using assms by (intro fl_of_int) simp
  ultimately show ?thesis by (auto simp: double_of_int_def double_of_def Let_def abs_if)
qed


subsection \<open>Printing and reading integers\<close>

lemma strip_zeros_replicate: "strip_zeros (replicate m CHR ''0'') = []"
  by (simp add: strip_zeros_def dropWhile_eq_Nil_conv)

lemma pad_zeros_0: "0 < k \<Longrightarrow> pad_zeros k ''0'' = replicate k CHR ''0''"
  by (cases k) (simp_all add: pad_zeros_def replicate_append_same)

lemma fmt_abs_17g_of_nat:
  assumes "0 < n" and "n < 10 ^ 16"
  shows "fmt_abs_17g (of_nat n) = show_nat n"
proof -
  define L where "L = length (show_nat n)"
  define k where "k = 17 - L"
  from assms have L: "0 < L" "L \<le> 16"
    using show_nat_length_le [of n 16] by (simp_all add: L_def)
  then have k: "0 < k" "nat (16 - (int L - 1)) = k" by (simp_all add: k_def)
  have flog: "flog 10 (of_nat n) = int L - 1"
    using assms(1) by (simp add: flog_def ndig_show_nat L_def)
  have pow: "rat_pow 10 (16 - (int L - 1)) = 10 ^ k"
    using L k by (simp add: rat_pow_def)
  have "of_nat n * 10 ^ k = (of_int (int (n * 10 ^ k)) :: rat)" by simp
  then have D: "nat (rhe (of_nat n * 10 ^ k)) = n * 10 ^ k" by (metis nat_int rhe_of_int)
  have "n < 10 ^ L" using ndig_bounds(3) [of 10 n] assms(1) by (simp add: ndig_show_nat L_def)
  then have "n * 10 ^ k < 10 ^ L * 10 ^ k" by simp
  then have ne: "n * 10 ^ k \<noteq> 10 ^ 17" using L by (simp add: k_def flip: power_add)
  have mant: "dec_mantissa (of_nat n) = (n * 10 ^ k, int L - 1)"
    unfolding dec_mantissa_def Let_def flog pow D using ne by simp
  then show ?thesis
    unfolding fmt_abs_17g_def using L k
    by (simp add: show_nat_0 pad_zeros_0 dec_frac_def strip_zeros_replicate)
qed

lemma fmt_17g_of_int:
  assumes "\<bar>n\<bar> < 10 ^ 16"
  shows "fmt_17g (Fin (of_int n)) = show_int n"
proof -
  have abs: "fmt_abs_17g (of_int m) = show_nat (nat m)" if "0 < m" "m < 10 ^ 16" for m
    using fmt_abs_17g_of_nat [of "nat m"] that by (simp add: nat_less_iff)
  consider "n = 0" | "0 < n" | "n < 0" by linarith
  then show ?thesis
  proof cases
    case 3
    then show ?thesis using abs [of "- n"] assms by (simp add: fmt_17g_def show_int_def)
  qed (use abs [of n] assms in \<open>simp_all add: fmt_17g_def show_int_def show_nat_0\<close>)
qed

lemma strtod_exact_int: "strtod_exact neg (show_nat n) [] e [] = double_of neg (of_nat n)"
  by (simp add: strtod_exact_def rat_pow_def)

lemma double_of_int_eq_double_of: "double_of (n < 0) (of_nat (nat \<bar>n\<bar>)) = double_of_int n"
  by (simp add: double_of_int_def)

end
