(* ===== verification/Json.thy ===== *)
theory Json
  imports Prelude Double
begin

text \<open>
  JSON values, their constructors and accessors, and the recursive-descent parser
  (\<^verbatim>\<open>src/src/json/json_parse.c\<close>, \<^verbatim>\<open>json_parse.h\<close>). A value pointer is a \<open>json option\<close>, \<open>None\<close>
  being \<^verbatim>\<open>NULL\<close>; a string is its bytes (NUL included, since the length is kept), an object key
  is a C string. The parser state (\<^verbatim>\<open>data\<close>, \<^verbatim>\<open>pos\<close>) is the input still to be read; an error is
  the message and the input left where it was raised, from which \<open>ps_json_parse\<close> computes the
  offset in the message. Memory is assumed to be available here: \<open>Json_Heap\<close> models
  the blocks the values are made of and the allocations that fail.
\<close>

unbundle bit_operations_syntax

datatype json =
    JNull
  | JBool bool
  | JNumber double
  | JString bytes
  | JArray "json list"
  | JObject "(bytes \<times> json) list"

abbreviation DQ :: byte where "DQ \<equiv> CHR 0x22"
abbreviation BSL :: byte where "BSL \<equiv> CHR 0x5C"

definition PS_JSON_MAX_DEPTH :: nat where
  "PS_JSON_MAX_DEPTH = 32"


subsection \<open>Construction and inspection\<close>

fun ps_json_array_append :: "json \<Rightarrow> json \<Rightarrow> json" where
  "ps_json_array_append (JArray xs) v = JArray (xs @ [v])"
| "ps_json_array_append w v = w"

fun members_set :: "(bytes \<times> json) list \<Rightarrow> bytes \<Rightarrow> json \<Rightarrow> (bytes \<times> json) list" where
  "members_set [] key v = [(key, v)]"
| "members_set ((k, w) # ms) key v = (if k = key then (k, v) # ms else (k, w) # members_set ms key v)"

lemma members_set_fresh: "k \<notin> fst ` set ms \<Longrightarrow> members_set ms k v = ms @ [(k, v)]"
  by (induction ms) auto

lemma members_set_at:
  "i < length ms \<Longrightarrow> fst (ms ! i) = k \<Longrightarrow> k \<notin> fst ` set (take i ms) \<Longrightarrow> members_set ms k v = ms[i := (k, v)]"
proof (induction ms arbitrary: i)
  case (Cons m ms)
  then show ?case by (cases m; cases i) auto
qed simp

text \<open>The key argument is a C string: it is read up to its first NUL.\<close>

fun ps_json_object_set :: "json \<Rightarrow> bytes \<Rightarrow> json \<Rightarrow> json" where
  "ps_json_object_set (JObject ms) key v = JObject (members_set ms (cstr key) v)"
| "ps_json_object_set w key v = w"

datatype ps_json_type_t = PS_JSON_NULL | PS_JSON_BOOL | PS_JSON_NUMBER | PS_JSON_STRING | PS_JSON_ARRAY | PS_JSON_OBJECT

fun ps_json_type :: "json option \<Rightarrow> ps_json_type_t" where
  "ps_json_type (Some (JBool _)) = PS_JSON_BOOL"
| "ps_json_type (Some (JNumber _)) = PS_JSON_NUMBER"
| "ps_json_type (Some (JString _)) = PS_JSON_STRING"
| "ps_json_type (Some (JArray _)) = PS_JSON_ARRAY"
| "ps_json_type (Some (JObject _)) = PS_JSON_OBJECT"
| "ps_json_type _ = PS_JSON_NULL"

fun ps_json_get_bool :: "json option \<Rightarrow> bool" where
  "ps_json_get_bool (Some (JBool b)) = b"
| "ps_json_get_bool _ = False"

fun ps_json_get_number :: "json option \<Rightarrow> double" where
  "ps_json_get_number (Some (JNumber n)) = n"
| "ps_json_get_number _ = Fin 0"

fun ps_json_get_string :: "json option \<Rightarrow> bytes option" where
  "ps_json_get_string (Some (JString s)) = Some s"
| "ps_json_get_string _ = None"

fun ps_json_get_string_len :: "json option \<Rightarrow> nat" where
  "ps_json_get_string_len (Some (JString s)) = length s"
| "ps_json_get_string_len _ = 0"

fun ps_json_array_count :: "json option \<Rightarrow> nat" where
  "ps_json_array_count (Some (JArray xs)) = length xs"
| "ps_json_array_count _ = 0"

fun ps_json_array_get :: "json option \<Rightarrow> nat \<Rightarrow> json option" where
  "ps_json_array_get (Some (JArray xs)) i = (if i < length xs then Some (xs ! i) else None)"
| "ps_json_array_get _ i = None"

fun ps_json_object_count :: "json option \<Rightarrow> nat" where
  "ps_json_object_count (Some (JObject ms)) = length ms"
| "ps_json_object_count _ = 0"

fun ps_json_object_get :: "json option \<Rightarrow> bytes \<Rightarrow> json option" where
  "ps_json_object_get (Some (JObject ms)) key = map_of ms (cstr key)"
| "ps_json_object_get _ key = None"

fun ps_json_object_key_at :: "json option \<Rightarrow> nat \<Rightarrow> bytes option" where
  "ps_json_object_key_at (Some (JObject ms)) i = (if i < length ms then Some (fst (ms ! i)) else None)"
| "ps_json_object_key_at _ i = None"

fun ps_json_object_value_at :: "json option \<Rightarrow> nat \<Rightarrow> json option" where
  "ps_json_object_value_at (Some (JObject ms)) i = (if i < length ms then Some (snd (ms ! i)) else None)"
| "ps_json_object_value_at _ i = None"


subsection \<open>The parser: strings and numbers\<close>

type_synonym perr = "bytes \<times> bytes"

definition is_ws :: "byte \<Rightarrow> bool" where
  "is_ws c \<longleftrightarrow> c = CHR '' '' \<or> c = CHR 0x09 \<or> c = CHR 0x0A \<or> c = CHR 0x0D"

definition skip_ws :: "bytes \<Rightarrow> bytes" where
  "skip_ws p = dropWhile is_ws p"

definition peek :: "bytes \<Rightarrow> byte option" where
  "peek p = (case p of [] \<Rightarrow> None | c # _ \<Rightarrow> Some c)"

definition expect_literal :: "bytes \<Rightarrow> bytes \<Rightarrow> bytes option" where
  "expect_literal p lit = (if take (length lit) p = lit then Some (drop (length lit) p) else None)"

definition peek_digit :: "bytes \<Rightarrow> bool" where
  "peek_digit p = (case p of [] \<Rightarrow> False | c # _ \<Rightarrow> c_isdigit c)"

definition scan_digits :: "bytes \<Rightarrow> bytes \<times> bytes" where
  "scan_digits p = (takeWhile c_isdigit p, dropWhile c_isdigit p)"

definition scan_int :: "bytes \<Rightarrow> perr + (bytes \<times> bytes)" where
  "scan_int p =
     (if peek p = Some CHR ''0'' then Inr (''0'', tl p)
      else if peek_digit p then Inr (scan_digits p)
      else Inl (''invalid number'', p))"

definition scan_frac :: "bytes \<Rightarrow> perr + (bytes \<times> bytes)" where
  "scan_frac p =
     (if peek p = Some CHR ''.'' then
        if \<not> peek_digit (tl p) then Inl (''invalid number (fraction)'', tl p)
        else Inr (scan_digits (tl p))
      else Inr ([], p))"

text \<open>The exponent: its sign, its digits, and the input behind it.\<close>

definition scan_exp :: "bytes \<Rightarrow> perr + (bool \<times> bytes \<times> bytes)" where
  "scan_exp p =
     (if peek p = Some CHR ''e'' \<or> peek p = Some CHR ''E'' then
        let p1 = tl p;
            sgn = peek p1 = Some CHR ''+'' \<or> peek p1 = Some CHR ''-'';
            p2 = (if sgn then tl p1 else p1)
        in if \<not> peek_digit p2 then Inl (''invalid number (exponent)'', p2)
           else Inr (peek p1 = Some CHR ''-'', scan_digits p2)
      else Inr (False, [], p))"

definition parse_number :: "bytes \<Rightarrow> perr + (json \<times> bytes)" where
  "parse_number p =
     (let neg = peek p = Some CHR ''-''; p0 = (if neg then tl p else p)
      in case scan_int p0 of
           Inl e \<Rightarrow> Inl e
         | Inr (ip, p1) \<Rightarrow>
             (case scan_frac p1 of
                Inl e \<Rightarrow> Inl e
              | Inr (fp, p2) \<Rightarrow>
                  (case scan_exp p2 of
                     Inl e \<Rightarrow> Inl e
                   | Inr (eneg, ep, p3) \<Rightarrow>
                       if 64 \<le> length p - length p3 then Inl (''number literal too long'', p3)
                       else Inr (JNumber (strtod_exact neg ip fp eneg ep), p3))))"

definition hex_digit :: "byte \<Rightarrow> nat option" where
  "hex_digit c =
     (if 48 \<le> byte_val c \<and> byte_val c \<le> 57 then Some (byte_val c - 48)
      else if 97 \<le> byte_val c \<and> byte_val c \<le> 102 then Some (byte_val c - 97 + 10)
      else if 65 \<le> byte_val c \<and> byte_val c \<le> 70 then Some (byte_val c - 65 + 10)
      else None)"

fun parse_hex4 :: "bytes \<Rightarrow> (nat \<times> bytes) option" where
  "parse_hex4 (a # b # c # d # rest) =
     (case (hex_digit a, hex_digit b, hex_digit c, hex_digit d) of
        (Some w, Some x, Some y, Some z) \<Rightarrow>
          Some (push_bit 4 (push_bit 4 (push_bit 4 w OR x) OR y) OR z, rest)
      | _ \<Rightarrow> None)"
| "parse_hex4 _ = None"

definition append_utf8 :: "nat \<Rightarrow> bytes" where
  "append_utf8 cp =
     (if cp \<le> 0x7F then [char_of cp]
      else if cp \<le> 0x7FF then [char_of (0xC0 OR drop_bit 6 cp), char_of (0x80 OR (cp AND 0x3F))]
      else if cp \<le> 0xFFFF then
        [char_of (0xE0 OR drop_bit 12 cp), char_of (0x80 OR (drop_bit 6 cp AND 0x3F)),
         char_of (0x80 OR (cp AND 0x3F))]
      else
        [char_of (0xF0 OR drop_bit 18 cp), char_of (0x80 OR (drop_bit 12 cp AND 0x3F)),
         char_of (0x80 OR (drop_bit 6 cp AND 0x3F)), char_of (0x80 OR (cp AND 0x3F))])"

text \<open>The single-character escapes.\<close>

definition simple_escape :: "byte \<Rightarrow> byte option" where
  "simple_escape esc =
     (if esc = DQ \<or> esc = BSL \<or> esc = CHR ''/'' then Some esc
      else if esc = CHR ''b'' then Some CHR 0x08
      else if esc = CHR ''f'' then Some CHR 0x0C
      else if esc = CHR ''n'' then Some CHR 0x0A
      else if esc = CHR ''r'' then Some CHR 0x0D
      else if esc = CHR ''t'' then Some CHR 0x09
      else None)"

text \<open>The \<^verbatim>\<open>\u\<close> escape, after its \<^verbatim>\<open>u\<close>: the code point and the input behind it.\<close>

definition unicode_escape :: "bytes \<Rightarrow> perr + (nat \<times> bytes)" where
  "unicode_escape p =
     (case parse_hex4 p of
        None \<Rightarrow> Inl (''invalid '' @ BSL # ''u escape'', p)
      | Some (cp, p1) \<Rightarrow>
          if 0xD800 \<le> cp \<and> cp \<le> 0xDBFF then
            if take 2 p1 \<noteq> [BSL, CHR ''u''] then Inl (''unpaired surrogate'', p1)
            else
              (let p2 = drop 2 p1 in
               case parse_hex4 p2 of
                 None \<Rightarrow> Inl (''invalid low surrogate'', p2)
               | Some (low, p3) \<Rightarrow>
                   if low < 0xDC00 \<or> 0xDFFF < low then Inl (''invalid low surrogate'', p3)
                   else Inr (0x10000 + push_bit 10 (cp - 0xD800) + (low - 0xDC00), p3))
          else if 0xDC00 \<le> cp \<and> cp \<le> 0xDFFF then Inl (''unpaired low surrogate'', p1)
          else Inr (cp, p1))"

lemma parse_hex4_length: "parse_hex4 p = Some (n, r) \<Longrightarrow> length p = length r + 4"
  by (induction p rule: parse_hex4.induct) (auto split: option.splits)

lemma unicode_escape_length: "unicode_escape p = Inr (n, r) \<Longrightarrow> length r < length p"
  by (auto simp: unicode_escape_def Let_def split: option.splits prod.splits if_splits
      dest!: parse_hex4_length)

text \<open>The body of a string, behind its opening quote.\<close>

function parse_chars :: "bytes \<Rightarrow> bytes \<Rightarrow> perr + (bytes \<times> bytes)" where
  "parse_chars out p =
     (case p of
        [] \<Rightarrow> Inl (''unterminated string'', [])
      | c # r \<Rightarrow>
          if c = DQ then Inr (out, r)
          else if byte_val c < 0x20 then Inl (''control character in string'', p)
          else if c \<noteq> BSL then parse_chars (out @ [c]) r
          else
            (case r of
               [] \<Rightarrow> Inl (''unterminated escape'', [])
             | esc # r1 \<Rightarrow>
                 if esc = CHR ''u'' then
                   (case unicode_escape r1 of
                      Inl e \<Rightarrow> Inl e
                    | Inr (cp, r2) \<Rightarrow> parse_chars (out @ append_utf8 cp) r2)
                 else
                   (case simple_escape esc of
                      None \<Rightarrow> Inl (''invalid escape character'', r1)
                    | Some b \<Rightarrow> parse_chars (out @ [b]) r1)))"
  by pat_completeness auto
termination
  by (relation "measure (\<lambda>(_, p). length p)") (auto dest!: unicode_escape_length)

declare parse_chars.simps [simp del]

definition parse_string :: "bytes \<Rightarrow> perr + (bytes \<times> bytes)" where
  "parse_string p = parse_chars [] p"

lemma skip_ws_length: "length (skip_ws p) \<le> length p"
  by (simp add: skip_ws_def length_dropWhile_le)

lemma scan_digits_length: "scan_digits p = (ds, r) \<Longrightarrow> length r \<le> length p"
  by (auto simp: scan_digits_def length_dropWhile_le)

lemma scan_int_length: "scan_int p = Inr (ds, r) \<Longrightarrow> length r < length p"
proof -
  assume a: "scan_int p = Inr (ds, r)"
  have "length (dropWhile c_isdigit cs) < Suc (length cs)" for cs
    by (simp add: length_dropWhile_le less_Suc_eq_le)
  with a show ?thesis
    by (cases p) (auto simp: scan_int_def peek_def peek_digit_def scan_digits_def split: if_splits)
qed

lemma scan_frac_length: "scan_frac p = Inr (ds, r) \<Longrightarrow> length r \<le> length p"
  by (cases p) (auto simp: scan_frac_def peek_def scan_digits_def length_dropWhile_le le_SucI split: if_splits)

lemma scan_exp_length: "scan_exp p = Inr (n, ds, r) \<Longrightarrow> length r \<le> length p"
  by (auto simp: scan_exp_def Let_def scan_digits_def split: if_splits
      intro!: order_trans [OF length_dropWhile_le])

lemma parse_number_length: "parse_number p = Inr (v, r) \<Longrightarrow> length r < length p"
proof -
  assume *: "parse_number p = Inr (v, r)"
  define p0 where "p0 = (if peek p = Some CHR ''-'' then tl p else p)"
  have "length p0 \<le> length p" by (simp add: p0_def)
  moreover from * obtain ip p1 fp p2 en ep where "scan_int p0 = Inr (ip, p1)"
    "scan_frac p1 = Inr (fp, p2)" "scan_exp p2 = Inr (en, ep, r)"
    unfolding parse_number_def Let_def p0_def [symmetric] by (auto split: sum.splits if_splits)
  ultimately show ?thesis
    using scan_int_length [of p0 ip p1] scan_frac_length [of p1 fp p2] scan_exp_length [of p2 en ep r] by linarith
qed

lemma parse_chars_length: "parse_chars out p = Inr (s, r) \<Longrightarrow> length r < length p"
proof (induction "length p" arbitrary: out p rule: less_induct)
  case less
  have IH: "parse_chars o' q = Inr (s, r) \<Longrightarrow> length q < length p \<Longrightarrow> length r < length p" for o' q
    using less.hyps [of q o'] by simp
  from less.prems show ?case
  proof (subst (asm) parse_chars.simps, cases p)
    case (Cons c q)
    from less.prems show ?thesis
      using IH [of "out @ [c]" q] IH [of _ "tl q"] IH unfolding Cons
      by (subst (asm) parse_chars.simps)
        (fastforce split: list.splits if_splits sum.splits option.splits dest!: unicode_escape_length)
  qed simp
qed

lemma parse_string_length: "parse_string p = Inr (s, r) \<Longrightarrow> length r < length p"
  by (simp add: parse_string_def parse_chars_length)


subsection \<open>The parser: values\<close>

definition err_expected :: "bytes \<Rightarrow> bytes" where
  "err_expected what = ''expected '' @ what"

definition quoted :: "byte \<Rightarrow> bytes" where
  "quoted c = [CHR 0x27, c, CHR 0x27]"

text \<open>What follows an element: a comma (\<open>True\<close>, one more element) or the closing bracket (\<open>False\<close>).\<close>

definition parse_sep :: "byte \<Rightarrow> bytes \<Rightarrow> perr + (bool \<times> bytes)" where
  "parse_sep close p =
     (case skip_ws p of
        [] \<Rightarrow> Inl (err_expected (quoted CHR '','' @ '' or '' @ quoted close), [])
      | c # q \<Rightarrow>
          if c = CHR '','' then Inr (True, q)
          else if c = close then Inr (False, q)
          else Inl (err_expected (quoted CHR '','' @ '' or '' @ quoted close), c # q))"

text \<open>The key of a member, its colon included.\<close>

definition parse_key :: "bytes \<Rightarrow> perr + (bytes \<times> bytes)" where
  "parse_key p =
     (case skip_ws p of
        [] \<Rightarrow> Inl (err_expected ''string key'', [])
      | c # q \<Rightarrow>
          if c \<noteq> DQ then Inl (err_expected ''string key'', c # q)
          else
            (case parse_string q of
               Inl e \<Rightarrow> Inl e
             | Inr (key, p1) \<Rightarrow>
                 (case skip_ws p1 of
                    [] \<Rightarrow> Inl (err_expected (quoted CHR '':''), [])
                  | c1 # q1 \<Rightarrow>
                      if c1 \<noteq> CHR '':'' then Inl (err_expected (quoted CHR '':''), c1 # q1)
                      else Inr (key, skip_ws q1))))"

definition parse_literal :: "bytes \<Rightarrow> bytes \<Rightarrow> json \<Rightarrow> perr + (json \<times> bytes)" where
  "parse_literal p lit v =
     (case expect_literal p lit of None \<Rightarrow> Inl (''invalid literal'', p) | Some r \<Rightarrow> Inr (v, r))"

text \<open>The values other than arrays and objects; \<open>c\<close> is the first byte and \<open>q\<close> what follows it.\<close>

definition parse_scalar :: "byte \<Rightarrow> bytes \<Rightarrow> perr + (json \<times> bytes)" where
  "parse_scalar c q =
     (if c = DQ then (case parse_string q of Inl e \<Rightarrow> Inl e | Inr (s, r) \<Rightarrow> Inr (JString s, r))
      else if c = CHR ''t'' then parse_literal (c # q) ''true'' (JBool True)
      else if c = CHR ''f'' then parse_literal (c # q) ''false'' (JBool False)
      else if c = CHR ''n'' then parse_literal (c # q) ''null'' JNull
      else if c = CHR ''-'' then parse_number (c # q)
      else if 48 \<le> byte_val c \<and> byte_val c \<le> 57 then parse_number (c # q)
      else Inl (''unexpected character'', c # q))"

lemma parse_sep_length: "parse_sep close p = Inr (b, r) \<Longrightarrow> length r < length p"
  using skip_ws_length [of p] by (auto simp: parse_sep_def split: list.splits if_splits)

lemma parse_key_length: "parse_key p = Inr (k, r) \<Longrightarrow> length r < length p"
proof -
  assume *: "parse_key p = Inr (k, r)"
  then obtain q p1 q1 where "skip_ws p = DQ # q" "parse_string q = Inr (k, p1)"
    "skip_ws p1 = CHR '':'' # q1" "r = skip_ws q1"
    by (auto simp: parse_key_def split: list.splits if_splits sum.splits)
  then show ?thesis
    using skip_ws_length [of p] parse_string_length [of q k p1] skip_ws_length [of p1] skip_ws_length [of q1] by simp
qed

lemma parse_scalar_length: "parse_scalar c q = Inr (v, r) \<Longrightarrow> length r < length (c # q)"
  by (auto simp: parse_scalar_def parse_literal_def expect_literal_def split: if_splits sum.splits option.splits
      dest!: parse_string_length parse_number_length)

text \<open>
  \<open>parse_items\<close> and \<open>parse_members\<close> are the loops of \<^verbatim>\<open>parse_array\<close> and \<^verbatim>\<open>parse_object\<close>, with the
  elements read so far.
\<close>

function parse_value :: "bytes \<Rightarrow> nat \<Rightarrow> perr + (json \<times> bytes)"
  and parse_array :: "bytes \<Rightarrow> nat \<Rightarrow> perr + (json \<times> bytes)"
  and parse_items :: "json \<Rightarrow> bytes \<Rightarrow> nat \<Rightarrow> perr + (json \<times> bytes)"
  and parse_object :: "bytes \<Rightarrow> nat \<Rightarrow> perr + (json \<times> bytes)"
  and parse_members :: "json \<Rightarrow> bytes \<Rightarrow> nat \<Rightarrow> perr + (json \<times> bytes)" where
  "parse_value p depth =
     (if PS_JSON_MAX_DEPTH < depth then Inl (''maximum nesting depth exceeded'', p)
      else case skip_ws p of
        [] \<Rightarrow> Inl (''unexpected end of input'', [])
      | c # q \<Rightarrow>
          if c = CHR ''{'' then parse_object q depth
          else if c = CHR ''['' then parse_array q depth
          else parse_scalar c q)"
| "parse_array p depth =
     (if peek (skip_ws p) = Some CHR '']'' then Inr (JArray [], tl (skip_ws p))
      else parse_items (JArray []) (skip_ws p) depth)"
| "parse_items arr p depth =
     (case parse_value (skip_ws p) (depth + 1) of
        Inl e \<Rightarrow> Inl e
      | Inr (item, p1) \<Rightarrow>
          (case parse_sep CHR '']'' p1 of
             Inl e \<Rightarrow> Inl e
           | Inr (more, q) \<Rightarrow>
               if more then parse_items (ps_json_array_append arr item) q depth
               else Inr (ps_json_array_append arr item, q)))"
| "parse_object p depth =
     (if peek (skip_ws p) = Some CHR ''}'' then Inr (JObject [], tl (skip_ws p))
      else parse_members (JObject []) (skip_ws p) depth)"
| "parse_members obj p depth =
     (case parse_key p of
        Inl e \<Rightarrow> Inl e
      | Inr (key, p1) \<Rightarrow>
          (case parse_value p1 (depth + 1) of
             Inl e \<Rightarrow> Inl e
           | Inr (val, p2) \<Rightarrow>
               (case parse_sep CHR ''}'' p2 of
                  Inl e \<Rightarrow> Inl e
                | Inr (more, q) \<Rightarrow>
                    if more then parse_members (ps_json_object_set obj key val) q depth
                    else Inr (ps_json_object_set obj key val, q))))"
  by pat_completeness auto


lemma parse_shortens:
  "parse_value_parse_array_parse_items_parse_object_parse_members_dom (Inl (Inl (p, d))) \<Longrightarrow>
     parse_value p d = Inr (v, r) \<Longrightarrow> length r < length p"
  "parse_value_parse_array_parse_items_parse_object_parse_members_dom (Inl (Inr (p, d))) \<Longrightarrow>
     parse_array p d = Inr (v, r) \<Longrightarrow> length r < length p"
  "parse_value_parse_array_parse_items_parse_object_parse_members_dom (Inr (Inl (a, p, d))) \<Longrightarrow>
     parse_items a p d = Inr (v, r) \<Longrightarrow> length r < length p"
  "parse_value_parse_array_parse_items_parse_object_parse_members_dom (Inr (Inr (Inl (p, d)))) \<Longrightarrow>
     parse_object p d = Inr (v, r) \<Longrightarrow> length r < length p"
  "parse_value_parse_array_parse_items_parse_object_parse_members_dom (Inr (Inr (Inr (a, p, d)))) \<Longrightarrow>
     parse_members a p d = Inr (v, r) \<Longrightarrow> length r < length p"
proof (induction p d and p d and a p d and p d and a p d arbitrary: v r and v r and v r and v r and v r
    rule: parse_value_parse_array_parse_items_parse_object_parse_members.pinduct)
  case (1 p depth)
  from 1(4) show ?case
    using skip_ws_length [of p] 1(2) 1(3)
    by (fastforce simp: parse_value.psimps [OF 1(1)] split: if_splits list.splits dest!: parse_scalar_length)
next
  case (2 p depth)
  then show ?case
    using skip_ws_length [of p]
    by (cases "skip_ws p") (auto simp: parse_array.psimps [OF 2(1)] peek_def split: if_splits dest!: 2(2))
next
  case (3 arr p depth)
  from 3(4) obtain item p1 more q where pv: "parse_value (skip_ws p) (depth + 1) = Inr (item, p1)"
    and sep: "parse_sep CHR '']'' p1 = Inr (more, q)"
    and rest: "if more then parse_items (ps_json_array_append arr item) q depth = Inr (v, r) else q = r"
    by (auto simp: parse_items.psimps [OF 3(1)] split: if_splits sum.splits)
  have "length q < length p"
    using 3(2) [OF pv] parse_sep_length [OF sep] skip_ws_length [of p] by simp
  then show ?case
    using rest 3(3) [OF pv refl sep refl] by (cases more) auto
next
  case (4 p depth)
  then show ?case
    using skip_ws_length [of p]
    by (cases "skip_ws p") (auto simp: parse_object.psimps [OF 4(1)] peek_def split: if_splits dest!: 4(2))
next
  case (5 obj p depth)
  from 5(4) obtain key p1 val p2 more q where pk: "parse_key p = Inr (key, p1)"
    and pv: "parse_value p1 (depth + 1) = Inr (val, p2)" and sep: "parse_sep CHR ''}'' p2 = Inr (more, q)"
    and rest: "if more then parse_members (ps_json_object_set obj key val) q depth = Inr (v, r) else q = r"
    by (auto simp: parse_members.psimps [OF 5(1)] split: if_splits sum.splits)
  have "length q < length p"
    using 5(2) [OF pk refl pv] parse_sep_length [OF sep] parse_key_length [OF pk] by simp
  then show ?case
    using rest 5(3) [OF pk refl pv refl sep refl] by (cases more) auto
qed

lemma parse_dom: "All parse_value_parse_array_parse_items_parse_object_parse_members_dom"
proof (relation "measure (\<lambda>x. case x of
      Inl (Inl (p, d)) \<Rightarrow> 3 * length p
    | Inl (Inr (p, d)) \<Rightarrow> 3 * length p + 2
    | Inr (Inl (a, p, d)) \<Rightarrow> 3 * length p + 1
    | Inr (Inr (Inl (p, d))) \<Rightarrow> 3 * length p + 2
    | Inr (Inr (Inr (a, p, d))) \<Rightarrow> 3 * length p + 1)", goal_cases)
  case 1
  show ?case by simp
next
  case (2 p depth)
  then show ?case using skip_ws_length [of p] by auto
next
  case (3 p depth)
  then show ?case using skip_ws_length [of p] by auto
next
  case (4 p depth)
  then show ?case using skip_ws_length [of p] by auto
next
  case (5 arr p depth)
  then show ?case using skip_ws_length [of p] by auto
next
  case (6 arr p depth)
  then show ?case using skip_ws_length [of p] by (auto dest!: parse_shortens parse_sep_length)
next
  case (7 p depth)
  then show ?case using skip_ws_length [of p] by auto
next
  case (8 obj p depth)
  then show ?case by (auto dest!: parse_key_length)
next
  case (9 obj p depth)
  then show ?case by (auto dest!: parse_shortens parse_sep_length parse_key_length)
qed

termination parse_value
  by (rule parse_dom)

lemmas parse_length = parse_shortens [OF parse_dom [rule_format]]

declare parse_value.simps [simp del] parse_array.simps [simp del] parse_items.simps [simp del]
  parse_object.simps [simp del] parse_members.simps [simp del]

text \<open>
  The entry point. The error text is the message and the offset where the parser stopped, as
  \<^verbatim>\<open>fail\<close> formats it (cut to the caller's buffer of \<open>errlen\<close> bytes).
\<close>

definition fail_text :: "nat \<Rightarrow> nat \<Rightarrow> perr \<Rightarrow> bytes" where
  "fail_text errlen len e = take (errlen - 1) (fst e @ '' at offset '' @ show_nat (len - length (snd e)))"

definition ps_json_parse :: "bytes \<Rightarrow> nat \<Rightarrow> bytes + json" where
  "ps_json_parse data errlen =
     (if errlen = 0 then Inl []
      else case parse_value data 1 of
        Inl e \<Rightarrow> Inl (fail_text errlen (length data) e)
      | Inr (v, p) \<Rightarrow>
          if skip_ws p \<noteq> [] then
            Inl (fail_text errlen (length data) (''trailing data after JSON value'', skip_ws p))
          else Inr v)"

end
