(* ===== verification/Json_Write.thy ===== *)
theory Json_Write
  imports Json
begin

text \<open>
  The JSON serializer (\<^verbatim>\<open>src/src/json/json_write.c\<close>) and the round trip through the parser. The
  serializer returns the bytes it appends to its buffer, or \<open>None\<close> when it refuses a value
  nested too deeply. \<open>json_ok\<close> describes the values that survive the round trip unchanged: those
  within the nesting limit, whose objects have distinct keys without NUL (every object built by
  \<open>ps_json_object_set\<close> has) and whose numbers are integers of up to 53 bits.
\<close>

definition hex_char :: "nat \<Rightarrow> byte" where
  "hex_char n = (if n < 10 then char_of (48 + n) else char_of (87 + n))"

definition escape_char :: "byte \<Rightarrow> bytes" where
  "escape_char c =
     (if c = DQ then [BSL, DQ]
      else if c = BSL then [BSL, BSL]
      else if c = CHR 0x08 then [BSL, CHR ''b'']
      else if c = CHR 0x0C then [BSL, CHR ''f'']
      else if c = CHR 0x0A then [BSL, CHR ''n'']
      else if c = CHR 0x0D then [BSL, CHR ''r'']
      else if c = CHR 0x09 then [BSL, CHR ''t'']
      else if byte_val c < 0x20 then
        [BSL, CHR ''u'', CHR ''0'', CHR ''0'', hex_char (byte_val c div 16), hex_char (byte_val c mod 16)]
      else [c])"

definition write_string :: "bytes \<Rightarrow> bytes" where
  "write_string s = [DQ] @ concat (map escape_char s) @ [DQ]"

definition write_number :: "double \<Rightarrow> bytes option" where
  "write_number n =
     (if \<not> dbl_isfinite n then Some ''null''
      else let s = fmt_17g n in if 32 \<le> length s then None else Some s)"

fun write_value :: "json \<Rightarrow> nat \<Rightarrow> bytes option"
  and write_items :: "bool \<Rightarrow> json list \<Rightarrow> nat \<Rightarrow> bytes option"
  and write_members :: "bool \<Rightarrow> (bytes \<times> json) list \<Rightarrow> nat \<Rightarrow> bytes option" where
  "write_value v depth =
     (if PS_JSON_MAX_DEPTH < depth then None
      else case v of
        JNull \<Rightarrow> Some ''null''
      | JBool b \<Rightarrow> Some (if b then ''true'' else ''false'')
      | JNumber n \<Rightarrow> write_number n
      | JString s \<Rightarrow> Some (write_string s)
      | JArray xs \<Rightarrow> map_option (\<lambda>s. ''['' @ s @ '']'') (write_items True xs depth)
      | JObject ms \<Rightarrow> map_option (\<lambda>s. ''{'' @ s @ ''}'') (write_members True ms depth))"
| "write_items first [] depth = Some []"
| "write_items first (x # xs) depth =
     (case write_value x (depth + 1) of
        None \<Rightarrow> None
      | Some s \<Rightarrow> map_option (\<lambda>t. (if first then [] else '','') @ s @ t) (write_items False xs depth))"
| "write_members first [] depth = Some []"
| "write_members first ((k, x) # ms) depth =
     (case write_value x (depth + 1) of
        None \<Rightarrow> None
      | Some s \<Rightarrow> map_option (\<lambda>t. (if first then [] else '','') @ write_string (cstr k) @ '':'' @ s @ t)
                    (write_members False ms depth))"

declare write_value.simps [simp del]

definition ps_json_write :: "json \<Rightarrow> bytes option" where
  "ps_json_write v = write_value v 1"

definition is_small_int :: "double \<Rightarrow> bool" where
  "is_small_int n = (case n of Fin x \<Rightarrow> of_int \<lfloor>x\<rfloor> = x \<and> \<bar>x\<bar> \<le> 2 ^ 53 | _ \<Rightarrow> False)"

fun json_ok :: "nat \<Rightarrow> json \<Rightarrow> bool" where
  "json_ok d JNull = (d \<le> PS_JSON_MAX_DEPTH)"
| "json_ok d (JBool _) = (d \<le> PS_JSON_MAX_DEPTH)"
| "json_ok d (JNumber n) = (d \<le> PS_JSON_MAX_DEPTH \<and> is_small_int n)"
| "json_ok d (JString _) = (d \<le> PS_JSON_MAX_DEPTH)"
| "json_ok d (JArray xs) = (d \<le> PS_JSON_MAX_DEPTH \<and> (\<forall>x \<in> set xs. json_ok (d + 1) x))"
| "json_ok d (JObject ms) = (d \<le> PS_JSON_MAX_DEPTH \<and> distinct (map fst ms) \<and>
     (\<forall>(k, x) \<in> set ms. NUL \<notin> set k \<and> json_ok (d + 1) x))"


subsection \<open>Strings\<close>

lemma hex_digit_hex_char: "n < 16 \<Longrightarrow> hex_digit (hex_char n) = Some n"
  by (auto simp: hex_char_def hex_digit_def byte_val_char_of)

lemma parse_hex4_escape:
  assumes "byte_val c < 0x20"
  shows "parse_hex4 (CHR ''0'' # CHR ''0'' # hex_char (byte_val c div 16) # hex_char (byte_val c mod 16) # r) =
    Some (byte_val c, r)"
proof -
  have 0: "hex_digit CHR ''0'' = Some 0" by (simp add: hex_digit_def)
  have "byte_val c div 16 < 16" using assms by simp
  then have "hex_digit (hex_char (byte_val c div 16)) = Some (byte_val c div 16)" by (rule hex_digit_hex_char)
  moreover have "hex_digit (hex_char (byte_val c mod 16)) = Some (byte_val c mod 16)"
    by (rule hex_digit_hex_char) simp
  moreover have "or (push_bit 4 (byte_val c div 16)) (byte_val c mod 16) = byte_val c"
    by (subst nat_shift_or) simp_all
  ultimately show ?thesis using 0 by simp
qed

lemma append_utf8_ascii: "byte_val c \<le> 0x7F \<Longrightarrow> append_utf8 (byte_val c) = [c]"
  by (simp add: append_utf8_def)

lemma parse_chars_escape: "parse_chars out (escape_char c @ p) = parse_chars (out @ [c]) p"
proof (cases "byte_val c < 0x20 \<and> c \<notin> {CHR 0x08, CHR 0x0C, CHR 0x0A, CHR 0x0D, CHR 0x09}")
  case True
  have "c \<noteq> DQ" using conjunct1 [OF True] by (rule contrapos_pn) simp
  moreover have "c \<noteq> BSL" using conjunct1 [OF True] by (rule contrapos_pn) simp
  ultimately have "escape_char c = [BSL, CHR ''u'', CHR ''0'', CHR ''0'', hex_char (byte_val c div 16), hex_char (byte_val c mod 16)]"
    using True by (simp add: escape_char_def)
  moreover have "unicode_escape (CHR ''0'' # CHR ''0'' # hex_char (byte_val c div 16) # hex_char (byte_val c mod 16) # p) = Inr (byte_val c, p)"
  proof -
    have "\<not> 0xD800 \<le> byte_val c" "\<not> 0xDC00 \<le> byte_val c" using byte_val_le [of c] by linarith+
    then show ?thesis
      unfolding unicode_escape_def parse_hex4_escape [OF conjunct1 [OF True]] by (simp del: of_char_eq_iff)
  qed
  moreover have "append_utf8 (byte_val c) = [c]" using True by (intro append_utf8_ascii) simp
  ultimately show ?thesis
    by (subst parse_chars.simps) simp
next
  case False
  then show ?thesis
    by (subst parse_chars.simps) (auto simp: escape_char_def simple_escape_def)
qed

lemma parse_chars_escaped: "parse_chars out (concat (map escape_char s) @ DQ # r) = Inr (out @ s, r)"
proof (induction s arbitrary: out)
  case Nil
  show ?case by (subst parse_chars.simps) simp
next
  case (Cons c s)
  then show ?case by (simp add: parse_chars_escape)
qed

lemma parse_string_write: "parse_string (tl (write_string s) @ r) = Inr (s, r)"
  by (simp add: parse_string_def write_string_def parse_chars_escaped)



subsection \<open>Numbers\<close>

text \<open>The bytes that end a number: nothing, or a byte that cannot continue it.\<close>

definition num_stop :: "bytes \<Rightarrow> bool" where
  "num_stop r = (case r of [] \<Rightarrow> True
     | c # _ \<Rightarrow> \<not> c_isdigit c \<and> c \<noteq> CHR ''.'' \<and> c \<noteq> CHR ''e'' \<and> c \<noteq> CHR ''E'')"

lemma num_stopD:
  assumes "num_stop r"
  shows "takeWhile c_isdigit r = []" and "dropWhile c_isdigit r = r" and "scan_frac r = Inr ([], r)"
    and "scan_exp r = Inr (False, [], r)"
  using assms by (auto simp: num_stop_def scan_frac_def scan_exp_def peek_def split: list.splits)

lemma scan_digits_show_nat: "num_stop r \<Longrightarrow> scan_digits (show_nat n @ r) = (show_nat n, r)"
  using show_nat_digits [of n]
  by (simp add: scan_digits_def list_all_iff takeWhile_append2 dropWhile_append2 num_stopD)

lemma show_nat_Cons_digit: "\<exists>c cs. show_nat n = c # cs \<and> c_isdigit c"
  using show_nat_digits [of n] by (cases "show_nat n") auto

lemma scan_int_show_nat: "num_stop r \<Longrightarrow> scan_int (show_nat n @ r) = Inr (show_nat n, r)"
proof (cases "n = 0")
  case False
  assume r: "num_stop r"
  from show_nat_Cons_digit [of n] obtain c cs where c: "show_nat n = c # cs" "c_isdigit c" by blast
  with show_nat_hd_nonzero [OF False] have "c \<noteq> CHR ''0''" by simp
  with c show ?thesis using scan_digits_show_nat [OF r, of n]
    by (simp add: scan_int_def peek_def peek_digit_def)
qed (simp add: show_nat_0 scan_int_def peek_def)

lemma digit_ne_minus: "c_isdigit c \<Longrightarrow> c \<noteq> CHR ''-''"
  by (auto simp: c_isdigit_def)

lemma parse_number_show_int:
  assumes "\<bar>n\<bar> < 10 ^ 16" and "num_stop r"
  shows "parse_number (show_int n @ r) = Inr (JNumber (double_of_int n), r)"
proof -
  have len: "length (show_nat (nat \<bar>n\<bar>)) \<le> 16"
    using assms(1) by (intro show_nat_length_le) auto
  show ?thesis
  proof (cases "n < 0")
    case True
    then have "parse_number (show_int n @ r) = Inr (JNumber (double_of True (of_nat (nat \<bar>n\<bar>))), r)"
      using len by (simp add: parse_number_def show_int_def peek_def scan_int_show_nat [OF assms(2)]
          num_stopD [OF assms(2)] strtod_exact_int del: of_nat_nat)
    then show ?thesis using True double_of_int_eq_double_of [of n] by (simp del: of_nat_nat)
  next
    case False
    from show_nat_Cons_digit [of "nat n"] obtain c cs where "show_nat (nat n) = c # cs" "c \<noteq> CHR ''-''"
      using digit_ne_minus by blast
    then have "peek (show_nat (nat n) @ r) \<noteq> Some CHR ''-''" by (simp add: peek_def)
    then have "parse_number (show_int n @ r) = Inr (JNumber (double_of False (of_nat (nat \<bar>n\<bar>))), r)"
      using len False by (simp add: parse_number_def show_int_def scan_int_show_nat [OF assms(2)]
          num_stopD [OF assms(2)] strtod_exact_int del: of_nat_nat)
    then show ?thesis using False double_of_int_eq_double_of [of n] by (simp del: of_nat_nat)
  qed
qed

lemma small_int_write:
  assumes "is_small_int d"
  obtains n where "d = double_of_int n" and "\<bar>n\<bar> < 10 ^ 16" and "write_number d = Some (show_int n)"
proof -
  from assms obtain x where "d = Fin x" "of_int \<lfloor>x\<rfloor> = x" "\<bar>x\<bar> \<le> 2 ^ 53"
    by (auto simp: is_small_int_def split: double.splits)
  then obtain n where d: "d = Fin (of_int n)" and "\<bar>of_int n :: rat\<bar> \<le> 2 ^ 53" by metis
  then have "of_int \<bar>n\<bar> \<le> (of_int (2 ^ 53) :: rat)" by simp
  then have n: "\<bar>n\<bar> \<le> 2 ^ 53" by (simp only: of_int_le_iff)
  then have n16: "\<bar>n\<bar> < 10 ^ 16" by simp
  from n have dn: "d = double_of_int n" using d by (simp add: double_of_int_exact)
  have "length (show_nat (nat \<bar>n\<bar>)) \<le> 16" using n16 by (intro show_nat_length_le) auto
  then have "length (show_int n) < 32" by (auto simp: show_int_def abs_if split: if_splits)
  then have "write_number d = Some (show_int n)"
    by (simp add: d write_number_def dbl_isfinite_def fmt_17g_of_int [OF n16])
  with dn n16 show thesis by (rule that)
qed



subsection \<open>Values\<close>

definition val_start :: "bytes \<Rightarrow> bool" where
  "val_start s = (case s of [] \<Rightarrow> False | c # _ \<Rightarrow> \<not> is_ws c \<and> c \<noteq> CHR '']'' \<and> c \<noteq> CHR ''}'')"

lemma val_startD: "val_start s \<Longrightarrow> skip_ws (s @ r) = s @ r"
  by (cases s) (simp_all add: val_start_def skip_ws_def)

definition rt_ok :: "json \<Rightarrow> nat \<Rightarrow> bytes \<Rightarrow> bool" where
  "rt_ok v d s \<longleftrightarrow> write_value v d = Some s \<and> val_start s \<and>
     (\<forall>r. num_stop r \<longrightarrow> parse_value (s @ r) d = Inr (v, r))"

lemma parse_sep_simps:
  "parse_sep close (CHR '','' # r) = Inr (True, r)"
  "parse_sep CHR '']'' (CHR '']'' # r) = Inr (False, r)"
  "parse_sep CHR ''}'' (CHR ''}'' # r) = Inr (False, r)"
  by (simp_all add: parse_sep_def skip_ws_def is_ws_def)

lemma num_stop_sep: "c \<in> {CHR '','', CHR '']'', CHR ''}''} \<Longrightarrow> num_stop (c # r)"
  by (auto simp: num_stop_def c_isdigit_def)

lemma items_roundtrip:
  assumes "xs \<noteq> []" and "\<And>x. x \<in> set xs \<Longrightarrow> \<exists>s. rt_ok x (d + 1) s"
  shows "\<exists>s. write_items True xs d = Some s \<and> write_items False xs d = Some (CHR '','' # s) \<and> val_start s \<and>
     (\<forall>acc r. parse_items (JArray acc) (s @ CHR '']'' # r) d = Inr (JArray (acc @ xs), r))"
  using assms
proof (induction xs)
  case (Cons x xs)
  from Cons.prems(2) [of x] obtain s where s: "rt_ok x (d + 1) s" by auto
  note rt = s [unfolded rt_ok_def]
  have pv: "parse_value (s @ c # r) (d + 1) = Inr (x, c # r)" if "c \<in> {CHR '','', CHR '']''}" for c r
    using rt num_stop_sep [of c r] that by auto
  have sk: "skip_ws (s @ r) = s @ r" for r using rt val_startD by blast
  show ?case
  proof (cases "xs = []")
    case True
    then show ?thesis using rt pv [of "CHR '']''"] sk
      by (auto simp: parse_items.simps [of _ "s @ _"] parse_sep_simps)
  next
    case False
    from Cons.IH [OF False] Cons.prems(2) obtain t where
      t: "write_items False xs d = Some (CHR '','' # t)"
      "\<And>acc r. parse_items (JArray acc) (t @ CHR '']'' # r) d = Inr (JArray (acc @ xs), r)" by auto
    have "parse_items (JArray acc) ((s @ CHR '','' # t) @ CHR '']'' # r) d = Inr (JArray (acc @ x # xs), r)" for acc r
      using pv [of "CHR '',''"] sk t(2)
      by (simp add: parse_items.simps [of _ "s @ _"] parse_sep_simps)
    moreover have "val_start (s @ CHR '','' # t)" using rt by (cases s) (auto simp: val_start_def)
    ultimately show ?thesis using t rt by auto
  qed
qed simp

lemma parse_key_write: "NUL \<notin> set k \<Longrightarrow> val_start s \<Longrightarrow>
    parse_key (write_string (cstr k) @ CHR '':'' # s @ r) = Inr (k, s @ r)"
proof -
  assume k: "NUL \<notin> set k" and s: "val_start s"
  have "parse_string (concat (map escape_char k) @ DQ # CHR '':'' # s @ r) = Inr (k, CHR '':'' # s @ r)"
    using parse_string_write [of k "CHR '':'' # s @ r"] by (simp add: write_string_def)
  then show ?thesis
    using val_startD [OF s, of r]
    by (simp add: parse_key_def write_string_def cstr_id [OF k] skip_ws_def is_ws_def)
qed

lemma write_string_start: "val_start (write_string s @ r)"
  by (simp add: val_start_def write_string_def is_ws_def)

lemma members_roundtrip:
  assumes "ms \<noteq> []" and "\<And>k x. (k, x) \<in> set ms \<Longrightarrow> NUL \<notin> set k \<and> (\<exists>s. rt_ok x (d + 1) s)"
    and "distinct (map fst (acc @ ms))"
  shows "\<exists>s. write_members True ms d = Some s \<and> write_members False ms d = Some (CHR '','' # s) \<and> val_start s \<and>
     (\<forall>r. parse_members (JObject acc) (s @ CHR ''}'' # r) d = Inr (JObject (acc @ ms), r))"
  using assms
proof (induction ms arbitrary: acc)
  case (Cons m ms)
  obtain k x where m: "m = (k, x)" by (cases m)
  from Cons.prems(2) [of k x] m obtain s where s: "rt_ok x (d + 1) s" and k: "NUL \<notin> set k" by auto
  note rt = s [unfolded rt_ok_def]
  have pv: "parse_value (s @ c # r) (d + 1) = Inr (x, c # r)" if "c \<in> {CHR '','', CHR ''}''}" for c r
    using rt num_stop_sep [of c r] that by auto
  note pk = parse_key_write [OF k, of s, OF conjunct1 [OF conjunct2 [OF rt]]]
  have set: "ps_json_object_set (JObject acc) k x = JObject (acc @ [(k, x)])"
    using Cons.prems(3) m by (simp add: cstr_id [OF k] members_set_fresh)
  show ?case
  proof (cases "ms = []")
    case True
    then show ?thesis using rt pv [of "CHR ''}''"] pk set m
      by (auto simp: parse_members.simps [of _ "write_string _ @ _"] parse_sep_simps write_string_start)
  next
    case False
    from Cons.IH [OF False, of "acc @ [(k, x)]"] Cons.prems(2,3) m obtain t where
      t: "write_members False ms d = Some (CHR '','' # t)"
      "\<And>r. parse_members (JObject (acc @ [(k, x)])) (t @ CHR ''}'' # r) d = Inr (JObject (acc @ m # ms), r)" by auto
    have "parse_members (JObject acc) ((write_string (cstr k) @ CHR '':'' # s @ CHR '','' # t) @ CHR ''}'' # r) d =
        Inr (JObject (acc @ m # ms), r)" for r
      using pv [of "CHR '',''"] pk [of "CHR '','' # t @ CHR ''}'' # r"] set t(2)
      by (simp add: parse_members.simps [of _ "write_string _ @ _"] parse_sep_simps)
    then show ?thesis using t rt m by (auto simp: write_string_start)
  qed
qed simp

lemma show_int_start: "val_start (show_int n @ r)"
proof -
  from show_nat_Cons_digit obtain c cs where c: "show_nat (nat \<bar>n\<bar>) = c # cs" "c_isdigit c" by blast
  then have "\<not> is_ws c \<and> c \<noteq> CHR '']'' \<and> c \<noteq> CHR ''}''" by (auto simp: c_isdigit_def is_ws_def)
  with c show ?thesis by (auto simp: show_int_def val_start_def is_ws_def abs_if split: if_splits)
qed

lemma parse_value_int:
  assumes "d \<le> PS_JSON_MAX_DEPTH" and "\<bar>n\<bar> < 10 ^ 16" and "num_stop r"
  shows "parse_value (show_int n @ r) d = Inr (JNumber (double_of_int n), r)"
proof -
  have sk: "skip_ws (show_int n @ r) = show_int n @ r"
    using val_startD [OF show_int_start [of n "[]"], of r] by simp
  from show_nat_Cons_digit obtain c cs where c: "show_nat (nat \<bar>n\<bar>) = c # cs" "c_isdigit c" by blast
  obtain e es where e: "show_int n = e # es" "e = CHR ''-'' \<or> c_isdigit e"
    using c by (cases "n < 0") (auto simp: show_int_def abs_if)
  then have "parse_scalar e (es @ r) = parse_number (e # es @ r)" "e \<noteq> CHR ''{''" "e \<noteq> CHR ''[''"
    by (auto simp: parse_scalar_def c_isdigit_def)
  with e sk parse_number_show_int [OF assms(2,3)] assms(1) show ?thesis
    by (simp add: parse_value.simps)
qed

lemma rt_string: "d \<le> PS_JSON_MAX_DEPTH \<Longrightarrow> rt_ok (JString s) d (write_string s)"
proof -
  assume d: "d \<le> PS_JSON_MAX_DEPTH"
  have "parse_string (concat (map escape_char s) @ DQ # r) = Inr (s, r)" for r
    using parse_string_write [of s r] by (simp add: write_string_def)
  with d show ?thesis
    using write_string_start [of s "[]"]
    by (simp add: rt_ok_def write_value.simps parse_value.simps skip_ws_def is_ws_def
        parse_scalar_def write_string_def)
qed

lemma rt_array:
  assumes d: "d \<le> PS_JSON_MAX_DEPTH" and xs: "\<And>x. x \<in> set xs \<Longrightarrow> \<exists>s. rt_ok x (d + 1) s"
  shows "\<exists>s. rt_ok (JArray xs) d s"
proof (cases "xs = []")
  case True
  with d show ?thesis
    by (simp add: rt_ok_def write_value.simps parse_value.simps parse_array.simps val_start_def skip_ws_def is_ws_def peek_def)
next
  case False
  from items_roundtrip [OF False xs] obtain s where s: "write_items True xs d = Some s" "val_start s"
    "\<And>acc r. parse_items (JArray acc) (s @ CHR '']'' # r) d = Inr (JArray (acc @ xs), r)" by auto
  from s(2) obtain c cs where c: "s = c # cs" "c \<noteq> CHR '']''" by (cases s) (auto simp: val_start_def)
  have "rt_ok (JArray xs) d (''['' @ s @ '']'')"
    using d s c val_startD [OF s(2)]
    by (simp add: rt_ok_def write_value.simps parse_value.simps parse_array.simps val_start_def
        skip_ws_def is_ws_def peek_def)
  then show ?thesis ..
qed

lemma rt_object:
  assumes d: "d \<le> PS_JSON_MAX_DEPTH" and dist: "distinct (map fst ms)"
    and ms: "\<And>k x. (k, x) \<in> set ms \<Longrightarrow> NUL \<notin> set k \<and> (\<exists>s. rt_ok x (d + 1) s)"
  shows "\<exists>s. rt_ok (JObject ms) d s"
proof (cases "ms = []")
  case True
  with d show ?thesis
    by (simp add: rt_ok_def write_value.simps parse_value.simps parse_object.simps val_start_def skip_ws_def is_ws_def peek_def)
next
  case False
  from members_roundtrip [OF False ms, of "[]"] dist obtain s where s: "write_members True ms d = Some s" "val_start s"
    "\<And>r. parse_members (JObject []) (s @ CHR ''}'' # r) d = Inr (JObject ms, r)" by auto
  from s(2) obtain c cs where c: "s = c # cs" "c \<noteq> CHR ''}''" by (cases s) (auto simp: val_start_def)
  have "rt_ok (JObject ms) d (''{'' @ s @ ''}'')"
    using d s c val_startD [OF s(2)]
    by (simp add: rt_ok_def write_value.simps parse_value.simps parse_object.simps val_start_def
        skip_ws_def is_ws_def peek_def)
  then show ?thesis ..
qed

lemma json_roundtrip: "json_ok d v \<Longrightarrow> \<exists>s. rt_ok v d s"
proof (induction v arbitrary: d)
  case JNull
  then show ?case
    by (simp add: rt_ok_def write_value.simps parse_value.simps val_start_def skip_ws_def is_ws_def
        parse_scalar_def parse_literal_def expect_literal_def)
next
  case (JBool b)
  then show ?case
    by (cases b) (simp_all add: rt_ok_def write_value.simps parse_value.simps val_start_def skip_ws_def is_ws_def
        parse_scalar_def parse_literal_def expect_literal_def)
next
  case (JNumber x)
  then have d: "d \<le> PS_JSON_MAX_DEPTH" and x: "is_small_int x" by simp_all
  from small_int_write [OF x] obtain n where
    n: "x = double_of_int n" "\<bar>n\<bar> < 10 ^ 16" "write_number x = Some (show_int n)" .
  have "rt_ok (JNumber x) d (show_int n)"
    using d n show_int_start [of n "[]"] parse_value_int [OF d n(2)] by (simp add: rt_ok_def write_value.simps)
  then show ?case ..
next
  case (JString s)
  then show ?case using rt_string [of d s] by auto
next
  case (JArray xs)
  then show ?case by (intro rt_array) auto
next
  case (JObject ms)
  then show ?case by (intro rt_object) fastforce+
qed

lemma ps_json_roundtrip:
  assumes "json_ok 1 v"
  shows "\<exists>s. ps_json_write v = Some s \<and> (0 < errlen \<longrightarrow> ps_json_parse s errlen = Inr v)"
proof -
  from json_roundtrip [OF assms] obtain s where s: "write_value v 1 = Some s"
    "\<And>r. num_stop r \<Longrightarrow> parse_value (s @ r) 1 = Inr (v, r)" by (auto simp: rt_ok_def)
  have "parse_value s 1 = Inr (v, [])" using s(2) [of "[]"] by (simp add: num_stop_def)
  with s(1) show ?thesis by (simp add: ps_json_write_def ps_json_parse_def skip_ws_def)
qed

interpretation json: codec "json_ok 1" "\<lambda>v. the (ps_json_write v)"
  "\<lambda>s. case ps_json_parse s 128 of Inl _ \<Rightarrow> None | Inr v \<Rightarrow> Some v"
proof
  fix v assume "json_ok 1 v"
  from ps_json_roundtrip [OF this, of 128]
  show "(case ps_json_parse (the (ps_json_write v)) 128 of Inl _ \<Rightarrow> None | Inr v \<Rightarrow> Some v) = Some v"
    by auto
qed


subsection \<open>The shape of parsed values\<close>

text \<open>
  What the parser guarantees of a value it accepts: its nesting depth is within the limit, and the
  keys of its objects are distinct C strings.
\<close>

fun json_shape :: "nat \<Rightarrow> json \<Rightarrow> bool" where
  "json_shape d (JArray xs) = (d \<le> PS_JSON_MAX_DEPTH \<and> (\<forall>x \<in> set xs. json_shape (d + 1) x))"
| "json_shape d (JObject ms) = (d \<le> PS_JSON_MAX_DEPTH \<and> distinct (map fst ms) \<and>
     (\<forall>(k, x) \<in> set ms. NUL \<notin> set k \<and> json_shape (d + 1) x))"
| "json_shape d _ = (d \<le> PS_JSON_MAX_DEPTH)"

lemma fst_members_set: "fst ` set (members_set ms k v) = insert k (fst ` set ms)"
proof (induction ms)
  case (Cons m ms)
  then show ?case by (cases m; cases "fst m = k") auto
qed simp

lemma distinct_members_set: "distinct (map fst ms) \<Longrightarrow> distinct (map fst (members_set ms k v))"
  by (induction ms) (auto simp: fst_members_set)

lemma set_members_set: "set (members_set ms k v) \<subseteq> insert (k, v) (set ms)"
proof (induction ms)
  case (Cons m ms)
  then show ?case by (cases m; cases "fst m = k") auto
qed simp

lemma json_shape_set:
  assumes "json_shape d (JObject ms)" and "json_shape (d + 1) v"
  shows "json_shape d (JObject (members_set ms (cstr k) v))"
  using assms distinct_members_set [of ms "cstr k" v] set_members_set [of ms "cstr k" v] by fastforce

lemma parse_scalar_shape: "parse_scalar c q = Inr (v, r) \<Longrightarrow> d \<le> PS_JSON_MAX_DEPTH \<Longrightarrow> json_shape d v"
  by (auto simp: parse_scalar_def parse_literal_def parse_number_def Let_def
      split: if_splits sum.splits option.splits)

lemma parse_shape:
  "parse_value p d = Inr (v, r) \<Longrightarrow> json_shape d v"
  "parse_array p d = Inr (v, r) \<Longrightarrow> d \<le> PS_JSON_MAX_DEPTH \<Longrightarrow> json_shape d v"
  "parse_items a p d = Inr (v, r) \<Longrightarrow> json_shape d a \<Longrightarrow> a = JArray xs \<Longrightarrow> json_shape d v"
  "parse_object p d = Inr (v, r) \<Longrightarrow> d \<le> PS_JSON_MAX_DEPTH \<Longrightarrow> json_shape d v"
  "parse_members a p d = Inr (v, r) \<Longrightarrow> json_shape d a \<Longrightarrow> a = JObject ms \<Longrightarrow> json_shape d v"
proof (induction p d and p d and a p d and p d and a p d
    arbitrary: v r and v r and v r xs and v r and v r ms
    rule: parse_value_parse_array_parse_items_parse_object_parse_members.induct)
  case (1 p depth)
  then show ?case
    by (auto simp: parse_value.simps split: if_splits list.splits intro: parse_scalar_shape)
next
  case (2 p depth)
  then show ?case by (auto simp: parse_array.simps split: if_splits)
next
  case (3 arr p depth)
  from 3(3) obtain item p1 more q where pv: "parse_value (skip_ws p) (depth + 1) = Inr (item, p1)"
    and sep: "parse_sep CHR '']'' p1 = Inr (more, q)"
    and rest: "if more then parse_items (ps_json_array_append arr item) q depth = Inr (v, r)
      else v = ps_json_array_append arr item"
    by (auto simp: parse_items.simps [of arr p depth] split: if_splits sum.splits)
  have "json_shape depth (JArray (xs @ [item]))" using 3(1) [OF pv] 3(4,5) by auto
  then show ?case using rest 3(2) [OF pv refl sep refl] 3(5) by (cases more) auto
next
  case (4 p depth)
  then show ?case by (auto simp: parse_object.simps split: if_splits)
next
  case (5 obj p depth)
  from 5(3) obtain key p1 val p2 more q where pk: "parse_key p = Inr (key, p1)"
    and pv: "parse_value p1 (depth + 1) = Inr (val, p2)" and sep: "parse_sep CHR ''}'' p2 = Inr (more, q)"
    and rest: "if more then parse_members (ps_json_object_set obj key val) q depth = Inr (v, r)
      else v = ps_json_object_set obj key val"
    by (auto simp: parse_members.simps [of obj p depth] split: if_splits sum.splits)
  have "json_shape depth (JObject (members_set ms (cstr key) val))"
    using 5(1) [OF pk refl pv] 5(4,5) by (intro json_shape_set) auto
  then show ?case using rest 5(2) [OF pk refl pv refl sep refl] 5(5) by (cases more) auto
qed

lemma ps_json_parse_shape: "ps_json_parse s errlen = Inr v \<Longrightarrow> json_shape 1 v"
  by (auto simp: ps_json_parse_def split: if_splits sum.splits dest: parse_shape)


subsection \<open>Properties\<close>

text \<open>C29. Writing and parsing round-trips: every value within the nesting limit whose object keys are
  distinct C strings and whose numbers are integers up to \<open>2 ^ 53\<close> (all the service emits) is written,
  and the parser reads exactly that value back.\<close>

theorem json_write_parse:
  assumes "json_ok 1 v" and "0 < errlen"
  shows "\<exists>s. ps_json_write v = Some s \<and> ps_json_parse s errlen = Inr v"
  using ps_json_roundtrip [OF assms(1), of errlen] assms(2) by auto

theorem json_write_parse_witness:
  "\<exists>s. ps_json_write (JObject [(''a'', JArray [JNull, JString [CHR 0x0A, NUL]]), (''b'', JBool True)]) = Some s \<and>
     ps_json_parse s 128 = Inr (JObject [(''a'', JArray [JNull, JString [CHR 0x0A, NUL]]), (''b'', JBool True)])"
  by (rule json_write_parse) (simp_all add: PS_JSON_MAX_DEPTH_def)

text \<open>Whatever bytes arrive, a value the parser returns is at most 32 levels deep and no object in
  it has two members of the same name (as C strings): a later duplicate replaces the earlier one, so a
  reader cannot be shown two values for one key.\<close>

theorem json_parse_shape:
  assumes "ps_json_parse s errlen = Inr v"
  shows "json_shape 1 v"
  using assms by (rule ps_json_parse_shape)

theorem json_parse_shape_witness: "json_shape 1 (JObject [(''k'', JBool False)])"
proof (rule json_parse_shape)
  show "ps_json_parse ''{\"k\":true,\"k\":false}'' 100 = Inr (JObject [(''k'', JBool False)])"
    by code_simp
qed

end
