(* ===== verification/Http_Request.thy ===== *)
theory Http_Request
  imports Prelude
begin

text \<open>
  The HTTP/1.1 request parser (\<^verbatim>\<open>src/src/http/request.c\<close>, \<^verbatim>\<open>request.h\<close>). The input is the list of
  the bytes received so far; the (pointer, length) pairs of the parsed request are the byte lists
  they denote, with \<open>None\<close> for the \<^verbatim>\<open>NULL\<close> query and body. The limits are natural numbers: the
  configuration accepts none below 1. The searches for CR LF keep the indices and the bounds of
  the source.

  \<open>incremental_parser\<close> is the contract the connection loop relies on when it feeds the parser a
  growing buffer; it is interpreted on \<open>ps_http_request_parse\<close>.
\<close>

abbreviation CR :: byte where "CR \<equiv> CHR 0x0D"
abbreviation LF :: byte where "LF \<equiv> CHR 0x0A"
abbreviation SP :: byte where "SP \<equiv> CHR '' ''"
abbreviation HTAB :: byte where "HTAB \<equiv> CHR 0x09"

definition PS_HTTP_MAX_HEADERS :: nat where
  "PS_HTTP_MAX_HEADERS = 64"

datatype ps_http_parse_error_t =
    PS_HTTP_ERR_NONE
  | PS_HTTP_ERR_MALFORMED
  | PS_HTTP_ERR_LINE_TOO_LONG
  | PS_HTTP_ERR_TOO_MANY_HEADERS
  | PS_HTTP_ERR_HEADERS_TOO_LARGE
  | PS_HTTP_ERR_BODY_TOO_LARGE
  | PS_HTTP_ERR_CHUNKED_UNSUPPORTED
  | PS_HTTP_ERR_CONTENT_LENGTH_INVALID

record ps_http_header_t =
  hdr_name :: bytes
  hdr_value :: bytes

record ps_http_request_t =
  req_method :: bytes
  req_path :: bytes
  req_query :: "bytes option"
  req_minor_version :: nat
  req_headers :: "ps_http_header_t list"
  req_body :: "bytes option"

record ps_http_limits_t =
  max_request_line_bytes :: nat
  max_header_bytes :: nat
  max_header_count :: nat
  max_body_bytes :: nat

datatype 'r ps_http_parse_result_t =
    PS_HTTP_PARSE_OK 'r nat
  | PS_HTTP_PARSE_INCOMPLETE
  | PS_HTTP_PARSE_ERROR ps_http_parse_error_t bytes

type_synonym perror = "ps_http_parse_error_t \<times> bytes"

definition is_tchar :: "byte \<Rightarrow> bool" where
  "is_tchar c \<longleftrightarrow>
     c \<in> {CHR ''!'', CHR ''#'', CHR ''$'', CHR ''%'', CHR ''&'', CHR 0x27, CHR ''*'', CHR ''+'', CHR ''-'',
          CHR ''.'', CHR ''^'', CHR ''_'', CHR 0x60, CHR ''|'', CHR ''~''} \<or>
     (48 \<le> byte_val c \<and> byte_val c \<le> 57) \<or> (65 \<le> byte_val c \<and> byte_val c \<le> 90) \<or>
     (97 \<le> byte_val c \<and> byte_val c \<le> 122)"

definition is_sp_or_htab :: "byte \<Rightarrow> bool" where
  "is_sp_or_htab c \<longleftrightarrow> c = SP \<or> c = HTAB"

definition is_crlf_at :: "bytes \<Rightarrow> nat \<Rightarrow> bool" where
  "is_crlf_at data i \<longleftrightarrow> data ! i = CR \<and> data ! (i + 1) = LF"

definition find_crlf :: "bytes \<Rightarrow> nat \<Rightarrow> nat \<Rightarrow> nat option" where
  "find_crlf data limit start =
     (if limit \<le> start then None else List.find (is_crlf_at data) [start..<limit - 1])"

definition ci_equal :: "bytes \<Rightarrow> bytes \<Rightarrow> bool" where
  "ci_equal a b \<longleftrightarrow> length a = length (cstr b) \<and> map c_tolower a = map c_tolower (cstr b)"

definition header_name_is :: "ps_http_header_t \<Rightarrow> bytes \<Rightarrow> bool" where
  "header_name_is h name = ci_equal (hdr_name h) name"

definition header_value_is_token :: "ps_http_header_t \<Rightarrow> bytes \<Rightarrow> bool" where
  "header_value_is_token h token = ci_equal (hdr_value h) token"

text \<open>At most 18 digits, so that the accumulation stays below \<open>10 ^ 18 < 2 ^ 63\<close>.\<close>

definition parse_nonneg_decimal :: "bytes \<Rightarrow> nat option" where
  "parse_nonneg_decimal s =
     (if s = [] \<or> 18 < length s then None
      else if list_all c_isdigit s then Some (digits_val s) else None)"

definition ps_http_request_header :: "ps_http_request_t \<Rightarrow> bytes \<Rightarrow> ps_http_header_t option" where
  "ps_http_request_header req name = List.find (\<lambda>h. header_name_is h name) (req_headers req)"

text \<open>
  The loops that read a method or a header name: the token before the delimiter and the rest, which
  is empty or starts with the delimiter; \<open>None\<close> when a byte is not a token character.
\<close>

fun scan_token :: "byte \<Rightarrow> bytes \<Rightarrow> (bytes \<times> bytes) option" where
  "scan_token delim [] = Some ([], [])"
| "scan_token delim (c # cs) =
     (if c = delim then Some ([], c # cs)
      else if \<not> is_tchar c then None
      else map_option (\<lambda>(t, r). (c # t, r)) (scan_token delim cs))"

text \<open>The request line: method, path, query and minor version.\<close>

definition parse_target :: "bytes \<Rightarrow> bytes \<times> bytes option" where
  "parse_target target =
     (case split_at_char CHR ''?'' target of None \<Rightarrow> (target, None) | Some (p, q) \<Rightarrow> (p, Some q))"

definition parse_version :: "bytes \<Rightarrow> nat option" where
  "parse_version v = (if v = ''HTTP/1.1'' then Some 1 else if v = ''HTTP/1.0'' then Some 0 else None)"

definition parse_request_line :: "bytes \<Rightarrow> perror + (bytes \<times> (bytes \<times> bytes option) \<times> nat)" where
  "parse_request_line line =
     (case scan_token SP line of
        None \<Rightarrow> Inl (PS_HTTP_ERR_MALFORMED, ''invalid method token'')
      | Some (meth, r) \<Rightarrow>
          if meth = [] \<or> r = [] then Inl (PS_HTTP_ERR_MALFORMED, ''malformed request line (method)'')
          else
            let target = takeWhile (\<lambda>c. c \<noteq> SP) (tl r); r2 = dropWhile (\<lambda>c. c \<noteq> SP) (tl r)
            in if target = [] \<or> r2 = [] then Inl (PS_HTTP_ERR_MALFORMED, ''malformed request line (target)'')
               else if hd target \<noteq> CHR ''/'' then
                 Inl (PS_HTTP_ERR_MALFORMED, ''only origin-form request targets are supported'')
               else case parse_version (tl r2) of
                 None \<Rightarrow> Inl (PS_HTTP_ERR_MALFORMED, ''unsupported or malformed HTTP version'')
               | Some v \<Rightarrow> Inr (meth, parse_target target, v))"

text \<open>One header line (without its CR LF).\<close>

definition parse_header_line :: "bytes \<Rightarrow> perror + ps_http_header_t" where
  "parse_header_line line =
     (if line \<noteq> [] \<and> is_sp_or_htab (hd line) then
        Inl (PS_HTTP_ERR_MALFORMED, ''obsolete line folding is not supported'')
      else case scan_token CHR '':'' line of
        None \<Rightarrow> Inl (PS_HTTP_ERR_MALFORMED, ''invalid header name'')
      | Some (name, r) \<Rightarrow>
          if name = [] \<or> r = [] then Inl (PS_HTTP_ERR_MALFORMED, ''malformed header line'')
          else Inr \<lparr>hdr_name = name,
                    hdr_value = rev (dropWhile is_sp_or_htab (rev (dropWhile is_sp_or_htab (tl r))))\<rparr>)"

text \<open>What the header loop has collected: the headers, the Content-Length, and whether a
  Transfer-Encoding and a chunked one were seen.\<close>

record header_state =
  hs_headers :: "ps_http_header_t list"
  hs_content_length :: "nat option"
  hs_transfer_encoding :: bool
  hs_chunked :: bool

definition header_state_init :: header_state where
  "header_state_init = \<lparr>hs_headers = [], hs_content_length = None, hs_transfer_encoding = False, hs_chunked = False\<rparr>"

definition add_header :: "ps_http_limits_t \<Rightarrow> header_state \<Rightarrow> ps_http_header_t \<Rightarrow> perror + header_state" where
  "add_header limits st h =
     (if PS_HTTP_MAX_HEADERS \<le> length (hs_headers st) \<or> max_header_count limits \<le> length (hs_headers st) then
        Inl (PS_HTTP_ERR_TOO_MANY_HEADERS, ''too many headers'')
      else
        let st1 = st\<lparr>hs_headers := hs_headers st @ [h]\<rparr>
        in if header_name_is h ''Content-Length'' then
             if hs_content_length st1 \<noteq> None then
               Inl (PS_HTTP_ERR_CONTENT_LENGTH_INVALID, ''duplicate Content-Length header'')
             else (case parse_nonneg_decimal (hdr_value h) of
                 None \<Rightarrow> Inl (PS_HTTP_ERR_CONTENT_LENGTH_INVALID, ''invalid Content-Length'')
               | Some v \<Rightarrow> Inr (st1\<lparr>hs_content_length := Some v\<rparr>))
           else if header_name_is h ''Transfer-Encoding'' then
             Inr (st1\<lparr>hs_transfer_encoding := True,
                      hs_chunked := hs_chunked st1 \<or> header_value_is_token h ''chunked''\<rparr>)
           else Inr st1)"

text \<open>The loop over the header block, which ends with the CR LF of its last line.\<close>

function parse_headers :: "ps_http_limits_t \<Rightarrow> header_state \<Rightarrow> bytes \<Rightarrow> perror + header_state" where
  "parse_headers limits st block =
     (if block = [] then Inr st
      else case find_crlf block (length block) 0 of
        None \<Rightarrow> Inl (PS_HTTP_ERR_MALFORMED, ''malformed headers'')
      | Some h_end \<Rightarrow>
          (case parse_header_line (take h_end block) of
             Inl e \<Rightarrow> Inl e
           | Inr h \<Rightarrow>
               (case add_header limits st h of
                  Inl e \<Rightarrow> Inl e
                | Inr st1 \<Rightarrow> parse_headers limits st1 (drop (h_end + 2) block))))"
  by pat_completeness auto
termination
  by (relation "measure (\<lambda>(_, _, block). length block)") auto

declare parse_headers.simps [simp del]

definition is_terminator_at :: "bytes \<Rightarrow> nat \<Rightarrow> bool" where
  "is_terminator_at data i \<longleftrightarrow>
     data ! i = CR \<and> data ! (i + 1) = LF \<and> data ! (i + 2) = CR \<and> data ! (i + 3) = LF"

text \<open>The framing decisions after the headers: the body and the bytes consumed.\<close>

definition parse_body :: "ps_http_limits_t \<Rightarrow> bytes \<Rightarrow> nat \<Rightarrow> header_state \<Rightarrow> ps_http_request_t \<Rightarrow>
    ps_http_request_t ps_http_parse_result_t" where
  "parse_body limits data after_headers st req =
     (if hs_content_length st \<noteq> None \<and> hs_transfer_encoding st then
        PS_HTTP_PARSE_ERROR PS_HTTP_ERR_CONTENT_LENGTH_INVALID
          ''Content-Length and Transfer-Encoding must not both be present''
      else if hs_transfer_encoding st then
        if \<not> hs_chunked st then PS_HTTP_PARSE_ERROR PS_HTTP_ERR_MALFORMED ''unsupported Transfer-Encoding''
        else PS_HTTP_PARSE_ERROR PS_HTTP_ERR_CHUNKED_UNSUPPORTED ''chunked request bodies are not supported''
      else case hs_content_length st of
        None \<Rightarrow> PS_HTTP_PARSE_OK req after_headers
      | Some n \<Rightarrow>
          if n = 0 then PS_HTTP_PARSE_OK req after_headers
          else if max_body_bytes limits < n then
            PS_HTTP_PARSE_ERROR PS_HTTP_ERR_BODY_TOO_LARGE ''request body exceeds the configured limit''
          else if length data - after_headers < n then PS_HTTP_PARSE_INCOMPLETE
          else PS_HTTP_PARSE_OK (req\<lparr>req_body := Some (take n (drop after_headers data))\<rparr>) (after_headers + n))"

definition ps_http_request_parse :: "ps_http_limits_t \<Rightarrow> bytes \<Rightarrow> ps_http_request_t ps_http_parse_result_t" where
  "ps_http_request_parse limits data =
     (case find_crlf data (min (length data) (max_request_line_bytes limits)) 0 of
        None \<Rightarrow>
          if max_request_line_bytes limits \<le> length data then
            PS_HTTP_PARSE_ERROR PS_HTTP_ERR_LINE_TOO_LONG ''request line too long''
          else PS_HTTP_PARSE_INCOMPLETE
      | Some line_end \<Rightarrow>
          (case parse_request_line (take line_end data) of
             Inl (k, msg) \<Rightarrow> PS_HTTP_PARSE_ERROR k msg
           | Inr (meth, (path, query), minor) \<Rightarrow>
               let header_section_start = line_end + 2;
                   region = header_section_start + max_header_bytes limits + 2
               in case List.find (is_terminator_at data) [line_end..<min region (length data) - 3] of
                    None \<Rightarrow>
                      if region \<le> length data then
                        PS_HTTP_PARSE_ERROR PS_HTTP_ERR_HEADERS_TOO_LARGE ''headers too large''
                      else PS_HTTP_PARSE_INCOMPLETE
                  | Some t \<Rightarrow>
                      (case parse_headers limits header_state_init
                              (take (t + 2 - header_section_start) (drop header_section_start data)) of
                         Inl (k, msg) \<Rightarrow> PS_HTTP_PARSE_ERROR k msg
                       | Inr st \<Rightarrow>
                           parse_body limits data (t + 4) st
                             \<lparr>req_method = meth, req_path = path, req_query = query,
                              req_minor_version = minor, req_headers = hs_headers st, req_body = None\<rparr>)))"



subsection \<open>Searching\<close>

lemma find_upt_Some_iff:
  "List.find P [s..<m] = Some i \<longleftrightarrow> s \<le> i \<and> i < m \<and> P i \<and> (\<forall>j. s \<le> j \<and> j < i \<longrightarrow> \<not> P j)"
proof
  assume "List.find P [s..<m] = Some i"
  then obtain k where k: "k < m - s" "P (s + k)" "i = s + k" "\<And>j. j < k \<Longrightarrow> \<not> P (s + j)"
    by (auto simp: find_Some_iff)
  then have "\<not> P j" if "s \<le> j" "j < i" for j using k(4) [of "j - s"] that by simp
  with k show "s \<le> i \<and> i < m \<and> P i \<and> (\<forall>j. s \<le> j \<and> j < i \<longrightarrow> \<not> P j)" by auto
next
  assume "s \<le> i \<and> i < m \<and> P i \<and> (\<forall>j. s \<le> j \<and> j < i \<longrightarrow> \<not> P j)"
  then show "List.find P [s..<m] = Some i"
    unfolding find_Some_iff by (intro exI [of _ "i - s"]) auto
qed

lemma find_upt_None_iff: "List.find P [s..<m] = None \<longleftrightarrow> (\<forall>j. s \<le> j \<and> j < m \<longrightarrow> \<not> P j)"
  by (auto simp: find_None_iff)

lemma is_crlf_at_append: "i + 1 < length d \<Longrightarrow> is_crlf_at (d @ x) i = is_crlf_at d i"
  by (simp add: is_crlf_at_def nth_append)

lemma is_terminator_at_append: "i + 3 < length d \<Longrightarrow> is_terminator_at (d @ x) i = is_terminator_at d i"
  by (simp add: is_terminator_at_def nth_append)

lemma find_crlf_Some_iff:
  "find_crlf d limit s = Some i \<longleftrightarrow>
     s \<le> i \<and> i + 1 < limit \<and> is_crlf_at d i \<and> (\<forall>j. s \<le> j \<and> j < i \<longrightarrow> \<not> is_crlf_at d j)"
  by (auto simp: find_crlf_def find_upt_Some_iff)

lemma find_crlf_None_iff:
  "find_crlf d limit s = None \<longleftrightarrow> (\<forall>j. s \<le> j \<and> j + 1 < limit \<longrightarrow> \<not> is_crlf_at d j)"
  by (auto simp: find_crlf_def find_upt_None_iff)

lemma find_crlf_append:
  assumes "find_crlf d limit s = Some i" and "limit \<le> length d" and "limit \<le> limit'"
  shows "find_crlf (d @ x) limit' s = Some i"
  using assms by (auto simp: find_crlf_Some_iff is_crlf_at_append)


subsection \<open>More input does not change a verdict\<close>

text \<open>
  The contract of a parser that is called on a growing buffer: a request or an error, once
  reported, does not depend on the bytes that follow. \<open>feed\<close> is the read loop of the connection:
  parse what has been received, and read one more chunk only if that is incomplete.
\<close>

fun feed :: "(bytes \<Rightarrow> 'r ps_http_parse_result_t) \<Rightarrow> bytes \<Rightarrow> bytes list \<Rightarrow> 'r ps_http_parse_result_t" where
  "feed parse buf [] = parse buf"
| "feed parse buf (c # cs) =
     (case parse buf of PS_HTTP_PARSE_INCOMPLETE \<Rightarrow> feed parse (buf @ c) cs | r \<Rightarrow> r)"

locale incremental_parser =
  fixes parse :: "bytes \<Rightarrow> 'r ps_http_parse_result_t"
  assumes decided_extend: "parse d \<noteq> PS_HTTP_PARSE_INCOMPLETE \<Longrightarrow> parse (d @ x) = parse d"
    and consumed_le: "parse d = PS_HTTP_PARSE_OK r n \<Longrightarrow> n \<le> length d"
    and consumed_only: "parse d = PS_HTTP_PARSE_OK r n \<Longrightarrow> parse (take n d) = PS_HTTP_PARSE_OK r n"
begin

lemma feed_eq: "feed parse buf cs = parse (buf @ concat cs)"
proof (induction cs arbitrary: buf)
  case (Cons c cs)
  show ?case
  proof (cases "parse buf = PS_HTTP_PARSE_INCOMPLETE")
    case True
    then show ?thesis using Cons.IH [of "buf @ c"] by simp
  next
    case False
    then have "parse (buf @ concat (c # cs)) = parse buf" by (rule decided_extend)
    with False show ?thesis by (cases "parse buf") auto
  qed
qed simp

lemma feed_chunking: "concat cs = concat cs' \<Longrightarrow> feed parse [] cs = feed parse [] cs'"
  by (simp add: feed_eq)

text \<open>A pipelined second request is untouched by the first.\<close>

lemma pipelined:
  assumes "parse d = PS_HTTP_PARSE_OK r n"
  shows "parse (take n d @ rest) = PS_HTTP_PARSE_OK r n"
  using decided_extend [of "take n d" rest] consumed_only [OF assms] by simp

end

lemma find_terminator_append:
  assumes "List.find (is_terminator_at d) [s..<min region (length d) - 3] = Some t"
  shows "List.find (is_terminator_at (d @ x)) [s..<min region (length (d @ x)) - 3] = Some t"
  using assms by (auto simp: find_upt_Some_iff is_terminator_at_append)

lemma find_terminator_None_append:
  assumes "List.find (is_terminator_at d) [s..<min region (length d) - 3] = None" and "region \<le> length d"
  shows "List.find (is_terminator_at (d @ x)) [s..<min region (length (d @ x)) - 3] = None"
  using assms by (auto simp: find_upt_None_iff is_terminator_at_append)

lemma parse_body_append:
  assumes "parse_body limits d a st req \<noteq> PS_HTTP_PARSE_INCOMPLETE" and "a \<le> length d"
  shows "parse_body limits (d @ x) a st req = parse_body limits d a st req"
  using assms by (auto simp: parse_body_def split: option.splits if_splits)

lemma find_crlf_request_line_append:
  "find_crlf d (min (length d) m) 0 = Some e \<Longrightarrow> find_crlf (d @ x) (min (length (d @ x)) m) 0 = Some e"
  by (rule find_crlf_append) auto

lemma find_crlf_request_line_None:
  "find_crlf d (min (length d) m) 0 = None \<Longrightarrow> m \<le> length d \<Longrightarrow>
     find_crlf (d @ x) (min (length (d @ x)) m) 0 = None"
  by (auto simp: find_crlf_None_iff is_crlf_at_append)

text \<open>The three ways a parse can go, with the intermediate results named.\<close>

lemma parse_cases:
  obtains (line_long) "find_crlf d (min (length d) (max_request_line_bytes limits)) 0 = None"
      "max_request_line_bytes limits \<le> length d"
      "ps_http_request_parse limits d = PS_HTTP_PARSE_ERROR PS_HTTP_ERR_LINE_TOO_LONG ''request line too long''"
    | (line_incomplete) "find_crlf d (min (length d) (max_request_line_bytes limits)) 0 = None"
      "length d < max_request_line_bytes limits" "ps_http_request_parse limits d = PS_HTTP_PARSE_INCOMPLETE"
    | (line_bad) e k msg where "find_crlf d (min (length d) (max_request_line_bytes limits)) 0 = Some e"
      "parse_request_line (take e d) = Inl (k, msg)" "ps_http_request_parse limits d = PS_HTTP_PARSE_ERROR k msg"
    | (headers_none) e m p q v where "find_crlf d (min (length d) (max_request_line_bytes limits)) 0 = Some e"
      "parse_request_line (take e d) = Inr (m, (p, q), v)"
      "List.find (is_terminator_at d) [e..<min (e + 2 + max_header_bytes limits + 2) (length d) - 3] = None"
    | (headers) e m p q v t where "find_crlf d (min (length d) (max_request_line_bytes limits)) 0 = Some e"
      "parse_request_line (take e d) = Inr (m, (p, q), v)"
      "List.find (is_terminator_at d) [e..<min (e + 2 + max_header_bytes limits + 2) (length d) - 3] = Some t"
proof (cases "find_crlf d (min (length d) (max_request_line_bytes limits)) 0")
  case None
  then show thesis using that(1,2) by (cases "max_request_line_bytes limits \<le> length d") (auto simp: ps_http_request_parse_def)
next
  case (Some e)
  show thesis
  proof (cases "parse_request_line (take e d)")
    case (Inl a)
    with Some show thesis using that(3) by (cases a) (auto simp: ps_http_request_parse_def)
  next
    case (Inr a)
    with Some that(4,5) show thesis by (metis option.exhaust prod.exhaust)
  qed
qed

lemma parse_decided_extend:
  assumes "ps_http_request_parse limits d \<noteq> PS_HTTP_PARSE_INCOMPLETE"
  shows "ps_http_request_parse limits (d @ x) = ps_http_request_parse limits d"
proof (cases rule: parse_cases [of d limits])
  case line_long
  then show ?thesis using find_crlf_request_line_None [OF line_long(1,2), of x]
    by (simp add: ps_http_request_parse_def)
next
  case line_incomplete
  with assms show ?thesis by simp
next
  case (line_bad e k msg)
  from line_bad(1) have "e \<le> length d" by (simp add: find_crlf_Some_iff)
  then show ?thesis using line_bad find_crlf_request_line_append [OF line_bad(1), of x]
    by (simp add: ps_http_request_parse_def)
next
  case (headers_none e m p q v)
  from headers_none(1) have e: "e \<le> length d" by (simp add: find_crlf_Some_iff)
  from assms headers_none have "e + 2 + max_header_bytes limits + 2 \<le> length d"
    by (auto simp: ps_http_request_parse_def Let_def split: if_splits)
  with find_terminator_None_append [OF headers_none(3) this, of x] headers_none e
    find_crlf_request_line_append [OF headers_none(1), of x] show ?thesis
    by (simp add: ps_http_request_parse_def Let_def)
next
  case (headers e m p q v t)
  from headers(1) have e: "e + 2 \<le> length d" by (simp add: find_crlf_Some_iff)
  from headers(3) have t: "t + 4 \<le> length d" "e \<le> t" by (auto simp: find_upt_Some_iff)
  note eqs = find_crlf_request_line_append [OF headers(1), of x] find_terminator_append [OF headers(3), of x] headers
  have "take (t + 2 - (e + 2)) (drop (e + 2) (d @ x)) = take (t + 2 - (e + 2)) (drop (e + 2) d)"
    using e t by simp
  then show ?thesis using eqs e t assms
    by (auto simp: ps_http_request_parse_def Let_def parse_body_append split: sum.splits)
qed

lemma parse_body_OK:
  assumes "parse_body limits d a st req = PS_HTTP_PARSE_OK r n" and "a \<le> length d"
  shows "\<not> hs_transfer_encoding st" and "a \<le> n" and "n \<le> length d"
    and "n = a + (case hs_content_length st of None \<Rightarrow> 0 | Some k \<Rightarrow> k)"
    and "case hs_content_length st of None \<Rightarrow> r = req | Some k \<Rightarrow> k \<le> max_body_bytes limits \<or> k = 0"
    and "r = (if n = a then req else req\<lparr>req_body := Some (take (n - a) (drop a d))\<rparr>)"
    and "parse_body limits (take n d) a st req = PS_HTTP_PARSE_OK r n"
  using assms by (auto simp: parse_body_def min_def drop_take split: option.splits if_splits)

lemma parse_OK:
  assumes "ps_http_request_parse limits d = PS_HTTP_PARSE_OK r n"
  obtains e m p q v t st where "find_crlf d (min (length d) (max_request_line_bytes limits)) 0 = Some e"
    and "parse_request_line (take e d) = Inr (m, (p, q), v)"
    and "List.find (is_terminator_at d) [e..<min (e + 2 + max_header_bytes limits + 2) (length d) - 3] = Some t"
    and "parse_headers limits header_state_init (take (t + 2 - (e + 2)) (drop (e + 2) d)) = Inr st"
    and "parse_body limits d (t + 4) st \<lparr>req_method = m, req_path = p, req_query = q,
            req_minor_version = v, req_headers = hs_headers st, req_body = None\<rparr> = PS_HTTP_PARSE_OK r n"
    and "t + 4 \<le> length d" and "e \<le> t"
proof (cases rule: parse_cases [of d limits])
  case (headers e m p q v t)
  from headers(3) have t: "t + 4 \<le> length d" "e \<le> t" by (auto simp: find_upt_Some_iff)
  from assms headers obtain st where
    "parse_headers limits header_state_init (take (t + 2 - (e + 2)) (drop (e + 2) d)) = Inr st"
    "parse_body limits d (t + 4) st \<lparr>req_method = m, req_path = p, req_query = q,
            req_minor_version = v, req_headers = hs_headers st, req_body = None\<rparr> = PS_HTTP_PARSE_OK r n"
    by (auto simp: ps_http_request_parse_def Let_def split: sum.splits)
  with headers t that show thesis by blast
qed (use assms in \<open>auto simp: ps_http_request_parse_def Let_def split: if_splits\<close>)

lemma parse_consumed_le: "ps_http_request_parse limits d = PS_HTTP_PARSE_OK r n \<Longrightarrow> n \<le> length d"
  by (erule parse_OK) (rule parse_body_OK(3))

lemma find_crlf_take:
  assumes "find_crlf d (min (length d) m) 0 = Some e" and "e + 2 \<le> n" and "n \<le> length d"
  shows "find_crlf (take n d) (min n m) 0 = Some e"
  using assms by (auto simp: find_crlf_Some_iff is_crlf_at_def)

lemma find_terminator_take:
  assumes "List.find (is_terminator_at d) [s..<min region (length d) - 3] = Some t" and "t + 4 \<le> n" and "n \<le> length d"
  shows "List.find (is_terminator_at (take n d)) [s..<min region n - 3] = Some t"
  using assms by (auto simp: find_upt_Some_iff is_terminator_at_def)

lemma parse_consumed_only:
  assumes "ps_http_request_parse limits d = PS_HTTP_PARSE_OK r n"
  shows "ps_http_request_parse limits (take n d) = PS_HTTP_PARSE_OK r n"
proof -
  from assms obtain e m p q v t st where
    h: "find_crlf d (min (length d) (max_request_line_bytes limits)) 0 = Some e"
      "parse_request_line (take e d) = Inr (m, (p, q), v)"
      "List.find (is_terminator_at d) [e..<min (e + 2 + max_header_bytes limits + 2) (length d) - 3] = Some t"
      "parse_headers limits header_state_init (take (t + 2 - (e + 2)) (drop (e + 2) d)) = Inr st"
    and b: "parse_body limits d (t + 4) st \<lparr>req_method = m, req_path = p, req_query = q,
            req_minor_version = v, req_headers = hs_headers st, req_body = None\<rparr> = PS_HTTP_PARSE_OK r n"
    and t: "t + 4 \<le> length d" "e \<le> t"
    by (rule parse_OK)
  note n = parse_body_OK(2,3) [OF b t(1)] and b' = parse_body_OK(7) [OF b t(1)]
  have len: "length (take n d) = n" using n by simp
  have "find_crlf (take n d) (min n (max_request_line_bytes limits)) 0 = Some e"
    using h(1) n t by (intro find_crlf_take) auto
  moreover have "List.find (is_terminator_at (take n d)) [e..<min (e + 2 + max_header_bytes limits + 2) n - 3] = Some t"
    using h(3) n by (intro find_terminator_take) auto
  moreover have "take e (take n d) = take e d" using n t by (simp add: min_def)
  moreover have "take (t + 2 - (e + 2)) (drop (e + 2) (take n d)) = take (t + 2 - (e + 2)) (drop (e + 2) d)"
    using n t by (simp add: drop_take min_def)
  ultimately show ?thesis
    unfolding ps_http_request_parse_def len using h(2,4) b' by (simp add: Let_def)
qed

interpretation http_request: incremental_parser "ps_http_request_parse limits" for limits
  by unfold_locales (simp_all add: parse_decided_extend parse_consumed_le parse_consumed_only)



subsection \<open>What an accepted request can contain\<close>

definition is_CL :: "ps_http_header_t \<Rightarrow> bool" where
  "is_CL h = header_name_is h ''Content-Length''"

definition is_TE :: "ps_http_header_t \<Rightarrow> bool" where
  "is_TE h = header_name_is h ''Transfer-Encoding''"

text \<open>The invariant of the header loop.\<close>

definition hs_inv :: "ps_http_limits_t \<Rightarrow> header_state \<Rightarrow> bool" where
  "hs_inv limits st \<longleftrightarrow>
     (case hs_content_length st of
        None \<Rightarrow> filter is_CL (hs_headers st) = []
      | Some v \<Rightarrow> \<exists>h. filter is_CL (hs_headers st) = [h] \<and> parse_nonneg_decimal (hdr_value h) = Some v) \<and>
     hs_transfer_encoding st = (\<exists>h \<in> set (hs_headers st). is_TE h) \<and>
     length (hs_headers st) \<le> min PS_HTTP_MAX_HEADERS (max_header_count limits)"

lemma CL_not_TE: "is_CL h \<Longrightarrow> \<not> is_TE h"
  by (auto simp: is_CL_def is_TE_def header_name_is_def ci_equal_def)

lemma add_header_inv: "hs_inv limits st \<Longrightarrow> add_header limits st h = Inr st' \<Longrightarrow> hs_inv limits st'"
  by (auto simp: add_header_def hs_inv_def Let_def is_CL_def [symmetric] is_TE_def [symmetric] CL_not_TE
      split: if_splits option.splits)

lemma parse_headers_inv: "hs_inv limits st \<Longrightarrow> parse_headers limits st block = Inr st' \<Longrightarrow> hs_inv limits st'"
proof (induction limits st block rule: parse_headers.induct)
  case (1 limits st block)
  from "1.prems"(2) show ?case
    using "1.prems"(1) "1.IH" add_header_inv [OF "1.prems"(1)]
    by (subst (asm) parse_headers.simps) (auto split: if_splits option.splits sum.splits)
qed

lemma hs_inv_init: "hs_inv limits header_state_init"
  by (simp add: hs_inv_def header_state_init_def)

lemma parse_OK_framing:
  assumes "ps_http_request_parse limits d = PS_HTTP_PARSE_OK r n"
  shows "\<forall>h \<in> set (req_headers r). \<not> is_TE h"
    and "length (req_headers r) \<le> min PS_HTTP_MAX_HEADERS (max_header_count limits)"
    and "case filter is_CL (req_headers r) of
        [] \<Rightarrow> req_body r = None
      | [h] \<Rightarrow> (\<exists>v. parse_nonneg_decimal (hdr_value h) = Some v \<and> v \<le> max_body_bytes limits \<and>
                 req_body r = (if v = 0 then None else Some (drop (n - v) (take n d))) \<and> v \<le> n)
      | _ \<Rightarrow> False"
proof -
  from assms obtain e m p q v t st where
    ph: "parse_headers limits header_state_init (take (t + 2 - (e + 2)) (drop (e + 2) d)) = Inr st"
    and b: "parse_body limits d (t + 4) st \<lparr>req_method = m, req_path = p, req_query = q,
            req_minor_version = v, req_headers = hs_headers st, req_body = None\<rparr> = PS_HTTP_PARSE_OK r n"
    and t: "t + 4 \<le> length d" "e \<le> t"
    by (rule parse_OK)
  note inv = parse_headers_inv [OF hs_inv_init ph, unfolded hs_inv_def] and B = parse_body_OK [OF b t(1)]
  have hd: "req_headers r = hs_headers st" using B(6) by simp
  show "\<forall>h \<in> set (req_headers r). \<not> is_TE h" using inv B(1) hd by auto
  show "length (req_headers r) \<le> min PS_HTTP_MAX_HEADERS (max_header_count limits)" using inv hd by auto
  show "case filter is_CL (req_headers r) of
        [] \<Rightarrow> req_body r = None
      | [h] \<Rightarrow> (\<exists>v. parse_nonneg_decimal (hdr_value h) = Some v \<and> v \<le> max_body_bytes limits \<and>
                 req_body r = (if v = 0 then None else Some (drop (n - v) (take n d))) \<and> v \<le> n)
      | _ \<Rightarrow> False"
  proof (cases "hs_content_length st")
    case None
    then show ?thesis using inv B(4,6) hd by simp
  next
    case (Some k)
    with inv obtain h where h: "filter is_CL (hs_headers st) = [h]" "parse_nonneg_decimal (hdr_value h) = Some k" by auto
    have "k \<le> max_body_bytes limits" using B(5) Some by auto
    moreover have "n = t + 4 + k" using B(4) Some by simp
    ultimately show ?thesis using h hd B(6) by (auto simp: drop_take)
  qed
qed

text \<open>The branch the source calls impossible: a header line without its CR LF.\<close>

definition ends_crlf :: "bytes \<Rightarrow> bool" where
  "ends_crlf b \<longleftrightarrow> b = [] \<or> 2 \<le> length b \<and> is_crlf_at b (length b - 2)"

lemma ends_crlf_find:
  assumes "ends_crlf b" and "b \<noteq> []"
  obtains h where "find_crlf b (length b) 0 = Some h" and "ends_crlf (drop (h + 2) b)"
proof -
  from assms have b: "2 \<le> length b" "is_crlf_at b (length b - 2)" by (auto simp: ends_crlf_def)
  then have "find_crlf b (length b) 0 \<noteq> None"
    by (auto simp: find_crlf_None_iff intro!: exI [of _ "length b - 2"])
  then obtain h where h: "find_crlf b (length b) 0 = Some h" by auto
  then have hb: "h + 1 < length b" "is_crlf_at b h" "\<And>j. j < h \<Longrightarrow> \<not> is_crlf_at b j" by (auto simp: find_crlf_Some_iff)
  have "h + 1 \<noteq> length b - 2"
  proof
    assume "h + 1 = length b - 2"
    moreover have "b ! (h + 1) = LF" using hb(2) by (simp add: is_crlf_at_def)
    moreover have "b ! (length b - 2) = CR" using b(2) by (simp add: is_crlf_at_def)
    ultimately show False by simp
  qed
  then have "drop (h + 2) b = [] \<or> 2 \<le> length (drop (h + 2) b)" using hb(1) b by auto
  then have "ends_crlf (drop (h + 2) b)"
  proof
    assume "2 \<le> length (drop (h + 2) b)"
    then have "h + 2 + 2 \<le> length b" by simp
    then obtain k where "length b = h + 2 + 2 + k" using le_Suc_ex by blast
    then show ?thesis using b by (auto simp: ends_crlf_def is_crlf_at_def)
  qed (simp add: ends_crlf_def)
  with h show thesis by (rule that)
qed

lemma parse_headers_total:
  "ends_crlf block \<Longrightarrow> parse_headers limits st block \<noteq> Inl (k, ''malformed headers'')"
proof (induction limits st block rule: parse_headers.induct)
  case (1 limits st block)
  show ?case
  proof (cases "block = []")
    case False
    from ends_crlf_find [OF "1.prems" False] obtain h where
      h: "find_crlf block (length block) 0 = Some h" "ends_crlf (drop (h + 2) block)" .
    have "parse_header_line x \<noteq> Inl (k, ''malformed headers'')" for x
      by (auto simp: parse_header_line_def split: option.splits)
    moreover have "add_header limits st x \<noteq> Inl (k, ''malformed headers'')" for x
      by (auto simp: add_header_def Let_def split: option.splits)
    ultimately show ?thesis
      using False h "1.IH" [OF False h(1)] by (subst parse_headers.simps) (auto split: sum.splits)
  qed (simp add: parse_headers.simps)
qed

lemma header_block_ends_crlf:
  assumes "is_crlf_at d e" and "is_terminator_at d t" and "e \<le> t" and "t + 4 \<le> length d"
  shows "ends_crlf (take (t + 2 - (e + 2)) (drop (e + 2) d))"
proof -
  have "t \<noteq> e + 1" using assms(1,2) by (auto simp: is_crlf_at_def is_terminator_at_def)
  then consider "t = e" | "e + 2 \<le> t" using assms(3) by linarith
  then show ?thesis
  proof cases
    case 2
    then obtain k where "t = e + 2 + k" using le_Suc_ex by blast
    then show ?thesis using assms by (auto simp: ends_crlf_def is_crlf_at_def is_terminator_at_def)
  qed (simp add: ends_crlf_def)
qed

lemma parse_never_malformed_headers: "ps_http_request_parse limits d \<noteq> PS_HTTP_PARSE_ERROR k ''malformed headers''"
proof (cases rule: parse_cases [of d limits])
  case (line_bad e k' msg)
  have "parse_request_line x \<noteq> Inl (k, ''malformed headers'')" for x
    by (auto simp: parse_request_line_def Let_def split: option.splits)
  with line_bad show ?thesis by auto
next
  case (headers e m p q v t)
  from headers(3) have t: "t + 4 \<le> length d" "e \<le> t" "is_terminator_at d t" by (auto simp: find_upt_Some_iff)
  from headers(1) have "is_crlf_at d e" by (auto simp: find_crlf_Some_iff)
  from parse_headers_total [OF header_block_ends_crlf [OF this t(3,2,1)]]
  have "parse_headers limits header_state_init (take (t + 2 - (e + 2)) (drop (e + 2) d)) \<noteq> Inl (k, ''malformed headers'')" .
  moreover have "parse_body limits d a st r \<noteq> PS_HTTP_PARSE_ERROR k ''malformed headers''" for a st r
    by (auto simp: parse_body_def split: option.splits)
  ultimately show ?thesis using headers
    by (auto simp: ps_http_request_parse_def Let_def split: sum.splits)
qed (auto simp: ps_http_request_parse_def Let_def)

text \<open>How much a peer can make the server buffer before it decides.\<close>

lemma parse_incomplete_bound:
  assumes "ps_http_request_parse limits d = PS_HTTP_PARSE_INCOMPLETE"
  shows "length d < max_request_line_bytes limits + max_header_bytes limits + 2 + max_body_bytes limits"
proof (cases rule: parse_cases [of d limits])
  case (headers_none e m p q v)
  then have "e + 2 \<le> max_request_line_bytes limits" by (auto simp: find_crlf_Some_iff)
  moreover have "length d < e + 2 + max_header_bytes limits + 2"
    using assms headers_none by (auto simp: ps_http_request_parse_def Let_def split: if_splits)
  ultimately show ?thesis by simp
next
  case (headers e m p q v t)
  then have e: "e + 2 \<le> max_request_line_bytes limits" and t: "t + 4 \<le> e + 2 + max_header_bytes limits + 2"
    by (auto simp: find_crlf_Some_iff find_upt_Some_iff)
  from assms headers obtain st r where "parse_body limits d (t + 4) st r = PS_HTTP_PARSE_INCOMPLETE"
    by (auto simp: ps_http_request_parse_def Let_def split: sum.splits)
  then have "length d < t + 4 + max_body_bytes limits"
    by (auto simp: parse_body_def split: if_splits option.splits)
  with e t show ?thesis by simp
qed (use assms in auto)


subsection \<open>Properties\<close>

definition example_limits :: ps_http_limits_t where
  "example_limits = \<lparr>max_request_line_bytes = 64, max_header_bytes = 128, max_header_count = 8, max_body_bytes = 16\<rparr>"

definition example_request :: bytes where
  "example_request = ''POST /a?b HTTP/1.1'' @ [CR, LF] @ ''Host: x'' @ [CR, LF] @ ''Content-Length: 2'' @ [CR, LF, CR, LF] @ ''hi''"

definition example_parsed :: ps_http_request_t where
  "example_parsed = \<lparr>req_method = ''POST'', req_path = ''/a'', req_query = Some ''b'', req_minor_version = 1,
     req_headers = [\<lparr>hdr_name = ''Host'', hdr_value = ''x''\<rparr>, \<lparr>hdr_name = ''Content-Length'', hdr_value = ''2''\<rparr>],
     req_body = Some ''hi''\<rparr>"

lemma example_request_parses: "ps_http_request_parse example_limits example_request = PS_HTTP_PARSE_OK example_parsed 52"
  by code_simp

text \<open>How a request is cut into TCP segments does not matter: re-parsing the buffer as each chunk
  arrives, as the connection loop does, ends with the result of parsing all the bytes at once.\<close>

theorem request_chunking_irrelevant:
  "feed (ps_http_request_parse limits) [] cs = ps_http_request_parse limits (concat cs)"
  using http_request.feed_eq [of limits "[]" cs] by simp

text \<open>A decision of the parser is final and looks only at its own bytes: an accepted request
  consumes at most the bytes given, is accepted again from those bytes with any bytes after them, and
  no bytes after an accepted or refused request change the verdict. Pipelined requests cannot
  influence each other.\<close>

theorem request_decision_final:
  assumes "ps_http_request_parse limits d = PS_HTTP_PARSE_OK r n"
  shows "n \<le> length d \<and> ps_http_request_parse limits (take n d @ rest) = PS_HTTP_PARSE_OK r n \<and>
    (\<forall>k msg e. ps_http_request_parse limits e = PS_HTTP_PARSE_ERROR k msg \<longrightarrow>
       ps_http_request_parse limits (e @ rest) = PS_HTTP_PARSE_ERROR k msg)"
  using http_request.consumed_le [OF assms] http_request.pipelined [OF assms] http_request.decided_extend
  by auto

definition example_bad_request :: bytes where
  "example_bad_request = ''G@T / HTTP/1.1'' @ [CHR 0x0D, CHR 0x0A]"

lemma example_request_refused: "\<exists>k msg. ps_http_request_parse example_limits example_bad_request = PS_HTTP_PARSE_ERROR k msg"
proof -
  have "case ps_http_request_parse example_limits example_bad_request of PS_HTTP_PARSE_ERROR k msg \<Rightarrow> True | _ \<Rightarrow> False" by code_simp
  then show ?thesis by (auto split: ps_http_parse_result_t.splits)
qed

theorem request_decision_final_witness:
  "ps_http_request_parse example_limits (take 52 example_request @ ''GET'') = PS_HTTP_PARSE_OK example_parsed 52 \<and>
    (\<exists>k msg. ps_http_request_parse example_limits (example_bad_request @ ''GET'') = PS_HTTP_PARSE_ERROR k msg)"
  using request_decision_final [OF example_request_parses, of "''GET''"] example_request_refused by blast

text \<open>C24. Request smuggling is excluded at the framing level: an accepted request has no
  Transfer-Encoding header, at most one Content-Length, which is a plain decimal within the body limit,
  and its body is exactly the last that many bytes consumed; without Content-Length it has no body. The
  number of headers is within both limits.\<close>

theorem accepted_request_framing:
  assumes "ps_http_request_parse limits d = PS_HTTP_PARSE_OK r n"
  shows "filter is_TE (req_headers r) = [] \<and>
    length (req_headers r) \<le> min PS_HTTP_MAX_HEADERS (max_header_count limits) \<and>
    (case filter is_CL (req_headers r) of
        [] \<Rightarrow> req_body r = None
      | [h] \<Rightarrow> (\<exists>v. parse_nonneg_decimal (hdr_value h) = Some v \<and> v \<le> max_body_bytes limits \<and>
                 req_body r = (if v = 0 then None else Some (drop (n - v) (take n d))) \<and> v \<le> n)
      | _ \<Rightarrow> False)"
  using parse_OK_framing [OF assms] by (simp add: filter_empty_conv)

theorem accepted_request_framing_witness:
  "filter is_TE (req_headers example_parsed) = [] \<and>
    length (req_headers example_parsed) \<le> min PS_HTTP_MAX_HEADERS (max_header_count example_limits) \<and>
    (case filter is_CL (req_headers example_parsed) of
        [] \<Rightarrow> req_body example_parsed = None
      | [h] \<Rightarrow> (\<exists>v. parse_nonneg_decimal (hdr_value h) = Some v \<and> v \<le> max_body_bytes example_limits \<and>
                 req_body example_parsed = (if v = 0 then None else Some (drop (52 - v) (take 52 example_request))) \<and> v \<le> 52)
      | _ \<Rightarrow> False)"
  by (rule accepted_request_framing [OF example_request_parses])



end
