(* ===== verification/Router.thy ===== *)
theory Router
  imports Prelude
begin

text \<open>
  Method and path routing (\<^verbatim>\<open>src/src/http/router.c\<close>, \<^verbatim>\<open>router.h\<close>). \<open>match_path\<close> walks the pattern and
  the path together, segment by segment, as the source does with its two cursors; \<open>segments\<close> and
  \<open>match_segments\<close> give the specification it is shown to implement. A route parameter is its name
  and value.
\<close>

definition PS_ROUTER_MAX_ROUTES :: nat where "PS_ROUTER_MAX_ROUTES = 32"
definition PS_ROUTE_METHOD_MAX :: nat where "PS_ROUTE_METHOD_MAX = 8"
definition PS_ROUTE_PATTERN_MAX :: nat where "PS_ROUTE_PATTERN_MAX = 128"
definition PS_ROUTE_MAX_PARAMS :: nat where "PS_ROUTE_MAX_PARAMS = 4"

type_synonym ps_route_params_t = "(bytes \<times> bytes) list"

record ps_route_entry_t =
  re_method :: bytes
  re_pattern :: bytes
  re_route_id :: nat

type_synonym ps_router_t = "ps_route_entry_t list"

datatype ps_route_match_result_t =
    PS_ROUTE_MATCH nat ps_route_params_t
  | PS_ROUTE_NOT_FOUND
  | PS_ROUTE_METHOD_NOT_ALLOWED

definition ps_router_init :: ps_router_t where
  "ps_router_init = []"

definition ps_router_add :: "ps_router_t \<Rightarrow> bytes \<Rightarrow> bytes \<Rightarrow> nat \<Rightarrow> bytes + ps_router_t" where
  "ps_router_add router method pattern route_id =
     (let m = cstr method; p = cstr pattern in
      if PS_ROUTER_MAX_ROUTES \<le> length router then Inl ''router is full (max 32 routes)''
      else if m = [] \<or> PS_ROUTE_METHOD_MAX \<le> length m then
        Inl (''invalid method '' @ [CHR 0x27] @ m @ [CHR 0x27])
      else if p = [] \<or> PS_ROUTE_PATTERN_MAX \<le> length p \<or> hd p \<noteq> CHR ''/'' then
        Inl (''invalid route pattern '' @ [CHR 0x27] @ p @ [CHR 0x27])
      else Inr (router @ [\<lparr>re_method = m, re_pattern = p, re_route_id = route_id\<rparr>]))"

definition seg_of :: "bytes \<Rightarrow> bytes" where
  "seg_of s = takeWhile (\<lambda>c. c \<noteq> CHR ''/'') s"

definition after_seg :: "bytes \<Rightarrow> bytes" where
  "after_seg s = dropWhile (\<lambda>c. c \<noteq> CHR ''/'') s"

definition is_capture :: "bytes \<Rightarrow> bool" where
  "is_capture seg \<longleftrightarrow> 2 \<le> length seg \<and> hd seg = CHR ''{'' \<and> last seg = CHR ''}''"

definition capture_name :: "bytes \<Rightarrow> bytes" where
  "capture_name seg = butlast (tl seg)"

text \<open>The captured parameters on a match, \<open>None\<close> otherwise.\<close>

function match_path :: "bytes \<Rightarrow> bytes \<Rightarrow> ps_route_params_t \<Rightarrow> ps_route_params_t option" where
  "match_path pattern path params =
     (if (pattern = []) \<noteq> (path = []) then None
      else if pattern = [] then Some params
      else if hd pattern \<noteq> CHR ''/'' \<or> hd path \<noteq> CHR ''/'' then None
      else
        let pat_seg = seg_of (tl pattern); path_seg = seg_of (tl path)
        in if is_capture pat_seg then
             if path_seg = [] then None
             else if PS_ROUTE_MAX_PARAMS \<le> length params then None
             else match_path (after_seg (tl pattern)) (after_seg (tl path))
                    (params @ [(capture_name pat_seg, path_seg)])
           else if pat_seg \<noteq> path_seg then None
           else match_path (after_seg (tl pattern)) (after_seg (tl path)) params)"
  by pat_completeness auto
termination
proof (relation "measure (\<lambda>(p, _, _). length p)", goal_cases)
  case 1
  show ?case by simp
next
  case (2 pattern path params)
  then show ?case
    by (cases pattern) (auto simp: after_seg_def intro: le_imp_less_Suc [OF length_dropWhile_le])
next
  case (3 pattern path params)
  then show ?case
    by (cases pattern) (auto simp: after_seg_def intro: le_imp_less_Suc [OF length_dropWhile_le])
qed

declare match_path.simps [simp del]

fun router_match :: "ps_router_t \<Rightarrow> bytes \<Rightarrow> bytes \<Rightarrow> bool \<Rightarrow> ps_route_match_result_t" where
  "router_match [] method path matched = (if matched then PS_ROUTE_METHOD_NOT_ALLOWED else PS_ROUTE_NOT_FOUND)"
| "router_match (r # rs) method path matched =
     (case match_path (re_pattern r) path [] of
        None \<Rightarrow> router_match rs method path matched
      | Some params \<Rightarrow>
          if re_method r = method then PS_ROUTE_MATCH (re_route_id r) params
          else router_match rs method path True)"

definition ps_router_match :: "ps_router_t \<Rightarrow> bytes \<Rightarrow> bytes \<Rightarrow> ps_route_match_result_t" where
  "ps_router_match router method path = router_match router method path False"

definition ps_route_params_get :: "ps_route_params_t \<Rightarrow> bytes \<Rightarrow> bytes option" where
  "ps_route_params_get params name = map_option snd (List.find (\<lambda>p. fst p = cstr name) params)"


subsection \<open>Specification: matching lists of segments\<close>

text \<open>The segments of a path that starts with a slash (or is empty); \<open>None\<close> for any other.\<close>

function segments :: "bytes \<Rightarrow> bytes list option" where
  "segments [] = Some []"
| "segments (c # s) = (if c \<noteq> CHR ''/'' then None else map_option ((#) (seg_of s)) (segments (after_seg s)))"
  by pat_completeness auto
termination
  by (relation "measure length") (auto simp: after_seg_def intro: le_imp_less_Suc [OF length_dropWhile_le])

definition seg_matches :: "bytes \<Rightarrow> bytes \<Rightarrow> bool" where
  "seg_matches pat seg = (if is_capture pat then seg \<noteq> [] else pat = seg)"

definition captures :: "bytes list \<Rightarrow> bytes list \<Rightarrow> ps_route_params_t" where
  "captures pats segs = map (\<lambda>(p, s). (capture_name p, s)) (filter (is_capture \<circ> fst) (zip pats segs))"

definition match_segments :: "bytes list \<Rightarrow> bytes list \<Rightarrow> bool" where
  "match_segments pats segs \<longleftrightarrow> list_all2 seg_matches pats segs"

lemma segments_eq_None_or_slash: "segments (after_seg s) \<noteq> None"
proof (induction s rule: measure_induct_rule [of length])
  case (less s)
  show ?case
  proof (cases "after_seg s")
    case (Cons c r)
    then have "c = CHR ''/''" by (simp add: after_seg_def dropWhile_eq_Cons_conv)
    moreover have "length r < length s"
      using length_dropWhile_le [of "\<lambda>c. c \<noteq> CHR ''/''" s] Cons by (simp add: after_seg_def)
    ultimately show ?thesis using less Cons by auto
  qed simp
qed

lemma match_path_spec:
  assumes "segments pattern = Some pats" and "length params \<le> PS_ROUTE_MAX_PARAMS"
  shows "match_path pattern path params =
    (case segments path of
       None \<Rightarrow> None
     | Some segs \<Rightarrow>
         if match_segments pats segs \<and> length params + length (captures pats segs) \<le> PS_ROUTE_MAX_PARAMS
         then Some (params @ captures pats segs) else None)"
  using assms
proof (induction pattern path params arbitrary: pats rule: match_path.induct)
  case (1 pattern path params)
  show ?case
  proof (cases pattern)
    case Nil
    with 1 show ?thesis
      by (cases path) (auto simp: match_path.simps match_segments_def captures_def split: option.splits)
  next
    case (Cons c pr)
    with "1.prems"(1) obtain pats' where c: "c = CHR ''/''" and p: "segments (after_seg pr) = Some pats'"
      and pats: "pats = seg_of pr # pats'" by (auto split: if_splits)
    show ?thesis
    proof (cases path)
      case Nil
      with Cons c pats show ?thesis by (simp add: match_path.simps match_segments_def)
    next
      case (Cons d qr)
      show ?thesis
      proof (cases "d = CHR ''/''")
        case False
        with Cons \<open>pattern = c # pr\<close> c show ?thesis by (simp add: match_path.simps)
      next
        case True
        obtain segs where segs: "segments (after_seg qr) = Some segs"
          using segments_eq_None_or_slash [of qr] by auto
        show ?thesis
          using Cons True \<open>pattern = c # pr\<close> c pats segs "1.IH" [of "seg_of pr" "seg_of qr" pats'] p "1.prems"(2)
          by (subst match_path.simps)
            (auto simp: Let_def match_segments_def seg_matches_def captures_def PS_ROUTE_MAX_PARAMS_def)
      qed
    qed
  qed
qed


text \<open>The first registered route that fits the method and the path wins.\<close>

lemma router_match_eq:
  "router_match rs method path matched =
     (case List.find (\<lambda>r. match_path (re_pattern r) path [] \<noteq> None \<and> re_method r = method) rs of
        Some r \<Rightarrow> PS_ROUTE_MATCH (re_route_id r) (the (match_path (re_pattern r) path []))
      | None \<Rightarrow> if matched \<or> (\<exists>r \<in> set rs. match_path (re_pattern r) path [] \<noteq> None)
                then PS_ROUTE_METHOD_NOT_ALLOWED else PS_ROUTE_NOT_FOUND)"
  by (induction rs arbitrary: matched) (auto split: option.splits)

lemma ps_router_add_wf:
  assumes "ps_router_add router m p i = Inr router'"
  shows "length router' \<le> PS_ROUTER_MAX_ROUTES" and "segments (cstr p) \<noteq> None"
proof -
  from assms have p: "cstr p \<noteq> []" "hd (cstr p) = CHR ''/''" and l: "length router' \<le> PS_ROUTER_MAX_ROUTES"
    by (auto simp: ps_router_add_def Let_def split: if_splits)
  from l show "length router' \<le> PS_ROUTER_MAX_ROUTES" .
  from p have "after_seg (cstr p) = cstr p" by (cases "cstr p") (auto simp: after_seg_def)
  then show "segments (cstr p) \<noteq> None" using segments_eq_None_or_slash [of "cstr p"] by simp
qed


subsection \<open>Properties\<close>

text \<open>What a route pattern accepts, by segments.\<close>

definition route_params :: "ps_route_entry_t \<Rightarrow> bytes \<Rightarrow> ps_route_params_t option" where
  "route_params r path =
     (case (segments (re_pattern r), segments path) of
        (Some pats, Some segs) \<Rightarrow>
          if match_segments pats segs \<and> length (captures pats segs) \<le> PS_ROUTE_MAX_PARAMS
          then Some (captures pats segs) else None
      | _ \<Rightarrow> None)"

lemma match_path_route_params:
  "segments (re_pattern r) \<noteq> None \<Longrightarrow> match_path (re_pattern r) path [] = route_params r path"
  using match_path_spec [of "re_pattern r" _ "[]" path] by (auto simp: route_params_def split: option.splits)

text \<open>C30. The router does what its segment-wise specification says: the first registered route whose
  pattern accepts the path segment by segment and whose method is the request's is chosen, with the
  captured segments as parameters; if only the method differs the answer is 405, otherwise 404.\<close>

theorem router_match_spec:
  assumes "\<forall>r \<in> set router. segments (re_pattern r) \<noteq> None"
  shows "ps_router_match router method path =
    (case List.find (\<lambda>r. route_params r path \<noteq> None \<and> re_method r = method) router of
       Some r \<Rightarrow> PS_ROUTE_MATCH (re_route_id r) (the (route_params r path))
     | None \<Rightarrow> if \<exists>r \<in> set router. route_params r path \<noteq> None then PS_ROUTE_METHOD_NOT_ALLOWED else PS_ROUTE_NOT_FOUND)"
proof -
  have eq: "\<And>r. r \<in> set router \<Longrightarrow> match_path (re_pattern r) path [] = route_params r path"
    using assms match_path_route_params by blast
  then have f: "List.find (\<lambda>r. match_path (re_pattern r) path [] \<noteq> None \<and> re_method r = method) router =
      List.find (\<lambda>r. route_params r path \<noteq> None \<and> re_method r = method) router"
    by (intro find_cong) auto
  have m: "r \<in> set router" if "List.find P router = Some r" for P r
    using that by (auto simp: find_Some_iff)
  show ?thesis
    unfolding ps_router_match_def router_match_eq f using eq by (auto split: option.splits dest: m)
qed

definition example_router :: ps_router_t where
  "example_router =
    [\<lparr>re_method = ''GET'', re_pattern = ''/v1/users'', re_route_id = 1\<rparr>,
     \<lparr>re_method = ''GET'', re_pattern = ''/v1/users/{id}'', re_route_id = 2\<rparr>]"

theorem router_match_spec_witness:
  "ps_router_match example_router ''GET'' ''/v1/users/7'' = PS_ROUTE_MATCH 2 [(''id'', ''7'')] \<and>
   ps_router_match example_router ''PUT'' ''/v1/users/7'' = PS_ROUTE_METHOD_NOT_ALLOWED"
proof -
  have ok: "\<forall>r \<in> set example_router. segments (re_pattern r) \<noteq> None" by code_simp
  show ?thesis unfolding router_match_spec [OF ok] by code_simp
qed

text \<open>Registration keeps the table well formed, which is what the specification of matching
  needs: the table never exceeds its capacity and every pattern in it is a sequence of segments.\<close>

theorem router_add_wf:
  assumes "\<forall>r \<in> set router. segments (re_pattern r) \<noteq> None" and "ps_router_add router m p i = Inr router'"
  shows "(\<forall>r \<in> set router'. segments (re_pattern r) \<noteq> None) \<and> length router' \<le> PS_ROUTER_MAX_ROUTES \<and>
    set router \<subseteq> set router'"
  using ps_router_add_wf [OF assms(2)] assms by (auto simp: ps_router_add_def Let_def split: if_splits)

theorem router_add_wf_witness:
  "segments (re_pattern (hd example_router)) \<noteq> None \<and> length (take 1 example_router) \<le> PS_ROUTER_MAX_ROUTES"
proof -
  have add: "ps_router_add [] ''GET'' ''/v1/users'' 1 = Inr (take 1 example_router)" by code_simp
  have "hd example_router \<in> set (take 1 example_router)" by code_simp
  with router_add_wf [OF _ add] show ?thesis by (metis empty_iff empty_set)
qed

end
