(* ===== verification/Cors.thy ===== *)
theory Cors
  imports Prelude
begin

text \<open>
  The CORS origin allowlist (\<^verbatim>\<open>src/src/http/cors.c\<close>, \<^verbatim>\<open>cors.h\<close>). The comma-separated list, which the
  source splits in place, is read into the list of its origins.
\<close>

definition PS_CORS_MAX_ORIGINS :: nat where "PS_CORS_MAX_ORIGINS = 16"

record ps_cors_policy_t =
  cors_origins :: "bytes list"
  cors_credentials :: bool

definition is_blank :: "byte \<Rightarrow> bool" where
  "is_blank c \<longleftrightarrow> c = CHR '' '' \<or> c = CHR 0x09"

definition cors_sep :: "byte \<Rightarrow> bool" where
  "cors_sep c \<longleftrightarrow> c = CHR '','' \<or> is_blank c"

definition rtrim_blank :: "bytes \<Rightarrow> bytes" where
  "rtrim_blank s = rev (dropWhile is_blank (rev s))"

lemma tl_dropWhile_less: "dropWhile Q c \<noteq> [] \<Longrightarrow> length (tl (dropWhile P (dropWhile Q c))) < length c"
proof -
  assume "dropWhile Q c \<noteq> []"
  then have "0 < length c" by (cases c) auto
  moreover have "length (dropWhile P (dropWhile Q c)) \<le> length c"
    using length_dropWhile_le [of P "dropWhile Q c"] length_dropWhile_le [of Q c] by linarith
  ultimately show ?thesis by (simp only: length_tl)
qed

function cors_scan :: "bool \<Rightarrow> bytes list \<Rightarrow> bytes \<Rightarrow> bytes + bytes list" where
  "cors_scan creds origins cursor =
     (let c1 = dropWhile cors_sep cursor in
      if c1 = [] then Inr origins
      else
        let start = rtrim_blank (takeWhile (\<lambda>c. c \<noteq> CHR '','') c1);
            c2 = tl (dropWhile (\<lambda>c. c \<noteq> CHR '','') c1)
        in if start = [] then cors_scan creds origins c2
           else if creds \<and> start = ''*'' then
             Inl (''origin '' @ [CHR 0x27, CHR ''*'', CHR 0x27] @
               '' combined with allow_credentials=true is refused (plan 7.2a)'')
           else if PS_CORS_MAX_ORIGINS \<le> length origins then Inl ''too many CORS origins (max 16)''
           else cors_scan creds (origins @ [start]) c2)"
  by pat_completeness auto
termination
proof (relation "measure (\<lambda>(_, _, c). length c)", goal_cases)
  case 1
  show ?case by simp
next
  case (2 creds origins cursor c1 start c2)
  then show ?case using tl_dropWhile_less by simp
next
  case (3 creds origins cursor c1 start c2)
  then show ?case using tl_dropWhile_less by simp
qed

declare cors_scan.simps [simp del]

definition ps_cors_policy_init :: "bytes \<Rightarrow> bool \<Rightarrow> bytes + ps_cors_policy_t" where
  "ps_cors_policy_init origins_csv allow_credentials =
     (case cors_scan allow_credentials [] (cstr origins_csv) of
        Inl e \<Rightarrow> Inl e
      | Inr os \<Rightarrow> Inr \<lparr>cors_origins = os, cors_credentials = allow_credentials\<rparr>)"

text \<open>\<^verbatim>\<open>NULL\<close> is a policy that is off.\<close>

definition ps_cors_enabled :: "ps_cors_policy_t option \<Rightarrow> bool" where
  "ps_cors_enabled policy = (case policy of None \<Rightarrow> False | Some p \<Rightarrow> cors_origins p \<noteq> [])"

definition ps_cors_origin_allowed :: "ps_cors_policy_t option \<Rightarrow> bytes \<Rightarrow> bool" where
  "ps_cors_origin_allowed policy origin =
     (case policy of None \<Rightarrow> False | Some p \<Rightarrow> origin \<in> set (cors_origins p))"

lemma cors_scan_inv:
  assumes "cors_scan creds os cursor = Inr os'" and "length os \<le> PS_CORS_MAX_ORIGINS"
    and "creds \<longrightarrow> ''*'' \<notin> set os" and "\<forall>s \<in> set os. s \<noteq> [] \<and> CHR '','' \<notin> set s"
  shows "length os' \<le> PS_CORS_MAX_ORIGINS \<and> (creds \<longrightarrow> ''*'' \<notin> set os') \<and>
    (\<forall>s \<in> set os'. s \<noteq> [] \<and> CHR '','' \<notin> set s)"
  using assms
proof (induction creds os cursor rule: cors_scan.induct)
  case (1 creds origins cursor)
  define c1 where "c1 = dropWhile cors_sep cursor"
  define start where "start = rtrim_blank (takeWhile (\<lambda>c. c \<noteq> CHR '','') c1)"
  have "set start \<subseteq> set (takeWhile (\<lambda>c. c \<noteq> CHR '','') c1)"
    by (auto simp: start_def rtrim_blank_def dest: set_dropWhileD)
  moreover have "CHR '','' \<notin> set (takeWhile (\<lambda>c. c \<noteq> CHR '','') c1)" using set_takeWhileD by fastforce
  ultimately have comma: "CHR '','' \<notin> set start" by blast
  note eq = cors_scan.simps [of creds origins cursor, unfolded Let_def, folded c1_def, folded start_def]
  note IH = "1.IH" [OF c1_def _ start_def refl]
  show ?case
  proof (cases "c1 = []")
    case True
    then show ?thesis using "1.prems" unfolding eq by simp
  next
    case False
    show ?thesis
    proof (cases "start = []")
      case True
      with False "1.prems"(1) have "cors_scan creds origins (tl (dropWhile (\<lambda>c. c \<noteq> CHR '','') c1)) = Inr os'"
        unfolding eq by (simp only: if_False if_True simp_thms)
      from IH(1) [OF False True this "1.prems"(2-4)] show ?thesis .
    next
      case s: False
      with False "1.prems"(1) have ok: "\<not> (creds \<and> start = ''*'')" "\<not> PS_CORS_MAX_ORIGINS \<le> length origins"
        "cors_scan creds (origins @ [start]) (tl (dropWhile (\<lambda>c. c \<noteq> CHR '','') c1)) = Inr os'"
        unfolding eq by (simp_all split: if_splits)
      show ?thesis
        by (rule IH(2) [OF False s ok(1,2,3)]) (use "1.prems" ok s comma in auto)
    qed
  qed
qed


subsection \<open>Properties\<close>

text \<open>A policy that is accepted never allows the wildcard origin together with credentials, and
  lists at most 16 origins, none of them empty. An origin is allowed only if it is literally one of
  them.\<close>

theorem cors_policy_safe:
  assumes "ps_cors_policy_init csv creds = Inr policy"
  shows "(cors_credentials policy \<longrightarrow> \<not> ps_cors_origin_allowed (Some policy) ''*'') \<and>
    length (cors_origins policy) \<le> PS_CORS_MAX_ORIGINS \<and> \<not> ps_cors_origin_allowed (Some policy) []"
proof -
  from assms obtain os where "cors_scan creds [] (cstr csv) = Inr os"
    and p: "policy = \<lparr>cors_origins = os, cors_credentials = creds\<rparr>"
    by (auto simp: ps_cors_policy_init_def split: sum.splits)
  from cors_scan_inv [OF this(1)] p show ?thesis by (auto simp: ps_cors_origin_allowed_def)
qed

theorem cors_policy_safe_witness:
  "\<not> ps_cors_origin_allowed (Some \<lparr>cors_origins = [''https://a'', ''https://b''], cors_credentials = True\<rparr>) ''*'' \<and>
    length [''https://a'', ''https://b''] \<le> PS_CORS_MAX_ORIGINS \<and>
    \<not> ps_cors_origin_allowed (Some \<lparr>cors_origins = [''https://a'', ''https://b''], cors_credentials = True\<rparr>) []"
proof -
  have "ps_cors_policy_init '' https://a ,, https://b'' True =
      Inr \<lparr>cors_origins = [''https://a'', ''https://b''], cors_credentials = True\<rparr>" by code_simp
  from cors_policy_safe [OF this] show ?thesis by simp
qed

end
