(* ===== verification/Response.thy ===== *)
theory Response
  imports Json_Write
begin

text \<open>
  The response writer (\<^verbatim>\<open>src/src/http/response.c\<close>, \<^verbatim>\<open>response.h\<close>): the bytes it appends to the
  output buffer, or \<open>None\<close> where it returns false (the JSON body is refused, or one of the lines
  does not fit its fixed buffer).
\<close>

abbreviation CRLF :: bytes where "CRLF \<equiv> [CHR 0x0D, CHR 0x0A]"

record ps_http_response_t =
  resp_status :: nat
  resp_keep_alive :: bool
  resp_no_store :: bool
  resp_json_body :: "json option"
  resp_cors_origin :: "bytes option"
  resp_cors_allow_credentials :: bool
  resp_cors_allow_methods :: "bytes option"
  resp_cors_allow_headers :: "bytes option"

definition reason_phrase :: "nat \<Rightarrow> bytes" where
  "reason_phrase status =
     (if status = 200 then ''OK''
      else if status = 202 then ''Accepted''
      else if status = 204 then ''No Content''
      else if status = 400 then ''Bad Request''
      else if status = 401 then ''Unauthorized''
      else if status = 403 then ''Forbidden''
      else if status = 404 then ''Not Found''
      else if status = 405 then ''Method Not Allowed''
      else if status = 409 then ''Conflict''
      else if status = 413 then ''Payload Too Large''
      else if status = 429 then ''Too Many Requests''
      else if status = 500 then ''Internal Server Error''
      else if status = 501 then ''Not Implemented''
      else if status = 503 then ''Service Unavailable''
      else ''Unknown'')"

text \<open>\<^verbatim>\<open>snprintf\<close> into a buffer of \<open>cap\<close> bytes, with the truncation check.\<close>

definition fits :: "nat \<Rightarrow> bytes \<Rightarrow> bytes option" where
  "fits cap s = (if cap \<le> length s then None else Some s)"

definition opt_line :: "bytes \<Rightarrow> bytes option \<Rightarrow> bytes list" where
  "opt_line name v = (case v of None \<Rightarrow> [] | Some s \<Rightarrow> [name @ cstr s])"

definition lines_text :: "bytes list \<Rightarrow> bytes" where
  "lines_text ls = concat (map (\<lambda>l. l @ CRLF) ls)"

text \<open>The \<^verbatim>\<open>Access-Control-*\<close> header lines, all conditional on \<^verbatim>\<open>cors_origin\<close>.\<close>

definition cors_lines :: "ps_http_response_t \<Rightarrow> bytes list option" where
  "cors_lines resp =
     (case resp_cors_origin resp of
        None \<Rightarrow> Some []
      | Some origin \<Rightarrow>
          let ls = [''Access-Control-Allow-Origin: '' @ cstr origin, ''Vary: Origin''] in
          if fits 320 (lines_text ls) = None then None
          else Some (ls @
            (if resp_cors_allow_credentials resp then [''Access-Control-Allow-Credentials: true''] else []) @
            opt_line ''Access-Control-Allow-Methods: '' (resp_cors_allow_methods resp) @
            opt_line ''Access-Control-Allow-Headers: '' (resp_cors_allow_headers resp)))"

definition status_line :: "nat \<Rightarrow> bytes" where
  "status_line status = ''HTTP/1.1 '' @ show_nat status @ '' '' @ reason_phrase status"

definition content_length_line :: "nat \<Rightarrow> bytes" where
  "content_length_line n = ''Content-Length: '' @ show_nat n"

definition response_lines :: "ps_http_response_t \<Rightarrow> nat \<Rightarrow> bytes list \<Rightarrow> bytes list" where
  "response_lines resp body_len cors =
     [status_line (resp_status resp)] @
     (if resp_json_body resp \<noteq> None then [''Content-Type: application/json''] else []) @
     [content_length_line body_len,
      (if resp_keep_alive resp then ''Connection: keep-alive'' else ''Connection: close''),
      ''X-Content-Type-Options: nosniff''] @
     (if resp_no_store resp then [''Cache-Control: no-store''] else []) @ cors"

definition ps_http_response_write :: "ps_http_response_t \<Rightarrow> bytes option" where
  "ps_http_response_write resp =
     (case (case resp_json_body resp of None \<Rightarrow> Some [] | Some v \<Rightarrow> ps_json_write v) of
        None \<Rightarrow> None
      | Some body \<Rightarrow>
          if fits 64 (lines_text [status_line (resp_status resp)]) = None then None
          else if fits 64 (lines_text [content_length_line (length body)]) = None then None
          else map_option (\<lambda>cors. lines_text (response_lines resp (length body) cors) @ CRLF @ body)
                 (cors_lines resp))"

definition ps_error_envelope :: "bytes \<Rightarrow> bytes \<Rightarrow> json" where
  "ps_error_envelope code message =
     (let inner = ps_json_object_set (ps_json_object_set (JObject []) ''code'' (JString (cstr code)))
                    ''message'' (JString (cstr message))
      in ps_json_object_set (JObject []) ''error'' inner)"

definition plain_response :: "nat \<Rightarrow> bool \<Rightarrow> bool \<Rightarrow> json option \<Rightarrow> ps_http_response_t" where
  "plain_response status keep_alive no_store body =
     \<lparr>resp_status = status, resp_keep_alive = keep_alive, resp_no_store = no_store, resp_json_body = body,
      resp_cors_origin = None, resp_cors_allow_credentials = False,
      resp_cors_allow_methods = None, resp_cors_allow_headers = None\<rparr>"

definition ps_http_response_write_error :: "nat \<Rightarrow> bytes \<Rightarrow> bytes \<Rightarrow> bool \<Rightarrow> bytes option" where
  "ps_http_response_write_error status code message keep_alive =
     ps_http_response_write (plain_response status keep_alive True (Some (ps_error_envelope code message)))"

lemma error_envelope_eq:
  "ps_error_envelope code message =
     JObject [(''error'', JObject [(''code'', JString (cstr code)), (''message'', JString (cstr message))])]"
  by (simp add: ps_error_envelope_def Let_def cstr_def)

lemma error_envelope_ok: "json_ok 1 (ps_error_envelope code message)"
  by (simp add: error_envelope_eq PS_JSON_MAX_DEPTH_def)

lemma reason_phrase_length: "length (reason_phrase s) \<le> 21"
  by (simp add: reason_phrase_def)

text \<open>
  A client reads the response back as the lines that were written: it finds the end of the headers
  at the first empty line, and behind it the body of the announced length.
\<close>

fun split_head :: "bytes \<Rightarrow> bytes list \<Rightarrow> bytes \<Rightarrow> (bytes list \<times> bytes) option" where
  "split_head line ls (a # b # r) =
     (if a = CHR 0x0D \<and> b = CHR 0x0A then
        (if line = [] then Some (ls, r) else split_head [] (ls @ [line]) r)
      else split_head (line @ [a]) ls (b # r))"
| "split_head line ls _ = None"

lemma split_head_line:
  "CHR 0x0D \<notin> set l \<Longrightarrow> line @ l \<noteq> [] \<Longrightarrow>
     split_head line ls (l @ CRLF @ r) = split_head [] (ls @ [line @ l]) r"
proof (induction l arbitrary: line)
  case (Cons a l)
  then have "split_head (line @ [a]) ls (l @ CRLF @ r) = split_head [] (ls @ [line @ a # l]) r" by simp
  moreover have "split_head line ls (a # l @ CRLF @ r) = split_head (line @ [a]) ls (l @ CRLF @ r)"
    using Cons.prems by (cases l) auto
  ultimately show ?case by simp
qed simp

lemma split_head_lines:
  "\<forall>l \<in> set ls. l \<noteq> [] \<and> CHR 0x0D \<notin> set l \<Longrightarrow>
     split_head [] acc (lines_text ls @ CRLF @ body) = Some (acc @ ls, body)"
proof (induction ls arbitrary: acc)
  case (Cons l ls)
  then show ?case
    using split_head_line [of l "[]" acc "lines_text ls @ CRLF @ body"] by (simp add: lines_text_def)
qed (simp add: lines_text_def)

lemma show_nat_no_CR: "CHR 0x0D \<notin> set (show_nat n)"
  using show_nat_digits [of n] by (auto simp: list_all_iff c_isdigit_def)

lemma reason_no_CR: "CHR 0x0D \<notin> set (reason_phrase s)"
  by (simp add: reason_phrase_def)

definition no_CR :: "bytes option \<Rightarrow> bool" where
  "no_CR v = (case v of None \<Rightarrow> True | Some s \<Rightarrow> CHR 0x0D \<notin> set (cstr s))"

lemma response_readable:
  assumes "ps_http_response_write resp = Some out"
    and "no_CR (resp_cors_origin resp)" "no_CR (resp_cors_allow_methods resp)" "no_CR (resp_cors_allow_headers resp)"
  obtains ls body where "split_head [] [] out = Some (ls, body)"
    and "content_length_line (length body) \<in> set ls"
    and "case resp_json_body resp of None \<Rightarrow> body = [] | Some v \<Rightarrow> ps_json_write v = Some body"
    and "hd ls = status_line (resp_status resp)"
    and "''X-Content-Type-Options: nosniff'' \<in> set ls"
    and "resp_no_store resp \<Longrightarrow> ''Cache-Control: no-store'' \<in> set ls"
proof -
  from assms(1) obtain body cors where
    b: "(case resp_json_body resp of None \<Rightarrow> Some [] | Some v \<Rightarrow> ps_json_write v) = Some body"
    and c: "cors_lines resp = Some cors"
    and out: "out = lines_text (response_lines resp (length body) cors) @ CRLF @ body"
    by (auto simp: ps_http_response_write_def split: option.splits if_splits)
  have "\<forall>l \<in> set cors. l \<noteq> [] \<and> CHR 0x0D \<notin> set l"
    using c assms(2-4) by (auto simp: cors_lines_def opt_line_def no_CR_def Let_def split: option.splits if_splits)
  then have "\<forall>l \<in> set (response_lines resp (length body) cors). l \<noteq> [] \<and> CHR 0x0D \<notin> set l"
    by (auto simp: response_lines_def status_line_def content_length_line_def show_nat_no_CR reason_no_CR)
  from split_head_lines [OF this, of "[]" body] out
  have "split_head [] [] out = Some (response_lines resp (length body) cors, body)" by simp
  then show thesis
    by (rule that) (use b in \<open>auto simp: response_lines_def split: option.splits\<close>)
qed


subsection \<open>Properties\<close>

text \<open>C31. A client can frame every response that is written: scanning for the first empty line
  recovers the header lines, which start with the status line, announce exactly the length of the body
  that follows, forbid content sniffing, and forbid caching when the handler asked for it; and the body
  is the written JSON value. No header value can break the framing, unless it has a carriage return of
  its own.\<close>

theorem response_framing:
  assumes "ps_http_response_write resp = Some out"
    and "no_CR (resp_cors_origin resp)" "no_CR (resp_cors_allow_methods resp)" "no_CR (resp_cors_allow_headers resp)"
  shows "\<exists>ls body. split_head [] [] out = Some (ls, body) \<and> content_length_line (length body) \<in> set ls \<and>
    hd ls = status_line (resp_status resp) \<and> ''X-Content-Type-Options: nosniff'' \<in> set ls \<and>
    (resp_no_store resp \<longrightarrow> ''Cache-Control: no-store'' \<in> set ls) \<and>
    (case resp_json_body resp of None \<Rightarrow> body = [] | Some v \<Rightarrow> ps_json_write v = Some body)"
  using response_readable [OF assms] by metis

theorem response_framing_witness:
  "\<exists>out ls body. ps_http_response_write (plain_response 200 True True (Some (JArray [JNull]))) = Some out \<and>
    split_head [] [] out = Some (ls, body) \<and> content_length_line (length body) \<in> set ls \<and>
    ''Cache-Control: no-store'' \<in> set ls \<and> ps_json_write (JArray [JNull]) = Some body"
proof -
  have "ps_http_response_write (plain_response 200 True True (Some (JArray [JNull]))) \<noteq> None"
    by code_simp
  then obtain out where out: "ps_http_response_write (plain_response 200 True True (Some (JArray [JNull]))) = Some out" by blast
  from response_framing [OF out] out show ?thesis by (auto simp: plain_response_def no_CR_def)
qed

end
