(* ===== verification/Conn.thy ===== *)
theory Conn
  imports Http_Request Router Cors Response
begin

text \<open>
  The keep-alive connection loop (\<^verbatim>\<open>src/src/http/conn.c\<close>, \<^verbatim>\<open>conn.h\<close>). The socket and the TLS layer
  are the parameters of \<open>ps_conn_handle\<close>: whether the timeouts could be set, whether the handshake
  succeeded, what each read returns (a \<open>read_event\<close>; an exhausted list stands for a peer that
  stays silent until the timeout) and whether the \<open>n\<close>-th response is written completely. The route
  dispatcher is a parameter too, a function on the state \<open>'a\<close> of the application, as in the source.
  The result is the close reason, the number of requests served, the responses written and the
  final application state.
\<close>

record ps_conn_limits_t =
  keepalive_max_requests :: nat
  http_limits :: ps_http_limits_t

datatype ps_conn_close_reason_t =
    PS_CONN_CLOSED_BY_PEER
  | PS_CONN_CLOSED_MAX_REQUESTS
  | PS_CONN_CLOSED_TIMEOUT
  | PS_CONN_CLOSED_ERROR
  | PS_CONN_CLOSED_CONNECTION_HEADER

record ps_handler_result_t =
  hr_status :: nat
  hr_body :: "json option"
  hr_no_store :: bool

datatype read_event =
    Ev_data bytes
  | Ev_timeout
  | Ev_poll_error
  | Ev_close_notify
  | Ev_syscall
  | Ev_ssl_error

type_synonym 'a dispatch_fn =
  "'a \<Rightarrow> nat \<Rightarrow> ps_http_request_t \<Rightarrow> ps_route_params_t \<Rightarrow> bytes \<Rightarrow> ps_handler_result_t \<times> 'a"

definition header_value_equals_ci :: "ps_http_header_t option \<Rightarrow> bytes \<Rightarrow> bool" where
  "header_value_equals_ci h token = (case h of None \<Rightarrow> False | Some h \<Rightarrow> ci_equal (hdr_value h) token)"

definition connection_should_stay_alive :: "ps_http_request_t \<Rightarrow> nat \<Rightarrow> nat \<Rightarrow> bool" where
  "connection_should_stay_alive req completed_after max_requests =
     (if max_requests \<le> completed_after then False
      else
        let conn_hdr = ps_http_request_header req ''Connection'' in
        if header_value_equals_ci conn_hdr ''close'' then False
        else if req_minor_version req = 0 then header_value_equals_ci conn_hdr ''keep-alive''
        else True)"

text \<open>Why a read that brings no data ends the connection.\<close>

fun read_failure :: "read_event \<Rightarrow> bytes \<Rightarrow> ps_conn_close_reason_t" where
  "read_failure Ev_timeout buf = PS_CONN_CLOSED_TIMEOUT"
| "read_failure Ev_close_notify buf = PS_CONN_CLOSED_BY_PEER"
| "read_failure Ev_syscall buf = (if buf = [] then PS_CONN_CLOSED_BY_PEER else PS_CONN_CLOSED_ERROR)"
| "read_failure _ buf = PS_CONN_CLOSED_ERROR"

fun read_more :: "read_event list \<Rightarrow> bytes \<Rightarrow> ps_conn_close_reason_t + (bytes \<times> read_event list)" where
  "read_more [] buf = Inl PS_CONN_CLOSED_TIMEOUT"
| "read_more (Ev_data d # es) buf = Inr (buf @ d, es)"
| "read_more (e # es) buf = Inl (read_failure e buf)"

definition method_is :: "ps_http_request_t \<Rightarrow> bytes \<Rightarrow> bool" where
  "method_is req method = (req_method req = cstr method)"

definition apply_cors :: "ps_cors_policy_t option \<Rightarrow> ps_http_request_t \<Rightarrow> nat \<Rightarrow> bool \<Rightarrow>
    ps_http_response_t \<Rightarrow> ps_http_response_t" where
  "apply_cors cors req origin_buf_len is_preflight resp =
     (if \<not> ps_cors_enabled cors then resp
      else case ps_http_request_header req ''Origin'' of
        None \<Rightarrow> resp
      | Some origin \<Rightarrow>
          if \<not> ps_cors_origin_allowed cors (hdr_value origin) then resp
          else
            let r1 = resp\<lparr>resp_cors_origin := Some (take (origin_buf_len - 1) (hdr_value origin)),
                          resp_cors_allow_credentials := (case cors of None \<Rightarrow> False | Some p \<Rightarrow> cors_credentials p)\<rparr>
            in if is_preflight then
                 r1\<lparr>resp_cors_allow_methods := Some ''GET, POST, PUT, DELETE, OPTIONS'',
                    resp_cors_allow_headers := Some ''Content-Type, Authorization''\<rparr>
               else r1)"

definition error_status_and_code :: "ps_http_parse_error_t \<Rightarrow> nat \<times> bytes" where
  "error_status_and_code kind =
     (case kind of
        PS_HTTP_ERR_BODY_TOO_LARGE \<Rightarrow> (413, ''PAYLOAD_TOO_LARGE'')
      | PS_HTTP_ERR_CHUNKED_UNSUPPORTED \<Rightarrow> (501, ''NOT_IMPLEMENTED'')
      | _ \<Rightarrow> (400, ''BAD_REQUEST''))"

text \<open>The inner loop: parse the buffer, and read more as long as the request is incomplete.\<close>

function read_request :: "ps_http_limits_t \<Rightarrow> read_event list \<Rightarrow> bytes \<Rightarrow>
    ps_conn_close_reason_t + (ps_http_request_t ps_http_parse_result_t \<times> bytes \<times> read_event list)" where
  "read_request limits es buf =
     (let rc = ps_http_request_parse limits buf in
      if rc \<noteq> PS_HTTP_PARSE_INCOMPLETE then Inr (rc, buf, es)
      else case read_more es buf of
        Inl reason \<Rightarrow> Inl reason
      | Inr (buf', es') \<Rightarrow> read_request limits es' buf')"
  by pat_completeness auto
termination
proof (relation "measure (\<lambda>(_, es, _). length es)", goal_cases)
  case (2 limits es buf rc b x y)
  then show ?case by (induction es buf rule: read_more.induct) auto
qed simp

declare read_request.simps [simp del]

text \<open>One request, routed and answered: the response (\<open>None\<close> if it could not be built) and the state.\<close>

definition respond :: "ps_router_t \<Rightarrow> 'a dispatch_fn \<Rightarrow> ps_cors_policy_t option \<Rightarrow> bytes \<Rightarrow> bool \<Rightarrow>
    ps_http_request_t \<Rightarrow> 'a \<Rightarrow> bytes option \<times> 'a" where
  "respond router dispatch cors peer alive req app =
     (if method_is req ''OPTIONS'' then
        if \<not> ps_cors_enabled cors then
          (ps_http_response_write_error 405 ''METHOD_NOT_ALLOWED'' ''CORS is not configured'' alive, app)
        else (ps_http_response_write (apply_cors cors req 256 True (plain_response 204 alive False None)), app)
      else case ps_router_match router (req_method req) (req_path req) of
        PS_ROUTE_NOT_FOUND \<Rightarrow> (ps_http_response_write_error 404 ''NOT_FOUND'' ''no such route'' alive, app)
      | PS_ROUTE_METHOD_NOT_ALLOWED \<Rightarrow>
          (ps_http_response_write_error 405 ''METHOD_NOT_ALLOWED'' ''path exists, method does not'' alive, app)
      | PS_ROUTE_MATCH route_id params \<Rightarrow>
          (case dispatch app route_id req params peer of
             (result, app') \<Rightarrow>
               (ps_http_response_write (apply_cors cors req 256 False
                  (plain_response (hr_status result) alive (hr_no_store result) (hr_body result))), app')))"

record 'a conn_result =
  cr_reason :: ps_conn_close_reason_t
  cr_served :: nat
  cr_written :: "bytes list"
  cr_app :: 'a

text \<open>
  The outer loop. \<open>wr n\<close> tells whether the response to the \<open>n\<close>-th request of the connection is
  written completely; the answer to a parse error is sent on a best-effort basis.
\<close>

function conn_loop :: "ps_conn_limits_t \<Rightarrow> ps_router_t \<Rightarrow> 'a dispatch_fn \<Rightarrow> ps_cors_policy_t option \<Rightarrow> bytes \<Rightarrow>
    (nat \<Rightarrow> bool) \<Rightarrow> read_event list \<Rightarrow> bytes \<Rightarrow> nat \<Rightarrow> bytes list \<Rightarrow> 'a \<Rightarrow> 'a conn_result" where
  "conn_loop limits router dispatch cors peer wr es buf completed out app =
     (if keepalive_max_requests limits \<le> completed then
        \<lparr>cr_reason = PS_CONN_CLOSED_MAX_REQUESTS, cr_served = completed, cr_written = out, cr_app = app\<rparr>
      else case read_request (http_limits limits) es buf of
        Inl reason \<Rightarrow> \<lparr>cr_reason = reason, cr_served = completed, cr_written = out, cr_app = app\<rparr>
      | Inr (PS_HTTP_PARSE_OK req consumed, buf1, es1) \<Rightarrow>
          let alive = connection_should_stay_alive req (completed + 1) (keepalive_max_requests limits)
          in (case respond router dispatch cors peer alive req app of
                (None, app1) \<Rightarrow>
                  \<lparr>cr_reason = PS_CONN_CLOSED_ERROR, cr_served = completed, cr_written = out, cr_app = app1\<rparr>
              | (Some r, app1) \<Rightarrow>
                  if r = [] \<or> \<not> wr completed then
                    \<lparr>cr_reason = PS_CONN_CLOSED_ERROR, cr_served = completed, cr_written = out, cr_app = app1\<rparr>
                  else if \<not> alive then
                    \<lparr>cr_reason = (if keepalive_max_requests limits \<le> completed + 1
                                  then PS_CONN_CLOSED_MAX_REQUESTS else PS_CONN_CLOSED_CONNECTION_HEADER),
                     cr_served = completed + 1, cr_written = out @ [r], cr_app = app1\<rparr>
                  else conn_loop limits router dispatch cors peer wr es1
                         (if length buf1 \<le> consumed then [] else drop consumed buf1) (completed + 1) (out @ [r]) app1)
      | Inr (PS_HTTP_PARSE_INCOMPLETE, buf1, es1) \<Rightarrow>
          \<lparr>cr_reason = PS_CONN_CLOSED_ERROR, cr_served = completed, cr_written = out, cr_app = app\<rparr>
      | Inr (PS_HTTP_PARSE_ERROR kind msg, buf1, es1) \<Rightarrow>
          (case error_status_and_code kind of
             (status, code) \<Rightarrow>
               \<lparr>cr_reason = PS_CONN_CLOSED_ERROR, cr_served = completed,
                cr_written = out @ (case ps_http_response_write_error status code msg False of
                                      Some r \<Rightarrow> if wr completed then [r] else []
                                    | None \<Rightarrow> []),
                cr_app = app\<rparr>))"
  by pat_completeness auto
termination
  by (relation "measure (\<lambda>(limits, _, _, _, _, _, _, _, completed, _, _). keepalive_max_requests limits - completed)") auto

declare conn_loop.simps [simp del]

definition ps_conn_handle :: "ps_conn_limits_t \<Rightarrow> bool \<Rightarrow> bool \<Rightarrow> ps_router_t \<Rightarrow> 'a dispatch_fn \<Rightarrow>
    ps_cors_policy_t option \<Rightarrow> bytes \<Rightarrow> (nat \<Rightarrow> bool) \<Rightarrow> read_event list \<Rightarrow> 'a \<Rightarrow> 'a conn_result" where
  "ps_conn_handle limits timeouts_ok tls_ok router dispatch cors peer wr es app =
     (if \<not> timeouts_ok \<or> \<not> tls_ok then
        \<lparr>cr_reason = PS_CONN_CLOSED_ERROR, cr_served = 0, cr_written = [], cr_app = app\<rparr>
      else conn_loop limits router dispatch cors peer wr es [] 0 [] app)"


subsection \<open>The byte stream decides, not its segmentation\<close>

definition is_data :: "read_event \<Rightarrow> bool" where
  "is_data e = (case e of Ev_data _ \<Rightarrow> True | _ \<Rightarrow> False)"

lemma read_more_end: "\<not> is_data e \<Longrightarrow> read_more (e # es) buf = Inl (read_failure e buf)"
  by (cases e) (simp_all add: is_data_def)

lemma read_request_stream:
  assumes "\<not> is_data e"
  shows "if ps_http_request_parse limits (buf @ concat cs) = PS_HTTP_PARSE_INCOMPLETE
    then read_request limits (map Ev_data cs @ [e]) buf = Inl (read_failure e (buf @ concat cs))
    else \<exists>buf' cs'. read_request limits (map Ev_data cs @ [e]) buf =
             Inr (ps_http_request_parse limits (buf @ concat cs), buf', map Ev_data cs' @ [e]) \<and>
           buf' @ concat cs' = buf @ concat cs \<and>
           ps_http_request_parse limits buf' = ps_http_request_parse limits (buf @ concat cs)"
proof (induction cs arbitrary: buf)
  case Nil
  show ?case
  proof (cases "ps_http_request_parse limits buf = PS_HTTP_PARSE_INCOMPLETE")
    case True
    then show ?thesis using read_more_end [OF assms] by (subst read_request.simps) simp
  next
    case False
    then have "read_request limits ([] @ [e]) buf = Inr (ps_http_request_parse limits buf, buf, map Ev_data [] @ [e])"
      by (subst read_request.simps) simp
    with False show ?thesis by fastforce
  qed
next
  case (Cons c cs)
  show ?case
  proof (cases "ps_http_request_parse limits buf = PS_HTTP_PARSE_INCOMPLETE")
    case True
    then have eq: "read_request limits (map Ev_data (c # cs) @ [e]) buf = read_request limits (map Ev_data cs @ [e]) (buf @ c)"
      by (subst read_request.simps) simp
    from Cons.IH [of "buf @ c", unfolded append_assoc] show ?thesis unfolding eq concat.simps .
  next
    case False
    then have "read_request limits (map Ev_data (c # cs) @ [e]) buf =
        Inr (ps_http_request_parse limits buf, buf, map Ev_data (c # cs) @ [e])"
      by (subst read_request.simps) simp
    moreover have "ps_http_request_parse limits (buf @ concat (c # cs)) = ps_http_request_parse limits buf"
      using False by (rule http_request.decided_extend)
    ultimately show ?thesis using False
      by (subst if_not_P) (simp, intro exI [of _ buf] exI [of _ "c # cs"], simp)
  qed
qed

lemma drop_if: "(if length b \<le> n then [] else drop n b) = drop n b"
  by simp

lemma conn_loop_stream:
  assumes "\<not> is_data e"
  shows "buf @ concat cs = buf' @ concat cs' \<Longrightarrow>
    conn_loop limits router dispatch cors peer wr (map Ev_data cs @ [e]) buf k out app =
    conn_loop limits router dispatch cors peer wr (map Ev_data cs' @ [e]) buf' k out app"
proof (induction "keepalive_max_requests limits - k" arbitrary: buf cs buf' cs' k out app rule: less_induct)
  case less
  let ?p = "ps_http_request_parse (http_limits limits)"
  note rr = read_request_stream [OF assms, of "http_limits limits" buf cs]
    and rr' = read_request_stream [OF assms, of "http_limits limits" buf' cs', folded less.prems]
  show ?case
  proof (cases "keepalive_max_requests limits \<le> k \<or> ?p (buf @ concat cs) = PS_HTTP_PARSE_INCOMPLETE")
    case True
    then show ?thesis using rr rr' by (subst (1 2) conn_loop.simps) auto
  next
    case False
    with rr obtain b1 c1 where r1: "read_request (http_limits limits) (map Ev_data cs @ [e]) buf =
        Inr (?p (buf @ concat cs), b1, map Ev_data c1 @ [e])" "b1 @ concat c1 = buf @ concat cs"
        "?p b1 = ?p (buf @ concat cs)" by auto
    from False rr' obtain b2 c2 where r2: "read_request (http_limits limits) (map Ev_data cs' @ [e]) buf' =
        Inr (?p (buf @ concat cs), b2, map Ev_data c2 @ [e])" "b2 @ concat c2 = buf @ concat cs"
        "?p b2 = ?p (buf @ concat cs)" by auto
    show ?thesis
    proof (cases "?p (buf @ concat cs)")
      case (PS_HTTP_PARSE_OK req n)
      with r1 r2 have n: "n \<le> length b1" "n \<le> length b2" by (auto intro: http_request.consumed_le)
      have "drop n b1 @ concat c1 = drop n (b1 @ concat c1)" "drop n b2 @ concat c2 = drop n (b2 @ concat c2)"
        using n by simp_all
      then have "drop n b1 @ concat c1 = drop n b2 @ concat c2" using r1(2) r2(2) by simp
      from less.hyps [OF _ this, of "k + 1"] False show ?thesis
        by (subst (1 2) conn_loop.simps, unfold drop_if)
          (simp add: r1(1) r2(1) PS_HTTP_PARSE_OK Let_def split: prod.split option.split)
    qed (use r1 r2 in \<open>subst (1 2) conn_loop.simps, simp\<close>)+
  qed
qed

lemma conn_loop_served:
  "k \<le> keepalive_max_requests limits \<Longrightarrow>
    cr_served (conn_loop limits router dispatch cors peer wr es buf k out app) \<le> keepalive_max_requests limits"
proof (induction "keepalive_max_requests limits - k" arbitrary: es buf k out app rule: less_induct)
  case less
  then show ?case
    by (subst conn_loop.simps) (auto simp: Let_def split: sum.split ps_http_parse_result_t.split prod.split option.split)
qed


subsection \<open>Properties\<close>

text \<open>C28. What a connection answers, and what it does to the application, is determined by the bytes the
  peer sends, not by how the network cuts them into reads: two read sequences with the same bytes and
  the same final event give the same responses, close reason and application state.\<close>

theorem connection_segmentation_irrelevant:
  assumes "concat cs = concat cs'" and "\<not> is_data e"
  shows "ps_conn_handle limits timeouts_ok tls_ok router dispatch cors peer wr (map Ev_data cs @ [e]) app =
    ps_conn_handle limits timeouts_ok tls_ok router dispatch cors peer wr (map Ev_data cs' @ [e]) app"
  using assms by (auto simp: ps_conn_handle_def intro!: conn_loop_stream)

theorem connection_segmentation_irrelevant_witness:
  "ps_conn_handle \<lparr>keepalive_max_requests = 2, http_limits = example_limits\<rparr> True True example_router
     (\<lambda>n id req params peer. (\<lparr>hr_status = 200, hr_body = None, hr_no_store = False\<rparr>, n + 1)) None ''peer'' (\<lambda>_. True)
     (map Ev_data [''GET / HT'', ''TP/1.1''] @ [Ev_close_notify]) (0::nat) =
   ps_conn_handle \<lparr>keepalive_max_requests = 2, http_limits = example_limits\<rparr> True True example_router
     (\<lambda>n id req params peer. (\<lparr>hr_status = 200, hr_body = None, hr_no_store = False\<rparr>, n + 1)) None ''peer'' (\<lambda>_. True)
     (map Ev_data [''GET / HTTP/1.1''] @ [Ev_close_notify]) 0"
  by (rule connection_segmentation_irrelevant) (simp_all add: is_data_def)

text \<open>A connection serves at most the configured number of requests, whatever the peer sends.\<close>

theorem connection_serves_at_most_max:
  "cr_served (ps_conn_handle limits timeouts_ok tls_ok router dispatch cors peer wr es app) \<le> keepalive_max_requests limits"
  by (simp add: ps_conn_handle_def conn_loop_served)

end
