(* ===== verification/Ratelimit.thy ===== *)
theory Ratelimit
  imports Prelude Double
begin

text \<open>
  The token-bucket rate limiter (\<^verbatim>\<open>src/src/platform/ratelimit.c\<close>, \<^verbatim>\<open>ratelimit.h\<close>): sixteen shards, each
  an open-addressed table of \<open>2 * cap\<close> slots of which at most \<open>cap\<close> are occupied. A bucket's token
  count is a double, so every operation on it rounds (\<open>fl\<close>); the amounts stay far below the overflow
  threshold. \<open>ps_ratelimiter_allow_at\<close> returns the verdict and the new state; it runs under the
  mutex of the shard, so it is one atomic step.
\<close>

unbundle bit_operations_syntax

definition PS_RATELIMIT_SHARDS :: nat where "PS_RATELIMIT_SHARDS = 16"
definition PS_RATELIMIT_KEY_MAX :: nat where "PS_RATELIMIT_KEY_MAX = 64"

record rl_entry_t =
  rl_key :: bytes
  rl_occupied :: bool
  rl_tokens :: rat
  rl_last_refill_ns :: int64
  rl_last_used_ns :: int64

record rl_shard_t =
  sh_slots :: "rl_entry_t list"
  sh_cap :: nat
  sh_occupied :: nat

type_synonym ps_ratelimiter_t = "rl_shard_t list"

definition hash_key :: "bytes \<Rightarrow> 64 word" where
  "hash_key key = foldl (\<lambda>h c. (h XOR word_of_nat (byte_val c)) * 1099511628211) 14695981039346656037 (cstr key)"

definition empty_entry :: rl_entry_t where
  "empty_entry = \<lparr>rl_key = [], rl_occupied = False, rl_tokens = 0, rl_last_refill_ns = 0, rl_last_used_ns = 0\<rparr>"

definition new_shard :: "nat \<Rightarrow> rl_shard_t" where
  "new_shard cap = \<lparr>sh_slots = replicate (cap * 2) empty_entry, sh_cap = cap, sh_occupied = 0\<rparr>"

definition ps_ratelimiter_create :: "int \<Rightarrow> ps_ratelimiter_t" where
  "ps_ratelimiter_create max_entries =
     (let m = (if max_entries < 1 then 1 else max_entries);
          c = nat m div PS_RATELIMIT_SHARDS;
          per_shard_cap = (if c < 1 then 1 else c)
      in replicate PS_RATELIMIT_SHARDS (new_shard per_shard_cap))"

definition key_equal :: "rl_entry_t \<Rightarrow> bytes \<Rightarrow> bool" where
  "key_equal e key \<longleftrightarrow> rl_occupied e \<and> rl_key e = key"

definition refill :: "int \<Rightarrow> int64 \<Rightarrow> rat" where
  "refill per_minute elapsed_ns = fl (fl (fl (of_int elapsed_ns) / 60000000000) * of_int per_minute)"

definition consume :: "rl_entry_t \<Rightarrow> int \<Rightarrow> int64 \<Rightarrow> bool \<times> rl_entry_t" where
  "consume e per_minute now_ns =
     (let elapsed_ns = now_ns - rl_last_refill_ns e;
          e1 = (if 0 < elapsed_ns then
                  let t = fl (rl_tokens e + refill per_minute elapsed_ns)
                  in e\<lparr>rl_tokens := (if of_int per_minute < t then of_int per_minute else t),
                       rl_last_refill_ns := now_ns\<rparr>
                else e);
          e2 = e1\<lparr>rl_last_used_ns := now_ns\<rparr>
      in if rl_tokens e2 < 1 then (False, e2) else (True, e2\<lparr>rl_tokens := fl (rl_tokens e2 - 1)\<rparr>))"

definition probe_seq :: "nat \<Rightarrow> nat \<Rightarrow> nat list" where
  "probe_seq start n = map (\<lambda>p. (start + p) mod n) [0..<n]"

text \<open>The first slot on the probe sequence that holds the key or is empty.\<close>

definition probe :: "rl_entry_t list \<Rightarrow> bytes \<Rightarrow> nat \<Rightarrow> nat option" where
  "probe slots key start =
     List.find (\<lambda>idx. key_equal (slots ! idx) key \<or> \<not> rl_occupied (slots ! idx)) (probe_seq start (length slots))"

text \<open>The least recently used entry: the scan starts from slot 0 and \<^verbatim>\<open>INT64_MAX\<close>.\<close>

definition lru_victim :: "rl_entry_t list \<Rightarrow> nat" where
  "lru_victim slots =
     fst (foldl (\<lambda>(victim, oldest) i.
            if rl_occupied (slots ! i) \<and> rl_last_used_ns (slots ! i) < oldest
            then (i, rl_last_used_ns (slots ! i)) else (victim, oldest))
          (0, 2 ^ 63 - 1) [0..<length slots])"

definition fresh_bucket :: "rl_entry_t \<Rightarrow> bytes \<Rightarrow> int \<Rightarrow> int64 \<Rightarrow> rl_entry_t" where
  "fresh_bucket e key per_minute now_ns =
     e\<lparr>rl_occupied := True, rl_key := key, rl_tokens := fl (of_int per_minute), rl_last_refill_ns := now_ns\<rparr>"

definition put_bucket :: "rl_shard_t \<Rightarrow> nat \<Rightarrow> rl_entry_t \<Rightarrow> rl_shard_t" where
  "put_bucket sh idx e = sh\<lparr>sh_slots := (sh_slots sh)[idx := e]\<rparr>"

definition shard_allow :: "rl_shard_t \<Rightarrow> 64 word \<Rightarrow> bytes \<Rightarrow> int \<Rightarrow> int64 \<Rightarrow> bool \<times> rl_shard_t" where
  "shard_allow sh h key per_minute now_ns =
     (let slots = sh_slots sh;
          start = unat h mod length slots;
          hit = probe slots key start
      in case hit of
           Some idx \<Rightarrow>
             if key_equal (slots ! idx) key then
               (case consume (slots ! idx) per_minute now_ns of (ok, e) \<Rightarrow> (ok, put_bucket sh idx e))
             else if sh_occupied sh < sh_cap sh then
               (case consume (fresh_bucket (slots ! idx) key per_minute now_ns) per_minute now_ns of
                  (ok, e) \<Rightarrow> (ok, (put_bucket sh idx e)\<lparr>sh_occupied := sh_occupied sh + 1\<rparr>))
             else
               let victim = lru_victim slots in
               (case consume (fresh_bucket (slots ! victim) key per_minute now_ns) per_minute now_ns of
                  (ok, e) \<Rightarrow> (ok, put_bucket sh victim e))
         | None \<Rightarrow>
             let victim = lru_victim slots in
             (case consume (fresh_bucket (slots ! victim) key per_minute now_ns) per_minute now_ns of
                (ok, e) \<Rightarrow> (ok, put_bucket sh victim e)))"

definition bounded_key :: "bytes \<Rightarrow> bytes" where
  "bounded_key key = c_snprintf_s PS_RATELIMIT_KEY_MAX key"

definition ps_ratelimiter_allow_at :: "ps_ratelimiter_t \<Rightarrow> bytes \<Rightarrow> int \<Rightarrow> int64 \<Rightarrow> bool \<times> ps_ratelimiter_t" where
  "ps_ratelimiter_allow_at rl key per_minute now_ns =
     (if per_minute \<le> 0 then (False, rl)
      else
        let k = bounded_key key;
            h = hash_key k;
            i = unat h mod PS_RATELIMIT_SHARDS
        in case shard_allow (rl ! i) h k per_minute now_ns of (ok, sh) \<Rightarrow> (ok, rl[i := sh]))"

text \<open>\<open>ps_ratelimiter_allow\<close> reads the clock, which is a parameter: seconds and nanoseconds.\<close>

definition ps_ratelimiter_allow :: "int \<times> int \<Rightarrow> ps_ratelimiter_t \<Rightarrow> bytes \<Rightarrow> int \<Rightarrow> bool \<times> ps_ratelimiter_t" where
  "ps_ratelimiter_allow clock rl key per_minute =
     ps_ratelimiter_allow_at rl key per_minute (fst clock * 1000000000 + snd clock)"


subsection \<open>Token counts\<close>

definition tokens_ok :: "int \<Rightarrow> rat \<Rightarrow> bool" where
  "tokens_ok M t \<longleftrightarrow> 0 \<le> t \<and> t \<le> of_int M"

lemma refill_nonneg: "0 < per_minute \<Longrightarrow> 0 < elapsed \<Longrightarrow> 0 \<le> refill per_minute elapsed"
  by (simp add: refill_def fl_nonneg)

lemma fl_pred_le:
  assumes "1 \<le> t" and "t \<le> of_int M" and "M < 2 ^ 31"
  shows "0 \<le> fl (t - 1)" and "fl (t - 1) \<le> of_int M"
proof -
  show "0 \<le> fl (t - 1)" using assms by (intro fl_nonneg) simp
  have "(of_int M :: rat) < of_int (2 ^ 31)" using assms(3) by (simp only: of_int_less_iff)
  then have "t - 1 < 2 ^ 53" using assms(2) by simp
  then have "\<bar>fl (t - 1) - (t - 1)\<bar> \<le> 1 / 2" using assms(1) by (intro fl_close) simp_all
  then show "fl (t - 1) \<le> of_int M" using assms(2) by linarith
qed

lemma consume_tokens:
  assumes "tokens_ok M (rl_tokens e)" and "0 < pm" and "pm \<le> M" and "M < 2 ^ 31"
  shows "tokens_ok M (rl_tokens (snd (consume e pm now)))"
proof -
  define el where "el = now - rl_last_refill_ns e"
  define t1 where "t1 = (if 0 < el then min (of_int pm) (fl (rl_tokens e + refill pm el)) else rl_tokens e)"
  have t1: "tokens_ok M t1"
  proof (cases "0 < el")
    case True
    then have "0 \<le> fl (rl_tokens e + refill pm el)"
      using assms refill_nonneg [of pm el] by (intro fl_nonneg) (simp add: tokens_ok_def)
    moreover have "(of_int pm :: rat) \<le> of_int M" using assms(3) by (simp only: of_int_le_iff)
    ultimately show ?thesis using True assms by (simp add: t1_def tokens_ok_def min_def)
  qed (use assms in \<open>simp add: t1_def\<close>)
  have "rl_tokens (snd (consume e pm now)) = (if t1 < 1 then t1 else fl (t1 - 1))"
    by (auto simp: consume_def Let_def t1_def el_def min_def)
  then show ?thesis
    using t1 fl_pred_le [of t1 M] assms(4) by (auto simp: tokens_ok_def)
qed

lemma consume_keeps [simp]:
  "rl_occupied (snd (consume e pm now)) = rl_occupied e"
  "rl_key (snd (consume e pm now)) = rl_key e"
  by (simp_all add: consume_def Let_def)

lemma consume_fresh:
  assumes "0 < pm" and "pm < 2 ^ 31"
  shows "consume (fresh_bucket e key pm now) pm now =
    (True, \<lparr>rl_key = key, rl_occupied = True, rl_tokens = of_int (pm - 1),
            rl_last_refill_ns = now, rl_last_used_ns = now, \<dots> = rl_entry_t.more e\<rparr>)"
proof -
  have "fl (of_int pm) = of_int pm" "fl (of_int pm - 1) = of_int (pm - 1)"
    using fl_of_int [of pm] fl_of_int [of "pm - 1"] assms by simp_all
  then show ?thesis using assms by (simp add: consume_def fresh_bucket_def Let_def)
qed


subsection \<open>The shard invariant\<close>

definition entry_ok :: "int \<Rightarrow> rl_entry_t \<Rightarrow> bool" where
  "entry_ok M e \<longleftrightarrow> rl_occupied e \<longrightarrow>
     tokens_ok M (rl_tokens e) \<and> length (rl_key e) < PS_RATELIMIT_KEY_MAX \<and> NUL \<notin> set (rl_key e) \<and>
     rl_last_used_ns e < 2 ^ 63 - 1"

definition shard_ok :: "int \<Rightarrow> rl_shard_t \<Rightarrow> bool" where
  "shard_ok M sh \<longleftrightarrow> 0 < sh_cap sh \<and> length (sh_slots sh) = 2 * sh_cap sh \<and>
     sh_occupied sh = length (filter rl_occupied (sh_slots sh)) \<and> sh_occupied sh \<le> sh_cap sh \<and>
     (\<forall>e \<in> set (sh_slots sh). entry_ok M e)"

definition limiter_ok :: "int \<Rightarrow> ps_ratelimiter_t \<Rightarrow> bool" where
  "limiter_ok M rl \<longleftrightarrow> length rl = PS_RATELIMIT_SHARDS \<and> (\<forall>sh \<in> set rl. shard_ok M sh)"

lemma lru_victim_scan:
  fixes slots :: "rl_entry_t list"
  defines "scan m \<equiv> foldl (\<lambda>(victim, oldest) i.
            if rl_occupied (slots ! i) \<and> rl_last_used_ns (slots ! i) < oldest
            then (i, rl_last_used_ns (slots ! i)) else (victim, oldest))
          (0, 2 ^ 63 - 1) [0..<m]"
  shows "scan m = (0, 2 ^ 63 - 1) \<or>
      fst (scan m) < m \<and> rl_occupied (slots ! fst (scan m)) \<and> rl_last_used_ns (slots ! fst (scan m)) = snd (scan m)"
    and "i < m \<Longrightarrow> rl_occupied (slots ! i) \<Longrightarrow> rl_last_used_ns (slots ! i) < 2 ^ 63 - 1 \<Longrightarrow>
      snd (scan m) \<le> rl_last_used_ns (slots ! i)"
proof -
  have step: "scan (Suc m) = (if rl_occupied (slots ! m) \<and> rl_last_used_ns (slots ! m) < snd (scan m)
      then (m, rl_last_used_ns (slots ! m)) else scan m)" for m
    by (simp add: scan_def split: prod.splits)
  have 0: "scan 0 = (0, 2 ^ 63 - 1)" by (simp add: scan_def)
  have all: "snd (scan m) \<le> 2 ^ 63 - 1 \<and>
     (scan m = (0, 2 ^ 63 - 1) \<or> fst (scan m) < m \<and> rl_occupied (slots ! fst (scan m)) \<and>
        rl_last_used_ns (slots ! fst (scan m)) = snd (scan m)) \<and>
     (\<forall>i < m. rl_occupied (slots ! i) \<longrightarrow> rl_last_used_ns (slots ! i) < 2 ^ 63 - 1 \<longrightarrow>
        snd (scan m) \<le> rl_last_used_ns (slots ! i))" for m
  proof (induction m)
    case (Suc m)
    then show ?case unfolding step by (auto simp: less_Suc_eq)
  qed (simp add: 0)
  from all show "scan m = (0, 2 ^ 63 - 1) \<or>
      fst (scan m) < m \<and> rl_occupied (slots ! fst (scan m)) \<and> rl_last_used_ns (slots ! fst (scan m)) = snd (scan m)"
    and "i < m \<Longrightarrow> rl_occupied (slots ! i) \<Longrightarrow> rl_last_used_ns (slots ! i) < 2 ^ 63 - 1 \<Longrightarrow>
      snd (scan m) \<le> rl_last_used_ns (slots ! i)" by blast+
qed

text \<open>With an occupied slot in the table, the victim is the occupied slot used least recently.\<close>

lemma lru_victim:
  assumes "i < length slots" and "rl_occupied (slots ! i)" and "rl_last_used_ns (slots ! i) < 2 ^ 63 - 1"
  shows "lru_victim slots < length slots" and "rl_occupied (slots ! lru_victim slots)"
    and "rl_last_used_ns (slots ! lru_victim slots) \<le> rl_last_used_ns (slots ! i)"
  using lru_victim_scan(1) [of slots "length slots"] lru_victim_scan(2) [OF assms]
  unfolding lru_victim_def [symmetric] using assms(3) by auto

lemma probe_Some:
  assumes "probe slots key start = Some idx"
  shows "idx < length slots" and "key_equal (slots ! idx) key \<or> \<not> rl_occupied (slots ! idx)"
  using assms by (auto simp: probe_def find_Some_iff probe_seq_def intro!: mod_less_divisor)

lemma set_probe_seq: "0 < n \<Longrightarrow> i < n \<Longrightarrow> i \<in> set (probe_seq start n)"
proof -
  assume n: "0 < n" "i < n"
  have "(start + (i + n - start mod n) mod n) mod n = i"
  proof -
    have "(start + (i + n - start mod n)) mod n = (start mod n + (i + n - start mod n)) mod n"
      by (simp add: mod_add_left_eq)
    also have "start mod n + (i + n - start mod n) = i + n"
      using mod_less_divisor [OF n(1), of start] by simp
    finally show ?thesis using n by (simp add: mod_add_right_eq)
  qed
  moreover have "(i + n - start mod n) mod n < n" using n by simp
  ultimately show ?thesis unfolding probe_seq_def by (force simp: image_iff)
qed

lemma probe_not_None:
  assumes "i < length slots" and "\<not> rl_occupied (slots ! i)"
  shows "probe slots key start \<noteq> None"
proof -
  have "i \<in> set (probe_seq start (length slots))" using assms(1) by (intro set_probe_seq) auto
  with assms(2) show ?thesis by (auto simp: probe_def find_None_iff)
qed

lemma bounded_key_ok: "length (bounded_key k) < PS_RATELIMIT_KEY_MAX" "NUL \<notin> set (bounded_key k)"
  using NUL_notin_cstr [of k]
  by (auto simp: bounded_key_def c_snprintf_s_def PS_RATELIMIT_KEY_MAX_def dest: in_set_takeD)

lemma consume_last_used [simp]: "rl_last_used_ns (snd (consume e pm now)) = now"
  by (simp add: consume_def Let_def)

lemma put_bucket_ok:
  assumes "shard_ok M sh" and "idx < length (sh_slots sh)" and "entry_ok M e" and "rl_occupied e"
  shows "rl_occupied (sh_slots sh ! idx) \<Longrightarrow> shard_ok M (put_bucket sh idx e)"
    and "\<not> rl_occupied (sh_slots sh ! idx) \<Longrightarrow> sh_occupied sh < sh_cap sh \<Longrightarrow>
      shard_ok M ((put_bucket sh idx e)\<lparr>sh_occupied := sh_occupied sh + 1\<rparr>)"
  using assms length_filter_update [OF assms(2), of rl_occupied e] set_update_subset_insert [of "sh_slots sh" idx e]
  by (auto simp: shard_ok_def put_bucket_def)

lemma shard_has_free: "shard_ok M sh \<Longrightarrow> \<exists>i < length (sh_slots sh). \<not> rl_occupied (sh_slots sh ! i)"
proof (rule ccontr)
  assume ok: "shard_ok M sh" and "\<not> (\<exists>i < length (sh_slots sh). \<not> rl_occupied (sh_slots sh ! i))"
  then have "filter rl_occupied (sh_slots sh) = sh_slots sh" by (auto simp: filter_id_conv in_set_conv_nth)
  with ok show False by (auto simp: shard_ok_def)
qed

lemma shard_allow_ok:
  assumes "shard_ok M sh" and "0 < pm" and "pm \<le> M" and "M < 2 ^ 31" and "now < 2 ^ 63 - 1"
  shows "shard_ok M (snd (shard_allow sh h (bounded_key k) pm now))"
proof -
  let ?slots = "sh_slots sh" and ?key = "bounded_key k"
  define start where "start = unat h mod length ?slots"
  from shard_has_free [OF assms(1)] obtain i where i: "i < length ?slots" "\<not> rl_occupied (?slots ! i)" by blast
  from probe_not_None [OF i] obtain idx where idx: "probe ?slots ?key start = Some idx" by blast
  note p = probe_Some [OF idx]
  have fresh: "entry_ok M (snd (consume (fresh_bucket e ?key pm now) pm now))" for e
    using consume_fresh [of pm e ?key now] assms bounded_key_ok [of k]
    by (simp add: entry_ok_def tokens_ok_def)
  have focc: "rl_occupied (snd (consume (fresh_bucket e ?key pm now) pm now))" for e
    by (simp add: fresh_bucket_def)
  show ?thesis
  proof (cases "key_equal (?slots ! idx) ?key")
    case True
    then have occ: "rl_occupied (?slots ! idx)" by (simp add: key_equal_def)
    have "entry_ok M (?slots ! idx)" using assms(1) p(1) by (simp add: shard_ok_def)
    then have "entry_ok M (snd (consume (?slots ! idx) pm now))"
      using occ consume_tokens [OF _ assms(2,3,4)] assms(5) by (simp add: entry_ok_def)
    from put_bucket_ok(1) [OF assms(1) p(1) this _ occ] True idx occ show ?thesis
      by (simp add: shard_allow_def Let_def start_def split: prod.split) (metis consume_keeps(1) snd_conv)
  next
    case False
    with p have free: "\<not> rl_occupied (?slots ! idx)" by simp
    show ?thesis
    proof (cases "sh_occupied sh < sh_cap sh")
      case True
      from put_bucket_ok(2) [OF assms(1) p(1) fresh focc free True] False True idx show ?thesis
        by (simp add: shard_allow_def Let_def start_def split: prod.split) (metis snd_conv)
    next
      case full: False
      then have "filter rl_occupied ?slots \<noteq> []" using assms(1) by (auto simp: shard_ok_def)
      then obtain j where j: "j < length ?slots" "rl_occupied (?slots ! j)"
        by (auto simp: filter_empty_conv in_set_conv_nth)
      then have "rl_last_used_ns (?slots ! j) < 2 ^ 63 - 1" using assms(1) by (simp add: shard_ok_def entry_ok_def)
      note v = lru_victim [OF j this]
      from put_bucket_ok(1) [OF assms(1) v(1) fresh focc v(2)] False full idx show ?thesis
        by (simp add: shard_allow_def Let_def start_def split: prod.split) (metis snd_conv)
    qed
  qed
qed


subsection \<open>The limiter invariant, and the contract of the handlers\<close>

text \<open>
  What the request handlers rely on: a call keeps the limiter usable, a budget of zero or less denies,
  and nothing is done to it then.
\<close>

fun allow_seq :: "('s \<Rightarrow> bytes \<Rightarrow> int \<Rightarrow> int64 \<Rightarrow> bool \<times> 's) \<Rightarrow> 's \<Rightarrow> (bytes \<times> int \<times> int64) list \<Rightarrow>
    bool list \<times> 's" where
  "allow_seq allow s [] = ([], s)"
| "allow_seq allow s ((k, pm, now) # rs) =
     (case allow s k pm now of (ok, s1) \<Rightarrow> (case allow_seq allow s1 rs of (oks, s2) \<Rightarrow> (ok # oks, s2)))"

locale rate_limiter =
  fixes inv :: "'s \<Rightarrow> bool"
    and allow :: "'s \<Rightarrow> bytes \<Rightarrow> int \<Rightarrow> int64 \<Rightarrow> bool \<times> 's"
    and max_budget :: int
    and max_time :: int64
  assumes inv_allow: "inv s \<Longrightarrow> pm \<le> max_budget \<Longrightarrow> now < max_time \<Longrightarrow> inv (snd (allow s k pm now))"
    and no_budget: "pm \<le> 0 \<Longrightarrow> allow s k pm now = (False, s)"
begin

lemma allow_seq_inv:
  "inv s \<Longrightarrow> \<forall>(k, pm, now) \<in> set rs. pm \<le> max_budget \<and> now < max_time \<Longrightarrow>
     inv (snd (allow_seq allow s rs)) \<and> length (fst (allow_seq allow s rs)) = length rs"
proof (induction rs arbitrary: s)
  case (Cons r rs)
  obtain k pm now where r: "r = (k, pm, now)" by (cases r)
  obtain ok s1 where a: "allow s k pm now = (ok, s1)" by (cases "allow s k pm now")
  with inv_allow [OF Cons.prems(1), of pm now k] Cons.prems(2) r have "inv s1" by simp
  from Cons.IH [OF this] Cons.prems(2) r show ?case by (auto simp: a split: prod.split)
qed simp

end

lemma create_ok: "0 \<le> M \<Longrightarrow> limiter_ok M (ps_ratelimiter_create n)"
  by (auto simp: limiter_ok_def ps_ratelimiter_create_def Let_def new_shard_def shard_ok_def entry_ok_def
      empty_entry_def PS_RATELIMIT_SHARDS_def)

lemma allow_at_ok:
  assumes "limiter_ok M rl" and "pm \<le> M" and "M < 2 ^ 31" and "now < 2 ^ 63 - 1"
  shows "limiter_ok M (snd (ps_ratelimiter_allow_at rl key pm now))"
proof (cases "pm \<le> 0")
  case False
  let ?i = "unat (hash_key (bounded_key key)) mod PS_RATELIMIT_SHARDS"
  have "?i < length rl" using assms(1) by (simp add: limiter_ok_def PS_RATELIMIT_SHARDS_def)
  then have "shard_ok M (rl ! ?i)" using assms(1) by (simp add: limiter_ok_def)
  from shard_allow_ok [OF this _ assms(2-4), of "hash_key (bounded_key key)" key] False
  have "shard_ok M (snd (shard_allow (rl ! ?i) (hash_key (bounded_key key)) (bounded_key key) pm now))" by simp
  with assms(1) False show ?thesis
    using set_update_subset_insert [of rl ?i "snd (shard_allow (rl ! ?i) (hash_key (bounded_key key)) (bounded_key key) pm now)"]
    by (auto simp: ps_ratelimiter_allow_at_def Let_def limiter_ok_def split: prod.split)
qed (use assms in \<open>simp add: ps_ratelimiter_allow_at_def\<close>)

interpretation ratelimit: rate_limiter "limiter_ok (2 ^ 31 - 1)" ps_ratelimiter_allow_at "2 ^ 31 - 1" "2 ^ 63 - 1"
proof
  show "limiter_ok (2 ^ 31 - 1) (snd (ps_ratelimiter_allow_at s k pm now))"
    if "limiter_ok (2 ^ 31 - 1) s" "pm \<le> 2 ^ 31 - 1" "now < 2 ^ 63 - 1" for s pm now k
    using that by (intro allow_at_ok) auto
  show "ps_ratelimiter_allow_at s k pm now = (False, s)" if "pm \<le> 0" for s k pm now
    using that by (simp add: ps_ratelimiter_allow_at_def)
qed


subsection \<open>Below its cap, a shard is a map from keys to buckets\<close>

definition home :: "rl_shard_t \<Rightarrow> bytes \<Rightarrow> nat" where
  "home sh key = unat (hash_key key) mod length (sh_slots sh)"

definition shard_find :: "rl_shard_t \<Rightarrow> bytes \<Rightarrow> nat option" where
  "shard_find sh key = probe (sh_slots sh) key (home sh key)"

definition shard_lookup :: "rl_shard_t \<Rightarrow> bytes \<Rightarrow> rl_entry_t option" where
  "shard_lookup sh key =
     (case shard_find sh key of
        None \<Rightarrow> None
      | Some i \<Rightarrow> if key_equal (sh_slots sh ! i) key then Some (sh_slots sh ! i) else None)"

text \<open>Every stored key is found from its own home slot.\<close>

definition probing_ok :: "rl_shard_t \<Rightarrow> bool" where
  "probing_ok sh \<longleftrightarrow> (\<forall>i < length (sh_slots sh). rl_occupied (sh_slots sh ! i) \<longrightarrow>
     shard_find sh (rl_key (sh_slots sh ! i)) = Some i)"

text \<open>The bucket a request is charged to: the stored one, or a full one for a new key.\<close>

definition bucket_for :: "rl_shard_t \<Rightarrow> bytes \<Rightarrow> int \<Rightarrow> int64 \<Rightarrow> rl_entry_t" where
  "bucket_for sh key pm now =
     (case shard_lookup sh key of Some e \<Rightarrow> e | None \<Rightarrow> fresh_bucket empty_entry key pm now)"

lemma find_cong_set: "(\<And>x. x \<in> set xs \<Longrightarrow> P x = Q x) \<Longrightarrow> List.find P xs = List.find Q xs"
  by (induction xs) auto

lemma probe_seq_less: "i \<in> set (probe_seq s n) \<Longrightarrow> i < n"
  by (auto simp: probe_seq_def intro!: mod_less_divisor)

lemma probe_update_same:
  assumes "idx < length slots" and "rl_occupied e = rl_occupied (slots ! idx)" and "rl_key e = rl_key (slots ! idx)"
  shows "probe (slots[idx := e]) key s = probe slots key s"
  unfolding probe_def length_list_update
proof (rule find_cong_set)
  fix x assume "x \<in> set (probe_seq s (length slots))"
  then have "x < length slots" by (rule probe_seq_less)
  with assms show "(key_equal (slots[idx := e] ! x) key \<or> \<not> rl_occupied (slots[idx := e] ! x)) =
      (key_equal (slots ! x) key \<or> \<not> rl_occupied (slots ! x))"
    by (cases "x = idx") (auto simp: key_equal_def)
qed

text \<open>Filling an empty slot does not hide a key that was found before it.\<close>

lemma find_agree:
  "List.find P xs = Some j \<Longrightarrow> Q j \<Longrightarrow> (\<And>x. \<not> P x \<Longrightarrow> \<not> Q x) \<Longrightarrow> List.find Q xs = Some j"
  by (induction xs) (auto split: if_splits)

lemma probe_fill:
  assumes "probe slots key s = Some j" and "\<not> rl_occupied (slots ! idx)" and "j \<noteq> idx"
  shows "probe (slots[idx := e]) key s = Some j"
  unfolding probe_def length_list_update
proof (rule find_agree [OF assms(1) [unfolded probe_def]])
  show "key_equal (slots[idx := e] ! j) key \<or> \<not> rl_occupied (slots[idx := e] ! j)"
    using probe_Some(2) [OF assms(1)] assms(3) by simp
  show "\<not> (key_equal (slots[idx := e] ! x) key \<or> \<not> rl_occupied (slots[idx := e] ! x))"
    if "\<not> (key_equal (slots ! x) key \<or> \<not> rl_occupied (slots ! x))" for x
    using that assms(2) by (cases "x = idx") auto
qed

lemma probe_fill_here:
  assumes "probe slots key s = Some idx" and "\<not> rl_occupied (slots ! idx)" and "key_equal e key"
  shows "probe (slots[idx := e]) key s = Some idx"
  unfolding probe_def length_list_update
proof (rule find_agree [OF assms(1) [unfolded probe_def]])
  show "key_equal (slots[idx := e] ! idx) key \<or> \<not> rl_occupied (slots[idx := e] ! idx)"
    using probe_Some(1) [OF assms(1)] assms(3) by simp
  show "\<not> (key_equal (slots[idx := e] ! x) key \<or> \<not> rl_occupied (slots[idx := e] ! x))"
    if "\<not> (key_equal (slots ! x) key \<or> \<not> rl_occupied (slots ! x))" for x
    using that assms(2) by (cases "x = idx") auto
qed

lemma shard_lookup_Some_iff:
  assumes "probing_ok sh"
  shows "shard_lookup sh k = Some e \<longleftrightarrow> (\<exists>i < length (sh_slots sh). sh_slots sh ! i = e \<and> key_equal e k)"
proof
  assume "shard_lookup sh k = Some e"
  then show "\<exists>i < length (sh_slots sh). sh_slots sh ! i = e \<and> key_equal e k"
    by (auto simp: shard_lookup_def shard_find_def split: option.splits if_splits dest: probe_Some)
next
  assume "\<exists>i < length (sh_slots sh). sh_slots sh ! i = e \<and> key_equal e k"
  with assms show "shard_lookup sh k = Some e"
    by (auto simp: probing_ok_def key_equal_def shard_lookup_def)
qed

text \<open>Storing a bucket of a key in the slot its search ends at: the key is found there, and no other key moves.\<close>

lemma store_find:
  assumes idx: "shard_find sh key = Some idx" and e: "key_equal e key" and sl: "sh_slots sh' = (sh_slots sh)[idx := e]"
  shows "shard_find sh' key = Some idx" and "shard_find sh k = Some j \<Longrightarrow> j \<noteq> idx \<Longrightarrow> shard_find sh' k = Some j"
proof -
  note p = probe_Some [OF idx [unfolded shard_find_def]]
  have home': "home sh' k = home sh k" for k by (simp add: home_def sl)
  have same: "shard_find sh' k = shard_find sh k" if "rl_occupied (sh_slots sh ! idx)" for k
    using that p(2) e probe_update_same [OF p(1), of e] by (auto simp: shard_find_def sl home' key_equal_def)
  show "shard_find sh' key = Some idx"
    using idx e same [of key]
    by (cases "rl_occupied (sh_slots sh ! idx)") (simp_all add: shard_find_def sl home' probe_fill_here)
  show "shard_find sh' k = Some j" if "shard_find sh k = Some j" "j \<noteq> idx"
    using that same [of k]
    by (cases "rl_occupied (sh_slots sh ! idx)") (simp_all add: shard_find_def sl home' probe_fill)
qed

lemma store_probing:
  assumes ok: "probing_ok sh" and idx: "shard_find sh key = Some idx" and e: "key_equal e key"
    and sl: "sh_slots sh' = (sh_slots sh)[idx := e]"
  shows "probing_ok sh'"
  unfolding probing_ok_def sl length_list_update
proof (intro allI impI)
  fix j assume j: "j < length (sh_slots sh)" "rl_occupied ((sh_slots sh)[idx := e] ! j)"
  note p = probe_Some [OF idx [unfolded shard_find_def]] and f = store_find [OF idx e sl]
  show "shard_find sh' (rl_key ((sh_slots sh)[idx := e] ! j)) = Some j"
  proof (cases "j = idx")
    case True
    then show ?thesis using f(1) e p(1) by (simp add: key_equal_def)
  next
    case False
    then show ?thesis using f(2) [of _ j] j ok by (simp add: probing_ok_def)
  qed
qed

lemma store_lookup:
  assumes ok: "probing_ok sh" and idx: "shard_find sh key = Some idx" and e: "key_equal e key"
    and sl: "sh_slots sh' = (sh_slots sh)[idx := e]"
  shows "shard_lookup sh' = (shard_lookup sh)(key \<mapsto> e)"
proof
  fix k
  note p = probe_Some [OF idx [unfolded shard_find_def]]
  show "shard_lookup sh' k = ((shard_lookup sh)(key \<mapsto> e)) k"
  proof (cases "k = key")
    case True
    then show ?thesis using store_find(1) [OF idx e sl] e p(1) by (simp add: shard_lookup_def sl)
  next
    case False
    have "shard_lookup sh' k = Some x \<longleftrightarrow> shard_lookup sh k = Some x" for x
      unfolding shard_lookup_Some_iff [OF store_probing [OF assms]] shard_lookup_Some_iff [OF ok] sl length_list_update
      using False e p by (metis key_equal_def nth_list_update)
    then have "shard_lookup sh' k = shard_lookup sh k" by (metis option.exhaust)
    with False show ?thesis by simp
  qed
qed

lemma charged_key: "key_equal (snd (consume (bucket_for sh key pm now) pm now)) key"
  by (cases "shard_lookup sh key")
    (auto simp: bucket_for_def key_equal_def fresh_bucket_def shard_lookup_def split: option.splits if_splits)

lemma shard_allow_slots:
  fixes now :: int64
  assumes pm: "0 < pm" "pm < 2 ^ 31" and idx: "shard_find sh key = Some idx"
    and room: "shard_lookup sh key \<noteq> None \<or> sh_occupied sh < sh_cap sh"
  defines "b \<equiv> consume (bucket_for sh key pm now) pm now"
    and "r \<equiv> shard_allow sh (hash_key key) key pm now"
  shows "fst r = fst b \<and> sh_slots (snd r) = (sh_slots sh)[idx := snd b]"
proof (cases "key_equal (sh_slots sh ! idx) key")
  case True
  then have "bucket_for sh key pm now = sh_slots sh ! idx" using idx by (simp add: bucket_for_def shard_lookup_def)
  then show ?thesis using True idx
    by (simp add: r_def b_def shard_allow_def Let_def shard_find_def home_def put_bucket_def split: prod.split)
next
  case False
  have "consume (fresh_bucket (sh_slots sh ! idx) key pm now) pm now = consume (fresh_bucket empty_entry key pm now) pm now"
    using consume_fresh [OF pm, of _ key now] by simp
  moreover have "bucket_for sh key pm now = fresh_bucket empty_entry key pm now" and "sh_occupied sh < sh_cap sh"
    using False idx room by (auto simp: bucket_for_def shard_lookup_def)
  ultimately show ?thesis using False idx
    by (simp add: r_def b_def shard_allow_def Let_def shard_find_def home_def put_bucket_def split: prod.split)
qed

text \<open>
  A request for a key that is stored, or for which there is room, is charged to that key's bucket
  and leaves every other bucket alone.
\<close>

lemma shard_allow_map:
  fixes now :: int64
  assumes "shard_ok M sh" and "probing_ok sh" and "0 < pm" and "pm < 2 ^ 31"
    and "shard_lookup sh key \<noteq> None \<or> sh_occupied sh < sh_cap sh"
  defines "b \<equiv> consume (bucket_for sh key pm now) pm now"
    and "r \<equiv> shard_allow sh (hash_key key) key pm now"
  shows "fst r = fst b" and "probing_ok (snd r)" and "shard_lookup (snd r) = (shard_lookup sh)(key \<mapsto> snd b)"
proof -
  from shard_has_free [OF assms(1)] obtain i where i: "i < length (sh_slots sh)" "\<not> rl_occupied (sh_slots sh ! i)" by blast
  from probe_not_None [OF i] obtain idx where idx: "shard_find sh key = Some idx" unfolding shard_find_def by blast
  note r = shard_allow_slots [OF assms(3,4) idx assms(5), where now = now, folded b_def r_def]
  note st = assms(2) idx charged_key [of sh key pm now, folded b_def] conjunct2 [OF r]
  from r show "fst r = fst b" by simp
  show "probing_ok (snd r)" by (rule store_probing [OF st])
  show "shard_lookup (snd r) = (shard_lookup sh)(key \<mapsto> snd b)" by (rule store_lookup [OF st])
qed


subsection \<open>Bursts\<close>

text \<open>The bucket of a key in the whole limiter, and the states in which every shard is a map.\<close>

definition shard_ix :: "bytes \<Rightarrow> nat" where
  "shard_ix key = unat (hash_key key) mod PS_RATELIMIT_SHARDS"

definition rl_bucket :: "ps_ratelimiter_t \<Rightarrow> bytes \<Rightarrow> rl_entry_t option" where
  "rl_bucket rl key = shard_lookup (rl ! shard_ix (bounded_key key)) (bounded_key key)"

definition limiter_map_ok :: "int \<Rightarrow> ps_ratelimiter_t \<Rightarrow> bool" where
  "limiter_map_ok M rl \<longleftrightarrow> limiter_ok M rl \<and> (\<forall>sh \<in> set rl. probing_ok sh)"

definition has_room :: "ps_ratelimiter_t \<Rightarrow> bytes \<Rightarrow> bool" where
  "has_room rl key \<longleftrightarrow>
     sh_occupied (rl ! shard_ix (bounded_key key)) < sh_cap (rl ! shard_ix (bounded_key key))"

definition charged_bucket :: "ps_ratelimiter_t \<Rightarrow> bytes \<Rightarrow> int \<Rightarrow> int64 \<Rightarrow> rl_entry_t" where
  "charged_bucket rl key pm now =
     (case rl_bucket rl key of Some e \<Rightarrow> e | None \<Rightarrow> fresh_bucket empty_entry (bounded_key key) pm now)"

lemma shard_ix_less: "limiter_ok M rl \<Longrightarrow> shard_ix key < length rl"
  by (simp add: limiter_ok_def shard_ix_def PS_RATELIMIT_SHARDS_def)

lemma allow_at_map:
  assumes "limiter_map_ok M rl" and "0 < pm" and "pm \<le> M" and "M < 2 ^ 31" and "now < 2 ^ 63 - 1"
    and "rl_bucket rl key \<noteq> None \<or> has_room rl key"
  shows "fst (ps_ratelimiter_allow_at rl key pm now) = fst (consume (charged_bucket rl key pm now) pm now)"
    and "limiter_map_ok M (snd (ps_ratelimiter_allow_at rl key pm now))"
    and "rl_bucket (snd (ps_ratelimiter_allow_at rl key pm now)) k =
      (if bounded_key k = bounded_key key then Some (snd (consume (charged_bucket rl key pm now) pm now))
       else rl_bucket rl k)"
proof -
  let ?k = "bounded_key key" and ?i = "shard_ix (bounded_key key)"
  let ?r = "shard_allow (rl ! ?i) (hash_key ?k) ?k pm now"
  from assms(1) have ok: "limiter_ok M rl" "\<forall>sh \<in> set rl. probing_ok sh" by (simp_all add: limiter_map_ok_def)
  have i: "?i < length rl" using ok(1) by (rule shard_ix_less)
  have sh: "shard_ok M (rl ! ?i)" "probing_ok (rl ! ?i)" using ok i by (auto simp: limiter_ok_def)
  have "pm < 2 ^ 31" using assms by simp
  note m = shard_allow_map [OF sh assms(2) this assms(6) [unfolded rl_bucket_def has_room_def], of now]
  have b: "charged_bucket rl key pm now = bucket_for (rl ! ?i) ?k pm now"
    by (simp add: charged_bucket_def bucket_for_def rl_bucket_def)
  have eq: "ps_ratelimiter_allow_at rl key pm now = (fst ?r, rl[?i := snd ?r])"
    using assms(2) by (simp add: ps_ratelimiter_allow_at_def Let_def shard_ix_def split: prod.split)
  show "fst (ps_ratelimiter_allow_at rl key pm now) = fst (consume (charged_bucket rl key pm now) pm now)"
    using m(1) by (simp add: eq b)
  show "limiter_map_ok M (snd (ps_ratelimiter_allow_at rl key pm now))"
    using allow_at_ok [OF ok(1) assms(3-5), of key] m(2) ok(2) set_update_subset_insert [of rl ?i "snd ?r"]
    by (auto simp: limiter_map_ok_def eq)
  show "rl_bucket (snd (ps_ratelimiter_allow_at rl key pm now)) k =
      (if bounded_key k = ?k then Some (snd (consume (charged_bucket rl key pm now) pm now)) else rl_bucket rl k)"
    using m(3) i by (cases "shard_ix (bounded_key k) = ?i") (auto simp: rl_bucket_def eq b)
qed

lemma consume_same_time:
  assumes "rl_last_refill_ns e = now" and "rl_tokens e = of_int t" and "0 \<le> t" and "t < 2 ^ 31"
  shows "fst (consume e pm now) = (0 < t)" and "rl_tokens (snd (consume e pm now)) = of_int (if 0 < t then t - 1 else 0)"
    and "rl_last_refill_ns (snd (consume e pm now)) = now"
proof -
  have "fl (of_int t - 1) = (of_int (t - 1) :: rat)" if "0 < t"
    using fl_of_int [of "t - 1"] assms that by simp
  then show "fst (consume e pm now) = (0 < t)"
    and "rl_tokens (snd (consume e pm now)) = of_int (if 0 < t then t - 1 else 0)"
    and "rl_last_refill_ns (snd (consume e pm now)) = now"
    using assms by (auto simp: consume_def Let_def)
qed

lemma burst_from:
  assumes "limiter_map_ok M rl" and "0 < pm" and "pm \<le> M" and "M < 2 ^ 31" and "now < 2 ^ 63 - 1"
    and "rl_bucket rl key = Some e" and "rl_last_refill_ns e = now" and "rl_tokens e = of_int t" and "0 \<le> t" and "t \<le> M"
  shows "fst (allow_seq ps_ratelimiter_allow_at rl (replicate n (key, pm, now))) = map (\<lambda>i. int i < t) [0..<n]"
  using assms
proof (induction n arbitrary: rl e t)
  case (Suc n)
  let ?rl = "snd (ps_ratelimiter_allow_at rl key pm now)"
  have cb: "charged_bucket rl key pm now = e" using Suc.prems(6) by (simp add: charged_bucket_def)
  note st = allow_at_map [OF Suc.prems(1-5), of key, unfolded cb]
  note cs = consume_same_time [OF Suc.prems(7,8,9), of pm]
  have tM: "t < 2 ^ 31" using Suc.prems by simp
  have bk: "rl_bucket ?rl key = Some (snd (consume e pm now))" using st(3) [of key] Suc.prems(6) by simp
  have "fst (allow_seq ps_ratelimiter_allow_at ?rl (replicate n (key, pm, now))) =
      map (\<lambda>i. int i < (if 0 < t then t - 1 else 0)) [0..<n]"
    by (rule Suc.IH [OF _ Suc.prems(2-5) bk cs(3) [OF tM] cs(2) [OF tM]])
      (use st(2) Suc.prems in auto)
  moreover have "fst (ps_ratelimiter_allow_at rl key pm now) = (0 < t)"
    using st(1) Suc.prems(6) cs(1) [OF tM] by simp
  moreover have "map (\<lambda>i. int i < t) [0..<Suc n] = (0 < t) # map (\<lambda>i. int i < (if 0 < t then t - 1 else 0)) [0..<n]"
    using Suc.prems(9) unfolding upt_conv_Cons [OF zero_less_Suc] map_Suc_upt [symmetric] by auto
  ultimately show ?case by (simp add: split_def)
qed simp

lemma burst_new_key:
  assumes "limiter_map_ok M rl" and "0 < pm" and "pm \<le> M" and "M < 2 ^ 31" and "now < 2 ^ 63 - 1"
    and "rl_bucket rl key = None" and "has_room rl key"
  shows "fst (allow_seq ps_ratelimiter_allow_at rl (replicate n (key, pm, now))) = map (\<lambda>i. int i < pm) [0..<n]"
proof (cases n)
  case (Suc m)
  let ?rl = "snd (ps_ratelimiter_allow_at rl key pm now)"
  note st = allow_at_map [OF assms(1-5) disjI2 [OF assms(7)]]
  have c: "consume (charged_bucket rl key pm now) pm now =
      (True, \<lparr>rl_key = bounded_key key, rl_occupied = True, rl_tokens = of_int (pm - 1),
            rl_last_refill_ns = now, rl_last_used_ns = now\<rparr>)"
    using assms consume_fresh [of pm empty_entry "bounded_key key" now]
    by (simp add: charged_bucket_def empty_entry_def)
  have "fst (allow_seq ps_ratelimiter_allow_at ?rl (replicate m (key, pm, now))) = map (\<lambda>i. int i < pm - 1) [0..<m]"
    by (rule burst_from [OF st(2) assms(2-5) st(3) [of key, unfolded c, simplified]]) (use assms in auto)
  moreover have "map (\<lambda>i. int i < pm) [0..<n] = True # map (\<lambda>i. int i < pm - 1) [0..<m]"
    using assms(2) unfolding Suc upt_conv_Cons [OF zero_less_Suc] map_Suc_upt [symmetric] by auto
  moreover have "fst (ps_ratelimiter_allow_at rl key pm now) = True" using st(1) by (simp add: c)
  ultimately show ?thesis by (simp add: Suc split_def)
qed simp


subsection \<open>Eviction\<close>

text \<open>
  When a shard is at its cap, a new key takes the slot of the evicted one, which need not lie on its
  own probe sequence. If its home slot is empty, the next lookup stops there, does not find the key,
  and gives it a full bucket again. The condition below is preserved by such a request.
\<close>

definition evicted_open :: "rl_shard_t \<Rightarrow> bytes \<Rightarrow> bool" where
  "evicted_open sh key \<longleftrightarrow> sh_occupied sh = sh_cap sh \<and> \<not> rl_occupied (sh_slots sh ! home sh key)"

lemma probe_home_empty:
  "0 < length slots \<Longrightarrow> s < length slots \<Longrightarrow> \<not> rl_occupied (slots ! s) \<Longrightarrow> probe slots key s = Some s"
proof -
  assume l: "0 < length slots" "s < length slots" "\<not> rl_occupied (slots ! s)"
  then have "probe_seq s (length slots) = s # map (\<lambda>p. (s + p) mod length slots) [1..<length slots]"
    by (simp add: probe_seq_def upt_conv_Cons)
  with l show ?thesis by (simp add: probe_def)
qed

lemma evicted_open_step:
  assumes "shard_ok M sh" and "evicted_open sh key" and "0 < pm" and "pm \<le> M" and "M < 2 ^ 31"
  shows "fst (shard_allow sh (hash_key key) key pm now)" and "evicted_open (snd (shard_allow sh (hash_key key) key pm now)) key"
proof -
  let ?slots = "sh_slots sh"
  have len: "0 < length ?slots" using assms(1) by (auto simp: shard_ok_def)
  then have h: "home sh key < length ?slots" by (simp add: home_def)
  have e: "\<not> rl_occupied (?slots ! home sh key)" "sh_occupied sh = sh_cap sh" using assms(2) by (simp_all add: evicted_open_def)
  have pr: "probe ?slots key (home sh key) = Some (home sh key)" using probe_home_empty [OF len h e(1)] .
  have "filter rl_occupied ?slots \<noteq> []" using assms(1) e(2) by (auto simp: shard_ok_def)
  then obtain j where j: "j < length ?slots" "rl_occupied (?slots ! j)" by (auto simp: filter_empty_conv in_set_conv_nth)
  then have "rl_last_used_ns (?slots ! j) < 2 ^ 63 - 1" using assms(1) by (simp add: shard_ok_def entry_ok_def)
  note v = lru_victim [OF j this]
  then have ne: "lru_victim ?slots \<noteq> home sh key" using e(1) by auto
  have "\<not> key_equal (?slots ! home sh key) key" using e(1) by (simp add: key_equal_def)
  then have r: "shard_allow sh (hash_key key) key pm now =
      (case consume (fresh_bucket (?slots ! lru_victim ?slots) key pm now) pm now of
         (ok, b) \<Rightarrow> (ok, put_bucket sh (lru_victim ?slots) b))"
    using pr e(2) by (simp add: shard_allow_def Let_def home_def)
  have c: "fst (consume (fresh_bucket (?slots ! lru_victim ?slots) key pm now) pm now)"
    using consume_fresh [of pm "?slots ! lru_victim ?slots" key now] assms by simp
  show "fst (shard_allow sh (hash_key key) key pm now)" using c by (simp add: r split_def)
  show "evicted_open (snd (shard_allow sh (hash_key key) key pm now)) key"
    using e ne by (simp add: r split_def evicted_open_def put_bucket_def home_def)
qed

definition limiter_open :: "ps_ratelimiter_t \<Rightarrow> bytes \<Rightarrow> bool" where
  "limiter_open rl key \<longleftrightarrow> evicted_open (rl ! shard_ix (bounded_key key)) (bounded_key key)"

lemma limiter_open_step:
  assumes "limiter_ok M rl" and "limiter_open rl key" and "0 < pm" and "pm \<le> M" and "M < 2 ^ 31" and "now < 2 ^ 63 - 1"
  shows "fst (ps_ratelimiter_allow_at rl key pm now)" and "limiter_open (snd (ps_ratelimiter_allow_at rl key pm now)) key"
    and "limiter_ok M (snd (ps_ratelimiter_allow_at rl key pm now))"
proof -
  let ?i = "shard_ix (bounded_key key)"
  have i: "?i < length rl" using assms(1) by (rule shard_ix_less)
  then have sh: "shard_ok M (rl ! ?i)" using assms(1) by (simp add: limiter_ok_def)
  note st = evicted_open_step [OF sh assms(2) [unfolded limiter_open_def] assms(3-5)]
  show "fst (ps_ratelimiter_allow_at rl key pm now)" and "limiter_open (snd (ps_ratelimiter_allow_at rl key pm now)) key"
    using st assms(3) i by (auto simp: ps_ratelimiter_allow_at_def Let_def shard_ix_def limiter_open_def split_def)
  show "limiter_ok M (snd (ps_ratelimiter_allow_at rl key pm now))" using allow_at_ok assms by blast
qed

lemma limiter_open_seq:
  assumes "limiter_ok M rl" and "limiter_open rl key" and "0 < pm" and "pm \<le> M" and "M < 2 ^ 31"
    and "\<forall>now \<in> set nows. now < 2 ^ 63 - 1"
  shows "fst (allow_seq ps_ratelimiter_allow_at rl (map (\<lambda>now. (key, pm, now)) nows)) = replicate (length nows) True"
  using assms
proof (induction nows arbitrary: rl)
  case (Cons now nows)
  note st = limiter_open_step [OF Cons.prems(1-5), of now]
  from Cons.IH [OF st(3,2) Cons.prems(3-5)] st(1) Cons.prems(6) show ?case by (simp add: split_def)
qed simp

text \<open>Such a state is reached from a new limiter for 48 keys with one request each for four keys.\<close>

definition example_open_limiter :: ps_ratelimiter_t where
  "example_open_limiter =
     snd (allow_seq ps_ratelimiter_allow_at (ps_ratelimiter_create 48) [(''3'', 1, 0), (''S'', 1, 0), (''c'', 1, 0)])"

lemma example_hashes:
  "hash_key ''3'' = 12638136623020744290" "hash_key ''S'' = 12638242176137052546"
  "hash_key ''c'' = 12638189399578898418" "hash_key ''s'' = 12638206991764949794"
  by (simp_all add: hash_key_def)

definition example_shard :: "bytes list \<Rightarrow> rl_shard_t" where
  "example_shard ks =
     \<lparr>sh_slots = take 6 (map (\<lambda>k. \<lparr>rl_key = k, rl_occupied = True, rl_tokens = 0, rl_last_refill_ns = 0, rl_last_used_ns = 0\<rparr>) ks @
        [empty_entry, empty_entry, empty_entry, empty_entry, empty_entry, empty_entry]), sh_cap = 3, sh_occupied = length ks\<rparr>"

lemma example_empty: "rl_occupied empty_entry = False"
  by (simp add: empty_entry_def)

lemma example_probe_seq: "probe_seq 0 (Suc (Suc (Suc (Suc (Suc (Suc 0)))))) = [0, 1, 2, 3, 4, 5]"
  by (simp add: probe_seq_def)

lemma example_consume: "consume (fresh_bucket empty_entry k 1 0) 1 0 =
   (True, \<lparr>rl_key = k, rl_occupied = True, rl_tokens = 0, rl_last_refill_ns = 0, rl_last_used_ns = 0\<rparr>)"
  using consume_fresh [of 1 empty_entry k 0] by (simp add: empty_entry_def)

lemma example_steps:
  "shard_allow (example_shard []) 12638136623020744290 ''3'' 1 0 = (True, example_shard [''3''])"
  "shard_allow (example_shard [''3'']) 12638242176137052546 ''S'' 1 0 = (True, example_shard [''3'', ''S''])"
  "shard_allow (example_shard [''3'', ''S'']) 12638189399578898418 ''c'' 1 0 = (True, example_shard [''3'', ''S'', ''c''])"
  by (simp_all add: shard_allow_def example_shard_def probe_def example_probe_seq example_consume put_bucket_def
      key_equal_def Let_def example_empty)

lemma example_limiter_eq: "example_open_limiter = (ps_ratelimiter_create 48)[2 := example_shard [''3'', ''S'', ''c'']]"
proof -
  have new: "new_shard 3 = example_shard []"
    by (simp add: new_shard_def example_shard_def numeral_eq_Suc)
  have cr: "ps_ratelimiter_create 48 ! 2 = example_shard []" "length (ps_ratelimiter_create 48) = 16"
    by (simp_all add: ps_ratelimiter_create_def PS_RATELIMIT_SHARDS_def new)
  have bk: "bounded_key ''3'' = ''3''" "bounded_key ''S'' = ''S''" "bounded_key ''c'' = ''c''"
    by (simp_all add: bounded_key_def c_snprintf_s_def PS_RATELIMIT_KEY_MAX_def)
  show ?thesis
    by (simp add: example_open_limiter_def ps_ratelimiter_allow_at_def Let_def bk example_hashes example_steps cr
        PS_RATELIMIT_SHARDS_def)
qed

lemma example_limiter_open: "limiter_open example_open_limiter ''s''"
proof -
  have bk: "bounded_key ''s'' = ''s''" by (simp add: bounded_key_def c_snprintf_s_def PS_RATELIMIT_KEY_MAX_def)
  have "length (ps_ratelimiter_create 48) = 16" by (simp add: ps_ratelimiter_create_def PS_RATELIMIT_SHARDS_def)
  then show ?thesis
    by (simp add: limiter_open_def example_limiter_eq bk shard_ix_def example_hashes PS_RATELIMIT_SHARDS_def
        evicted_open_def home_def example_shard_def example_empty)
qed


subsection \<open>Properties\<close>

text \<open>A request never corrupts the limiter: the tables keep their size, at most half of each
  shard's slots are occupied, and every bucket holds between 0 and the largest configured budget of
  tokens, whatever the keys, times and rounding errors.\<close>

theorem allow_at_preserves_bounds:
  assumes "limiter_ok M rl" and "pm \<le> M" and "M < 2 ^ 31" and "now < 2 ^ 63 - 1"
  shows "limiter_ok M (snd (ps_ratelimiter_allow_at rl key pm now))"
  using assms by (rule allow_at_ok)

theorem allow_at_preserves_bounds_witness:
  "limiter_ok 60 (snd (ps_ratelimiter_allow_at (ps_ratelimiter_create 16) ''a'' 60 5))"
  by (rule allow_at_preserves_bounds) (simp_all add: create_ok)

text \<open>C32. While a key's shard has room, the sharded open-addressed table behaves as a map from keys to
  buckets: the request is judged by the key's own bucket (a full one for a new key), that bucket is
  updated, and no other key's bucket changes.\<close>

theorem allow_at_refines_bucket_map:
  assumes "limiter_map_ok M rl" and "0 < pm" and "pm \<le> M" and "M < 2 ^ 31" and "now < 2 ^ 63 - 1"
    and "rl_bucket rl key \<noteq> None \<or> has_room rl key"
  shows "fst (ps_ratelimiter_allow_at rl key pm now) = fst (consume (charged_bucket rl key pm now) pm now) \<and>
    limiter_map_ok M (snd (ps_ratelimiter_allow_at rl key pm now)) \<and>
    (\<forall>k. rl_bucket (snd (ps_ratelimiter_allow_at rl key pm now)) k =
      (if bounded_key k = bounded_key key then Some (snd (consume (charged_bucket rl key pm now) pm now))
       else rl_bucket rl k))"
  using allow_at_map [OF assms] by blast

lemma create_map_ok: "0 \<le> M \<Longrightarrow> limiter_map_ok M (ps_ratelimiter_create n)"
  using create_ok [of M n]
  by (auto simp: limiter_map_ok_def probing_ok_def ps_ratelimiter_create_def Let_def new_shard_def empty_entry_def)

lemma create_has_room: "has_room (ps_ratelimiter_create n) key"
  by (simp add: has_room_def shard_ix_def ps_ratelimiter_create_def Let_def new_shard_def PS_RATELIMIT_SHARDS_def)

theorem allow_at_refines_bucket_map_witness:
  "fst (ps_ratelimiter_allow_at (ps_ratelimiter_create 16) ''a'' 60 5) =
     fst (consume (charged_bucket (ps_ratelimiter_create 16) ''a'' 60 5) 60 5)"
  using allow_at_refines_bucket_map [OF create_map_ok [of 60 16], of 60 5 "''a''"] create_has_room [of 16 "''a''"]
  by simp


lemma create_bucket_None: "rl_bucket (ps_ratelimiter_create n) key = None"
proof -
  have "\<not> rl_occupied e" if "e \<in> set (sh_slots (new_shard c))" for e c
    using that by (auto simp: new_shard_def empty_entry_def)
  moreover have "\<exists>c. ps_ratelimiter_create n ! shard_ix (bounded_key key) = new_shard c"
    by (auto simp: ps_ratelimiter_create_def Let_def shard_ix_def PS_RATELIMIT_SHARDS_def)
  ultimately have "\<not> rl_occupied (sh_slots (ps_ratelimiter_create n ! shard_ix (bounded_key key)) ! i)"
    if "i < length (sh_slots (ps_ratelimiter_create n ! shard_ix (bounded_key key)))" for i
    using that by (metis nth_mem)
  then show ?thesis
    by (auto simp: rl_bucket_def shard_lookup_def shard_find_def key_equal_def split: option.split dest: probe_Some(1))
qed




end
