(* ===== verification/Threadpool.thy ===== *)
theory Threadpool
  imports Prelude
begin

text \<open>
  The bounded worker pool (\<^verbatim>\<open>src/src/platform/threadpool.c\<close>, \<^verbatim>\<open>threadpool.h\<close>) as a state machine. The ring
  buffer and its operations are functions on the record \<open>pool\<close>; each of them runs under the pool's
  mutex and is one step. A worker is \<open>Ready\<close> (about to take the lock at the top of its loop),
  \<open>Waiting\<close> on the condition variable, \<open>Running\<close> a job, or \<open>Exited\<close>. \<^verbatim>\<open>pthread_cond_signal\<close> wakes one
  waiting worker if there is one, \<^verbatim>\<open>pthread_cond_broadcast\<close> all of them, and a waiting worker may
  also wake up spuriously. The jobs accepted, started and discarded so far are kept as history.

  \<open>bounded_queue\<close> is the contract between the ring and the pool: a first-in first-out list of at
  most \<open>cap\<close> elements.
\<close>

record 'j pool =
  ring :: "'j list"
  capacity :: nat
  head :: nat
  cnt :: nat

definition pool_new :: "nat \<Rightarrow> 'j \<Rightarrow> 'j pool" where
  "pool_new cap j0 = \<lparr>ring = replicate cap j0, capacity = cap, head = 0, cnt = 0\<rparr>"

text \<open>\<open>None\<close> is the refusal of a full queue.\<close>

definition ring_push :: "'j pool \<Rightarrow> 'j \<Rightarrow> 'j pool option" where
  "ring_push p j =
     (if cnt p = capacity p then None
      else let tail = (head p + cnt p) mod capacity p
           in Some (p\<lparr>ring := (ring p)[tail := j], cnt := cnt p + 1\<rparr>))"

definition ring_pop :: "'j pool \<Rightarrow> ('j \<times> 'j pool) option" where
  "ring_pop p =
     (if cnt p = 0 then None
      else Some (ring p ! head p, p\<lparr>head := (head p + 1) mod capacity p, cnt := cnt p - 1\<rparr>))"

definition ring_clear :: "'j pool \<Rightarrow> 'j pool" where
  "ring_clear p = p\<lparr>cnt := 0, head := 0\<rparr>"

definition ps_threadpool_queue_length :: "'j pool \<Rightarrow> nat" where
  "ps_threadpool_queue_length p = cnt p"

text \<open>The queued jobs, oldest first, and well-formedness of the ring.\<close>

definition queued :: "'j pool \<Rightarrow> 'j list" where
  "queued p = map (\<lambda>i. ring p ! ((head p + i) mod capacity p)) [0..<cnt p]"

definition pool_ok :: "'j pool \<Rightarrow> bool" where
  "pool_ok p \<longleftrightarrow> 0 < capacity p \<and> length (ring p) = capacity p \<and> head p < capacity p \<and> cnt p \<le> capacity p"

locale bounded_queue =
  fixes inv :: "'q \<Rightarrow> bool"
    and content :: "'q \<Rightarrow> 'j list"
    and cap :: "'q \<Rightarrow> nat"
    and push :: "'q \<Rightarrow> 'j \<Rightarrow> 'q option"
    and pop :: "'q \<Rightarrow> ('j \<times> 'q) option"
  assumes content_le: "inv q \<Longrightarrow> length (content q) \<le> cap q"
    and push_full: "inv q \<Longrightarrow> push q j = None \<longleftrightarrow> length (content q) = cap q"
    and push_content: "inv q \<Longrightarrow> push q j = Some q' \<Longrightarrow> inv q' \<and> content q' = content q @ [j] \<and> cap q' = cap q"
    and pop_empty: "inv q \<Longrightarrow> pop q = None \<longleftrightarrow> content q = []"
    and pop_content: "inv q \<Longrightarrow> pop q = Some (j, q') \<Longrightarrow> inv q' \<and> content q = j # content q' \<and> cap q' = cap q"
begin

lemma pop_after_push_empty:
  assumes "inv q" and "content q = []" and "push q j = Some q1"
  shows "\<exists>q2. pop q1 = Some (j, q2) \<and> content q2 = []"
proof -
  from push_content [OF assms(1,3)] assms(2) have q1: "inv q1" "content q1 = [j]" by auto
  then have "pop q1 \<noteq> None" using pop_empty by fastforce
  then obtain k q2 where "pop q1 = Some (k, q2)" by auto
  with pop_content [OF q1(1) this] q1 show ?thesis by auto
qed

fun push_all :: "'q \<Rightarrow> 'j list \<Rightarrow> 'q option" where
  "push_all q [] = Some q"
| "push_all q (j # js) = (case push q j of None \<Rightarrow> None | Some q' \<Rightarrow> push_all q' js)"

lemma push_all_content:
  "inv q \<Longrightarrow> push_all q js = Some q' \<Longrightarrow> inv q' \<and> content q' = content q @ js \<and> length (content q) + length js \<le> cap q"
proof (induction js arbitrary: q)
  case Nil
  then show ?case using content_le by auto
next
  case (Cons j js)
  then obtain q1 where q1: "push q j = Some q1" "push_all q1 js = Some q'" by (auto split: option.splits)
  from push_content [OF Cons.prems(1) q1(1)] Cons.IH [OF _ q1(2)] show ?case by auto
qed

end

lemma mod_add_inj:
  fixes a i c n :: nat
  assumes "(a + i) mod n = (a + c) mod n" and "i < n" and "c < n"
  shows "i = c"
proof (rule ccontr)
  have *: "False" if "(a + i) mod n = (a + c) mod n" "i < c" "c < n" for i c
  proof -
    from that have "n dvd (a + c) - (a + i)" using mod_eq_dvd_iff_nat [of "a + i" "a + c" n] by simp
    with that show False by (auto dest: dvd_imp_le)
  qed
  assume "i \<noteq> c"
  with assms * [of i c] * [of c i] show False by linarith
qed

lemma queued_push:
  assumes "pool_ok p" and "cnt p < capacity p"
  defines "t \<equiv> (head p + cnt p) mod capacity p"
  shows "queued (p\<lparr>ring := (ring p)[t := j], cnt := cnt p + 1\<rparr>) = queued p @ [j]"
proof -
  have t: "t < length (ring p)" using assms by (simp add: pool_ok_def t_def)
  have "t \<noteq> (head p + i) mod capacity p" if "i < cnt p" for i
    using mod_add_inj [of "head p" i "capacity p" "cnt p"] that assms(2) by (auto simp: t_def)
  then show ?thesis using t by (auto simp: queued_def t_def [symmetric])
qed

lemma queued_pop:
  assumes "pool_ok p" and "cnt p \<noteq> 0"
  shows "queued p = ring p ! head p # queued (p\<lparr>head := (head p + 1) mod capacity p, cnt := cnt p - 1\<rparr>)"
proof -
  from assms(2) obtain m where m: "cnt p = Suc m" by (cases "cnt p") auto
  have "ring p ! ((head p + Suc i) mod capacity p) = ring p ! (((head p + 1) mod capacity p + i) mod capacity p)" for i
    by (simp add: mod_add_left_eq)
  moreover have "ring p ! ((head p + 0) mod capacity p) = ring p ! head p" using assms(1) by (simp add: pool_ok_def)
  moreover have "map f [0..<Suc m] = f 0 # map (\<lambda>i. f (Suc i)) [0..<m]" for f :: "nat \<Rightarrow> 'a"
    by (simp add: upt_conv_Cons del: upt_Suc flip: map_Suc_upt)
  ultimately show ?thesis
    unfolding queued_def m by (simp del: upt_Suc)
qed

interpretation ring_queue: bounded_queue pool_ok queued capacity ring_push ring_pop
proof
  fix p p' :: "'a pool" and j :: 'a
  assume ok: "pool_ok p"
  show "length (queued p) \<le> capacity p" using ok by (simp add: queued_def pool_ok_def)
  show "ring_push p j = None \<longleftrightarrow> length (queued p) = capacity p" by (simp add: ring_push_def queued_def Let_def)
  show "pool_ok p' \<and> queued p' = queued p @ [j] \<and> capacity p' = capacity p" if "ring_push p j = Some p'"
    using that ok queued_push [OF ok, of j] by (auto simp: ring_push_def Let_def pool_ok_def split: if_splits)
  show "ring_pop p = None \<longleftrightarrow> queued p = []" by (simp add: ring_pop_def queued_def)
  show "pool_ok p' \<and> queued p = j # queued p' \<and> capacity p' = capacity p" if "ring_pop p = Some (j, p')"
    using that ok queued_pop [OF ok] by (auto simp: ring_pop_def pool_ok_def split: if_splits)
qed


subsection \<open>The pool with its workers\<close>

datatype 'j worker = Ready | Waiting | Running 'j | Exited

record 'j tp_state =
  tp_pool :: "'j pool"
  tp_workers :: "'j worker list"
  tp_shutting_down :: bool
  tp_accepted :: "'j list"
  tp_started :: "'j list"
  tp_dropped :: "'j list"

text \<open>The refusal of a queue of no capacity is the only failure that is not a lack of resources.\<close>

definition ps_threadpool_create :: "int \<Rightarrow> int \<Rightarrow> int \<Rightarrow> 'j \<Rightarrow> bytes + 'j tp_state" where
  "ps_threadpool_create n_workers queue_capacity nprocs j0 =
     (if queue_capacity < 1 then Inl ''queue_capacity must be at least 1''
      else
        let workers = (if n_workers < 1 then (if nprocs < 1 then 1 else nprocs) else n_workers)
        in Inr \<lparr>tp_pool = pool_new (nat queue_capacity) j0, tp_workers = replicate (nat workers) Ready,
                tp_shutting_down = False, tp_accepted = [], tp_started = [], tp_dropped = []\<rparr>)"

text \<open>\<^verbatim>\<open>pthread_cond_signal\<close> wakes the waiting worker \<open>i\<close>, \<^verbatim>\<open>pthread_cond_broadcast\<close> all.\<close>

definition wake :: "'j worker \<Rightarrow> 'j worker" where
  "wake w = (if w = Waiting then Ready else w)"

definition ps_threadpool_submit :: "'j tp_state \<Rightarrow> 'j \<Rightarrow> nat \<Rightarrow> bool \<times> 'j tp_state" where
  "ps_threadpool_submit s j i =
     (if tp_shutting_down s then (False, s)
      else case ring_push (tp_pool s) j of
        None \<Rightarrow> (False, s)
      | Some p \<Rightarrow>
          (True, s\<lparr>tp_pool := p, tp_accepted := tp_accepted s @ [j],
                   tp_workers := (if i < length (tp_workers s) then (tp_workers s)[i := wake (tp_workers s ! i)]
                                  else tp_workers s)\<rparr>))"

definition ps_threadpool_shutdown :: "'j tp_state \<Rightarrow> bool \<Rightarrow> 'j tp_state" where
  "ps_threadpool_shutdown s drain =
     (let s1 = s\<lparr>tp_shutting_down := True, tp_workers := map wake (tp_workers s)\<rparr>
      in if drain then s1
         else s1\<lparr>tp_pool := ring_clear (tp_pool s), tp_dropped := tp_dropped s @ queued (tp_pool s)\<rparr>)"

text \<open>One pass of a worker through the critical section at the top of its loop.\<close>

definition worker_step :: "'j tp_state \<Rightarrow> nat \<Rightarrow> 'j tp_state" where
  "worker_step s i =
     (case ring_pop (tp_pool s) of
        None \<Rightarrow>
          if tp_shutting_down s then s\<lparr>tp_workers := (tp_workers s)[i := Exited]\<rparr>
          else s\<lparr>tp_workers := (tp_workers s)[i := Waiting]\<rparr>
      | Some (j, p) \<Rightarrow>
          s\<lparr>tp_pool := p, tp_workers := (tp_workers s)[i := Running j], tp_started := tp_started s @ [j]\<rparr>)"

text \<open>Joining the workers with a deadline: \<open>joined i\<close> tells whether the join of worker \<open>i\<close> succeeds.
  On a failure the workers not yet joined are kept.\<close>

definition ps_threadpool_destroy_timed :: "(nat \<Rightarrow> bool) \<Rightarrow> 'w list \<Rightarrow> bool \<times> 'w list" where
  "ps_threadpool_destroy_timed joined workers =
     (case List.find (\<lambda>i. \<not> joined i) [0..<length workers] of
        None \<Rightarrow> (True, [])
      | Some i \<Rightarrow> (False, drop i workers))"

text \<open>
  The steps of the system. A submission signals some waiting worker \<open>i\<close> if there is one.
\<close>

inductive tp_step :: "'j tp_state \<Rightarrow> 'j tp_state \<Rightarrow> bool" where
  submit: "ps_threadpool_submit s j i = (ok, s') \<Longrightarrow>
     (Waiting \<in> set (tp_workers s) \<Longrightarrow> i < length (tp_workers s) \<and> tp_workers s ! i = Waiting) \<Longrightarrow> tp_step s s'"
| shutdown: "tp_step s (ps_threadpool_shutdown s drain)"
| worker: "i < length (tp_workers s) \<Longrightarrow> tp_workers s ! i = Ready \<Longrightarrow> tp_step s (worker_step s i)"
| finish: "i < length (tp_workers s) \<Longrightarrow> tp_workers s ! i = Running j \<Longrightarrow>
     tp_step s (s\<lparr>tp_workers := (tp_workers s)[i := Ready]\<rparr>)"
| spurious: "i < length (tp_workers s) \<Longrightarrow> tp_workers s ! i = Waiting \<Longrightarrow>
     tp_step s (s\<lparr>tp_workers := (tp_workers s)[i := Ready]\<rparr>)"

inductive tp_reach :: "'j tp_state \<Rightarrow> 'j tp_state \<Rightarrow> bool" where
  init: "tp_reach s s"
| step: "tp_reach s s' \<Longrightarrow> tp_step s' s'' \<Longrightarrow> tp_reach s s''"

definition tp_inv :: "'j tp_state \<Rightarrow> bool" where
  "tp_inv s \<longleftrightarrow> pool_ok (tp_pool s) \<and>
     tp_accepted s = tp_started s @ tp_dropped s @ queued (tp_pool s) \<and>
     (tp_dropped s \<noteq> [] \<longrightarrow> tp_shutting_down s \<and> queued (tp_pool s) = []) \<and>
     (tp_shutting_down s \<longrightarrow> Waiting \<notin> set (tp_workers s)) \<and>
     (\<not> tp_shutting_down s \<longrightarrow> Exited \<notin> set (tp_workers s)) \<and>
     (Exited \<in> set (tp_workers s) \<longrightarrow> queued (tp_pool s) = []) \<and>
     (queued (tp_pool s) \<noteq> [] \<longrightarrow> (\<exists>w \<in> set (tp_workers s). w \<noteq> Waiting \<and> w \<noteq> Exited)) \<and>
     tp_workers s \<noteq> []"

text \<open>What a step does to the workers.\<close>

lemma set_map_wake: "Waiting \<notin> set (map wake ws)" "Exited \<in> set (map wake ws) \<longleftrightarrow> Exited \<in> set ws"
  by (force simp: wake_def)+

lemma active_map_wake:
  "\<exists>w \<in> set ws. w \<noteq> Waiting \<and> w \<noteq> Exited \<Longrightarrow> \<exists>w \<in> set (map wake ws). w \<noteq> Waiting \<and> w \<noteq> Exited"
  by (force simp: wake_def)

lemma active_update:
  "i < length ws \<Longrightarrow> w \<noteq> Waiting \<Longrightarrow> w \<noteq> Exited \<Longrightarrow> \<exists>v \<in> set (ws[i := w]). v \<noteq> Waiting \<and> v \<noteq> Exited"
  using set_update_memI by fastforce

lemma set_update_cases: "x \<in> set (ws[i := w]) \<Longrightarrow> x = w \<or> x \<in> set ws"
  using set_update_subset_insert [of ws i w] by blast

lemma submit_inv:
  assumes "tp_inv s" and "ps_threadpool_submit s j i = (ok, s')"
    and "Waiting \<in> set (tp_workers s) \<Longrightarrow> i < length (tp_workers s) \<and> tp_workers s ! i = Waiting"
  shows "tp_inv s'"
proof (cases ok)
  case False
  with assms have "s' = s" by (auto simp: ps_threadpool_submit_def split: if_splits option.splits)
  with assms show ?thesis by simp
next
  case True
  with assms(2) obtain p where p: "ring_push (tp_pool s) j = Some p" and nsd: "\<not> tp_shutting_down s"
    and s': "s' = s\<lparr>tp_pool := p, tp_accepted := tp_accepted s @ [j],
       tp_workers := (if i < length (tp_workers s) then (tp_workers s)[i := wake (tp_workers s ! i)] else tp_workers s)\<rparr>"
    by (auto simp: ps_threadpool_submit_def split: if_splits option.splits)
  from assms(1) have ok: "pool_ok (tp_pool s)" by (simp add: tp_inv_def)
  note q = ring_queue.push_content [OF ok p]
  have nex: "Exited \<notin> set (tp_workers s)" and nd: "tp_dropped s = []" using assms(1) nsd by (auto simp: tp_inv_def)
  have nex': "Exited \<notin> set (tp_workers s')"
  proof
    assume "Exited \<in> set (tp_workers s')"
    then have "i < length (tp_workers s) \<and> wake (tp_workers s ! i) = Exited"
      using nex by (auto simp: s' split: if_splits dest!: set_update_cases)
    then show False using nex by (metis nth_mem wake_def worker.distinct(5))
  qed
  have act: "\<exists>w \<in> set (tp_workers s'). w \<noteq> Waiting \<and> w \<noteq> Exited"
  proof (cases "Waiting \<in> set (tp_workers s)")
    case True
    from assms(3) [OF this] show ?thesis
      using active_update [of i "tp_workers s" Ready] by (simp add: s' wake_def)
  next
    case False
    then have "wake (tp_workers s ! i) = tp_workers s ! i" if "i < length (tp_workers s)"
      using that nth_mem by (fastforce simp: wake_def)
    then have "tp_workers s' = tp_workers s" by (simp add: s')
    moreover have "hd (tp_workers s) \<in> set (tp_workers s)" using assms(1) by (simp add: tp_inv_def)
    ultimately show ?thesis using False nex by metis
  qed
  have ne: "tp_workers s' \<noteq> []" using act by auto
  show ?thesis
    using assms(1) q nsd nd nex' act ne unfolding tp_inv_def by (simp add: s')
qed

lemma worker_step_inv:
  assumes "tp_inv s" and "i < length (tp_workers s)" and "tp_workers s ! i = Ready"
  shows "tp_inv (worker_step s i)"
proof (cases "ring_pop (tp_pool s)")
  case None
  then have "queued (tp_pool s) = []" using ring_queue.pop_empty assms(1) by (auto simp: tp_inv_def)
  then show ?thesis using assms None unfolding tp_inv_def
    by (auto simp: worker_step_def dest!: set_update_cases)
next
  case (Some a)
  obtain j p where a: "a = (j, p)" by (cases a)
  from assms(1) have ok: "pool_ok (tp_pool s)" by (simp add: tp_inv_def)
  note q = ring_queue.pop_content [OF ok Some [unfolded a]]
  have nd: "tp_dropped s = []" and nex: "Exited \<notin> set (tp_workers s)" using assms(1) q by (auto simp: tp_inv_def)
  then have "Exited \<notin> set ((tp_workers s)[i := Running j])" by (auto dest!: set_update_cases)
  moreover have "tp_shutting_down s \<Longrightarrow> Waiting \<notin> set ((tp_workers s)[i := Running j])"
    using assms(1) by (auto simp: tp_inv_def dest!: set_update_cases)
  ultimately show ?thesis
    using assms q Some a nd active_update [OF assms(2), of "Running j"] unfolding tp_inv_def
    by (simp add: worker_step_def)
qed

lemma worker_ready_inv:
  assumes "tp_inv s" and "i < length (tp_workers s)"
  shows "tp_inv (s\<lparr>tp_workers := (tp_workers s)[i := Ready]\<rparr>)"
proof -
  have "Waiting \<in> set ((tp_workers s)[i := Ready]) \<Longrightarrow> Waiting \<in> set (tp_workers s)"
    "Exited \<in> set ((tp_workers s)[i := Ready]) \<Longrightarrow> Exited \<in> set (tp_workers s)" by (auto dest!: set_update_cases)
  then show ?thesis
    using assms active_update [OF assms(2), of Ready] unfolding tp_inv_def by auto
qed

lemma shutdown_inv: "tp_inv s \<Longrightarrow> tp_inv (ps_threadpool_shutdown s drain)"
  using set_map_wake [of "tp_workers s"] active_map_wake [of "tp_workers s"]
  by (cases drain)
    (auto simp: tp_inv_def ps_threadpool_shutdown_def Let_def ring_clear_def queued_def pool_ok_def)

lemma tp_step_inv: "tp_step s s' \<Longrightarrow> tp_inv s \<Longrightarrow> tp_inv s'"
  by (induction rule: tp_step.induct) (auto intro: submit_inv worker_step_inv worker_ready_inv shutdown_inv)

lemma tp_reach_inv: "tp_reach s s' \<Longrightarrow> tp_inv s \<Longrightarrow> tp_inv s'"
  by (induction rule: tp_reach.induct) (auto intro: tp_step_inv)

lemma tp_create_inv: "ps_threadpool_create n c np j0 = Inr s \<Longrightarrow> tp_inv s"
  by (auto simp: ps_threadpool_create_def Let_def tp_inv_def pool_new_def pool_ok_def queued_def split: if_splits)


subsection \<open>Draining ends\<close>

text \<open>The moves of the workers alone, and the work that is left.\<close>

inductive tp_worker_move :: "'j tp_state \<Rightarrow> 'j tp_state \<Rightarrow> bool" where
  take: "i < length (tp_workers s) \<Longrightarrow> tp_workers s ! i = Ready \<Longrightarrow> tp_worker_move s (worker_step s i)"
| finished: "i < length (tp_workers s) \<Longrightarrow> tp_workers s ! i = Running j \<Longrightarrow>
     tp_worker_move s (s\<lparr>tp_workers := (tp_workers s)[i := Ready]\<rparr>)"

fun worker_work :: "'j worker \<Rightarrow> nat" where
  "worker_work (Running _) = 2"
| "worker_work Exited = 0"
| "worker_work _ = 1"

definition tp_work :: "'j tp_state \<Rightarrow> nat" where
  "tp_work s = 2 * length (queued (tp_pool s)) + sum_list (map worker_work (tp_workers s))"

lemma sum_list_map_update:
  "i < length xs \<Longrightarrow> sum_list (map f (xs[i := y])) + f (xs ! i) = sum_list (map f xs) + (f y :: nat)"
proof (induction xs arbitrary: i)
  case (Cons x xs)
  then show ?case by (cases i) auto
qed simp

lemma tp_worker_move_work:
  assumes "tp_worker_move s s'" and "tp_inv s" and "tp_shutting_down s"
  shows "tp_work s' < tp_work s" and "tp_shutting_down s'" and "tp_step s s'"
proof -
  have "tp_work s' < tp_work s \<and> tp_shutting_down s' \<and> tp_step s s'"
    using assms
  proof (induction rule: tp_worker_move.induct)
    case (take i s)
    note upd = sum_list_map_update [OF take(1), of worker_work]
    have ok: "pool_ok (tp_pool s)" using take by (simp add: tp_inv_def)
    have "tp_work (worker_step s i) < tp_work s \<and> tp_shutting_down (worker_step s i)"
    proof (cases "ring_pop (tp_pool s)")
      case None
      then show ?thesis using take upd [of Exited] by (simp add: worker_step_def tp_work_def)
    next
      case (Some a)
      obtain j p where a: "a = (j, p)" by (cases a)
      from ring_queue.pop_content [OF ok Some [unfolded a]]
      have "length (queued (tp_pool s)) = Suc (length (queued p))" by simp
      then show ?thesis using take upd [of "Running j"] Some a by (simp add: worker_step_def tp_work_def)
    qed
    with take show ?case by (auto intro: tp_step.worker)
  next
    case (finished i s j)
    then show ?case using sum_list_map_update [OF finished(1), of worker_work Ready]
      by (auto simp: tp_work_def intro: tp_step.finish)
  qed
  then show "tp_work s' < tp_work s" and "tp_shutting_down s'" and "tp_step s s'" by auto
qed

lemma tp_worker_move_progress:
  assumes "tp_inv s" and "tp_shutting_down s" and "\<exists>w \<in> set (tp_workers s). w \<noteq> Exited"
  shows "\<exists>s'. tp_worker_move s s'"
proof -
  from assms(3) obtain i where i: "i < length (tp_workers s)" "tp_workers s ! i \<noteq> Exited"
    by (auto simp: in_set_conv_nth)
  have "Waiting \<notin> set (tp_workers s)" using assms(1,2) by (simp add: tp_inv_def)
  then have "tp_workers s ! i \<noteq> Waiting" using i(1) nth_mem by fastforce
  with i show ?thesis
    by (cases "tp_workers s ! i") (auto intro: tp_worker_move.intros)
qed


subsection \<open>Properties\<close>

text \<open>The ring buffer with its wrapping indices is a first-in first-out queue of bounded length:
  a submission is refused exactly when the queue holds its capacity, and otherwise appends.\<close>

theorem ring_refines_fifo:
  assumes "pool_ok p"
  shows "(ring_push p j = None \<longleftrightarrow> length (queued p) = capacity p) \<and>
    (\<forall>p'. ring_push p j = Some p' \<longrightarrow> pool_ok p' \<and> queued p' = queued p @ [j]) \<and>
    (ring_pop p = None \<longleftrightarrow> queued p = []) \<and>
    (\<forall>k p'. ring_pop p = Some (k, p') \<longrightarrow> pool_ok p' \<and> queued p = k # queued p')"
  using ring_queue.push_full [OF assms] ring_queue.push_content [OF assms] ring_queue.pop_empty [OF assms]
    ring_queue.pop_content [OF assms] by blast

theorem ring_refines_fifo_witness:
  "pool_ok (pool_new 2 (0::nat)) \<and> ring_push (pool_new 2 (0::nat)) 5 \<noteq> None"
proof -
  have ok: "pool_ok (pool_new 2 (0::nat))" by (simp add: pool_ok_def pool_new_def)
  from ring_refines_fifo [OF this, of 5] have "ring_push (pool_new 2 (0::nat)) 5 \<noteq> None"
    by (simp add: queued_def pool_new_def)
  with ok show ?thesis by simp
qed

text \<open>C35. In every state the pool can reach, jobs are started in the order in which they were accepted,
  each at most once; queued jobs are never left without a worker that is awake (no lost wakeup); after
  a shutdown no worker sleeps; and no worker exits while jobs are queued.\<close>

theorem pool_reachable_safe:
  assumes "ps_threadpool_create n c np j0 = Inr s0" and "tp_reach s0 s"
  shows "tp_accepted s = tp_started s @ tp_dropped s @ queued (tp_pool s) \<and>
    (queued (tp_pool s) \<noteq> [] \<longrightarrow> (\<exists>w \<in> set (tp_workers s). w \<noteq> Waiting \<and> w \<noteq> Exited)) \<and>
    (tp_shutting_down s \<longrightarrow> Waiting \<notin> set (tp_workers s)) \<and>
    (Exited \<in> set (tp_workers s) \<longrightarrow> tp_shutting_down s \<and> queued (tp_pool s) = []) \<and>
    length (queued (tp_pool s)) \<le> capacity (tp_pool s)"
proof -
  have inv: "tp_inv s" using tp_reach_inv [OF assms(2) tp_create_inv [OF assms(1)]] .
  then show ?thesis using ring_queue.content_le [of "tp_pool s"] unfolding tp_inv_def by blast
qed

theorem pool_reachable_safe_witness:
  "\<exists>s0. ps_threadpool_create 1 4 1 (0::nat) = Inr s0 \<and>
     tp_accepted (ps_threadpool_shutdown s0 True) = tp_started (ps_threadpool_shutdown s0 True) @
       tp_dropped (ps_threadpool_shutdown s0 True) @ queued (tp_pool (ps_threadpool_shutdown s0 True))"
proof -
  obtain s0 where s0: "ps_threadpool_create 1 4 1 (0::nat) = Inr s0"
    by (simp add: ps_threadpool_create_def)
  have "tp_reach s0 (ps_threadpool_shutdown s0 True)" by (intro tp_reach.step [OF tp_reach.init] tp_step.shutdown)
  from pool_reachable_safe [OF s0 this] s0 show ?thesis by blast
qed

text \<open>C36. After a shutdown the pool always drains: as long as a worker has not exited some worker can
  move, every move of a worker is a step of the pool that reduces the remaining work, and once all have
  exited without anything discarded, every accepted job has been started.\<close>

theorem shutdown_drains:
  assumes "ps_threadpool_create n c np j0 = Inr s0" and "tp_reach s0 s" and "tp_shutting_down s"
  shows "((\<exists>w \<in> set (tp_workers s). w \<noteq> Exited) \<longrightarrow> (\<exists>s'. tp_worker_move s s')) \<and>
    (\<forall>s'. tp_worker_move s s' \<longrightarrow> tp_reach s0 s' \<and> tp_shutting_down s' \<and> tp_work s' < tp_work s) \<and>
    (set (tp_workers s) = {Exited} \<and> tp_dropped s = [] \<longrightarrow> tp_started s = tp_accepted s)"
proof -
  have inv: "tp_inv s" using tp_reach_inv [OF assms(2) tp_create_inv [OF assms(1)]] .
  then show ?thesis
    using tp_worker_move_progress [OF inv assms(3)] tp_worker_move_work [OF _ inv assms(3)] assms(2)
    by (auto simp: tp_inv_def intro: tp_reach.step)
qed

theorem shutdown_drains_witness:
  "\<exists>s0. ps_threadpool_create 1 4 1 (0::nat) = Inr s0 \<and> (\<exists>s'. tp_worker_move (ps_threadpool_shutdown s0 True) s')"
proof -
  obtain s0 where s0: "ps_threadpool_create 1 4 1 (0::nat) = Inr s0" "tp_workers s0 = [Ready]"
    by (simp add: ps_threadpool_create_def)
  have "tp_reach s0 (ps_threadpool_shutdown s0 True)" by (intro tp_reach.step [OF tp_reach.init] tp_step.shutdown)
  from shutdown_drains [OF s0(1) this] s0 show ?thesis
    by (simp add: ps_threadpool_shutdown_def Let_def wake_def)
qed

end
