(* ===== verification/Claims.thy ===== *)
theory Claims
  imports Json_Write
begin

text \<open>
  The JWT claims and their JSON form (\<^verbatim>\<open>src/src/auth/claims.c\<close>, \<^verbatim>\<open>claims.h\<close>). \<open>ps_claims_write\<close> produces
  the payload text; \<open>ps_claims_parse\<close> reads it back and checks issuer, audience and the time window.
  The role set is a 32-bit mask.
\<close>

unbundle bit_operations_syntax

definition PS_JWT_ROLE_USER :: "32 word" where "PS_JWT_ROLE_USER = push_bit 0 1"
definition PS_JWT_ROLE_ADMIN :: "32 word" where "PS_JWT_ROLE_ADMIN = push_bit 1 1"
definition PS_JWT_JTI_HEX_LEN :: nat where "PS_JWT_JTI_HEX_LEN = 32"
definition PS_JWT_FAMILY_ID_HEX_LEN :: nat where "PS_JWT_FAMILY_ID_HEX_LEN = 32"

record ps_jwt_claims_t =
  cl_user_id :: int64
  cl_roles :: "32 word"
  cl_iat :: int64
  cl_nbf :: int64
  cl_exp :: int64
  cl_jti :: bytes
  cl_family_id :: bytes

datatype ps_claims_result_t =
    PS_CLAIMS_OK ps_jwt_claims_t
  | PS_CLAIMS_MALFORMED
  | PS_CLAIMS_BAD_ISSUER
  | PS_CLAIMS_BAD_AUDIENCE
  | PS_CLAIMS_EXPIRED
  | PS_CLAIMS_NOT_YET_VALID

definition ROLE_NAMES :: "(32 word \<times> bytes) list" where
  "ROLE_NAMES = [(PS_JWT_ROLE_USER, ''USER''), (PS_JWT_ROLE_ADMIN, ''ADMIN'')]"

definition obj_set_str :: "json \<Rightarrow> bytes \<Rightarrow> bytes \<Rightarrow> json" where
  "obj_set_str obj key val = ps_json_object_set obj key (JString (cstr val))"

definition obj_set_num :: "json \<Rightarrow> bytes \<Rightarrow> double \<Rightarrow> json" where
  "obj_set_num obj key val = ps_json_object_set obj key (JNumber val)"

definition roles_array :: "32 word \<Rightarrow> json" where
  "roles_array roles = foldl ps_json_array_append (JArray [])
     (map (\<lambda>(rbit, name). JString name) (filter (\<lambda>(rbit, name). roles AND rbit \<noteq> 0) ROLE_NAMES))"

definition claims_object :: "ps_jwt_claims_t \<Rightarrow> bytes \<Rightarrow> bytes \<Rightarrow> json" where
  "claims_object c issuer audience =
     (let o1 = obj_set_str (JObject []) ''iss'' issuer;
          o2 = obj_set_str o1 ''sub'' (show_int (cl_user_id c));
          o3 = obj_set_str o2 ''aud'' audience;
          o4 = obj_set_num o3 ''exp'' (double_of_int (cl_exp c));
          o5 = obj_set_num o4 ''iat'' (double_of_int (cl_iat c));
          o6 = obj_set_num o5 ''nbf'' (double_of_int (cl_nbf c));
          o7 = obj_set_str o6 ''jti'' (cl_jti c);
          o8 = obj_set_str o7 ''family_id'' (cl_family_id c)
      in ps_json_object_set o8 ''roles'' (roles_array (cl_roles c)))"

definition ps_claims_write :: "ps_jwt_claims_t \<Rightarrow> bytes \<Rightarrow> bytes \<Rightarrow> bytes option" where
  "ps_claims_write c issuer audience =
     (if 32 \<le> length (show_int (cl_user_id c)) then None else ps_json_write (claims_object c issuer audience))"

text \<open>
  The conversion \<^verbatim>\<open>(int64_t)d\<close>: truncation towards zero. Outside the 64-bit range C leaves the result
  undefined; the value here is the one x86-64 delivers.
\<close>

definition double_to_int64 :: "double \<Rightarrow> int64" where
  "double_to_int64 d =
     (case d of
        Fin x \<Rightarrow> let i = (if x < 0 then - \<lfloor>- x\<rfloor> else \<lfloor>x\<rfloor>) in if in_int64 i then i else - (2 ^ 63)
      | NegZero \<Rightarrow> 0
      | _ \<Rightarrow> - (2 ^ 63))"

definition parse_int64_field :: "json option \<Rightarrow> bytes \<Rightarrow> int64 option" where
  "parse_int64_field obj key =
     (let v = ps_json_object_get obj key in
      if v = None \<or> ps_json_type v \<noteq> PS_JSON_NUMBER then None
      else Some (double_to_int64 (ps_json_get_number v)))"

definition parse_sub :: "json option \<Rightarrow> int64 option" where
  "parse_sub obj =
     (case ps_json_get_string (ps_json_object_get obj ''sub'') of
        None \<Rightarrow> None
      | Some s0 \<Rightarrow>
          let s = cstr s0 in
          if s = [] then None
          else case c_strtoll s of
            None \<Rightarrow> None
          | Some (i, rest) \<Rightarrow> if \<not> in_int64 i \<or> rest \<noteq> [] then None else Some i)"

definition role_bit :: "bytes \<Rightarrow> 32 word option" where
  "role_bit name = map_option fst (List.find (\<lambda>(rbit, n). n = cstr name) ROLE_NAMES)"

fun roles_of_items :: "json list \<Rightarrow> 32 word \<Rightarrow> 32 word option" where
  "roles_of_items [] roles = Some roles"
| "roles_of_items (item # items) roles =
     (case ps_json_get_string (Some item) of
        None \<Rightarrow> None
      | Some name \<Rightarrow>
          (case role_bit name of None \<Rightarrow> None | Some rbit \<Rightarrow> roles_of_items items (roles OR rbit)))"

definition parse_roles :: "json option \<Rightarrow> 32 word option" where
  "parse_roles obj =
     (case ps_json_object_get obj ''roles'' of
        Some (JArray items) \<Rightarrow> roles_of_items items 0
      | _ \<Rightarrow> None)"

text \<open>The fields whose type is checked before anything is interpreted: iss, aud, jti, family_id.\<close>

definition claim_strings :: "json option \<Rightarrow> (bytes \<times> bytes \<times> bytes \<times> bytes) option" where
  "claim_strings v =
     (case (ps_json_get_string (ps_json_object_get v ''iss''), ps_json_get_string (ps_json_object_get v ''aud''),
            ps_json_get_string (ps_json_object_get v ''jti''), ps_json_get_string (ps_json_object_get v ''family_id'')) of
        (Some iss, Some aud, Some jti, Some fam) \<Rightarrow>
          if length jti \<noteq> PS_JWT_JTI_HEX_LEN \<or> length fam \<noteq> PS_JWT_FAMILY_ID_HEX_LEN then None
          else Some (iss, aud, jti, fam)
      | _ \<Rightarrow> None)"

definition ps_claims_parse :: "bytes \<Rightarrow> bytes \<Rightarrow> bytes \<Rightarrow> int64 \<Rightarrow> int \<Rightarrow> ps_claims_result_t" where
  "ps_claims_parse text issuer audience now clock_skew_s =
     (case ps_json_parse text 128 of
        Inl _ \<Rightarrow> PS_CLAIMS_MALFORMED
      | Inr v0 \<Rightarrow>
          let v = Some v0 in
          if ps_json_type v \<noteq> PS_JSON_OBJECT then PS_CLAIMS_MALFORMED
          else case claim_strings v of
            None \<Rightarrow> PS_CLAIMS_MALFORMED
          | Some (iss, aud, jti, fam) \<Rightarrow>
              (case (parse_sub v, parse_int64_field v ''iat'', parse_int64_field v ''nbf'',
                     parse_int64_field v ''exp'', parse_roles v) of
                 (Some user_id, Some iat, Some nbf, Some expiry, Some roles) \<Rightarrow>
                   if cstr iss \<noteq> cstr issuer then PS_CLAIMS_BAD_ISSUER
                   else if cstr aud \<noteq> cstr audience then PS_CLAIMS_BAD_AUDIENCE
                   else if expiry + clock_skew_s < now then PS_CLAIMS_EXPIRED
                   else if now < nbf - clock_skew_s then PS_CLAIMS_NOT_YET_VALID
                   else PS_CLAIMS_OK
                     \<lparr>cl_user_id = user_id, cl_roles = roles, cl_iat = iat, cl_nbf = nbf, cl_exp = expiry,
                      cl_jti = jti, cl_family_id = fam\<rparr>
               | _ \<Rightarrow> PS_CLAIMS_MALFORMED))"

definition ps_claims_roles_from_names :: "bytes list \<Rightarrow> 32 word" where
  "ps_claims_roles_from_names names =
     foldl (\<lambda>roles name. case role_bit name of None \<Rightarrow> roles | Some rbit \<Rightarrow> roles OR rbit) 0 names"


subsection \<open>The round trip\<close>

text \<open>The claims this service issues: times of at most 53 bits, identifiers of the fixed length.\<close>

definition claims_ok :: "ps_jwt_claims_t \<Rightarrow> bool" where
  "claims_ok c \<longleftrightarrow> in_int64 (cl_user_id c) \<and>
     cl_roles c AND (PS_JWT_ROLE_USER OR PS_JWT_ROLE_ADMIN) = cl_roles c \<and>
     \<bar>cl_iat c\<bar> \<le> 2 ^ 53 \<and> \<bar>cl_nbf c\<bar> \<le> 2 ^ 53 \<and> \<bar>cl_exp c\<bar> \<le> 2 ^ 53 \<and>
     length (cl_jti c) = PS_JWT_JTI_HEX_LEN \<and> NUL \<notin> set (cl_jti c) \<and>
     length (cl_family_id c) = PS_JWT_FAMILY_ID_HEX_LEN \<and> NUL \<notin> set (cl_family_id c)"

lemma claims_object_eq:
  "claims_object c issuer audience =
     JObject [(''iss'', JString (cstr issuer)), (''sub'', JString (cstr (show_int (cl_user_id c)))),
       (''aud'', JString (cstr audience)), (''exp'', JNumber (double_of_int (cl_exp c))),
       (''iat'', JNumber (double_of_int (cl_iat c))), (''nbf'', JNumber (double_of_int (cl_nbf c))),
       (''jti'', JString (cstr (cl_jti c))), (''family_id'', JString (cstr (cl_family_id c))),
       (''roles'', roles_array (cl_roles c))]"
  by (simp add: claims_object_def Let_def obj_set_str_def obj_set_num_def cstr_def)

lemma roles_array_eq:
  "roles_array r = JArray ((if r AND PS_JWT_ROLE_USER \<noteq> 0 then [JString ''USER''] else []) @
     (if r AND PS_JWT_ROLE_ADMIN \<noteq> 0 then [JString ''ADMIN''] else []))"
  by (simp add: roles_array_def ROLE_NAMES_def)

lemma and_one_bit: "(r :: 32 word) AND push_bit k 1 = (if bit r k then push_bit k 1 else 0)"
  by (rule bit_eqI) (auto simp: bit_simps)

lemma push_bit_1_ne_0: "k < 32 \<Longrightarrow> (push_bit k 1 :: 32 word) \<noteq> 0"
  by (simp add: push_bit_eq_mult)

lemma parse_roles_array:
  assumes "r AND (PS_JWT_ROLE_USER OR PS_JWT_ROLE_ADMIN) = r"
  shows "\<exists>items. roles_array r = JArray items \<and> roles_of_items items 0 = Some r"
proof -
  have "r = (r AND PS_JWT_ROLE_USER) OR (r AND PS_JWT_ROLE_ADMIN)"
    using assms by (simp add: bit.conj_disj_distrib)
  moreover have "r AND PS_JWT_ROLE_USER = (if bit r 0 then PS_JWT_ROLE_USER else 0)"
    "r AND PS_JWT_ROLE_ADMIN = (if bit r 1 then PS_JWT_ROLE_ADMIN else 0)"
    unfolding PS_JWT_ROLE_USER_def PS_JWT_ROLE_ADMIN_def by (rule and_one_bit)+
  moreover have "PS_JWT_ROLE_USER \<noteq> 0" "PS_JWT_ROLE_ADMIN \<noteq> 0"
    unfolding PS_JWT_ROLE_USER_def PS_JWT_ROLE_ADMIN_def by (rule push_bit_1_ne_0, simp)+
  moreover have "role_bit ''USER'' = Some PS_JWT_ROLE_USER" "role_bit ''ADMIN'' = Some PS_JWT_ROLE_ADMIN"
    by (simp_all add: role_bit_def ROLE_NAMES_def)
  ultimately show ?thesis by (auto simp: roles_array_eq)
qed

lemma double_to_int64_of_int:
  assumes "\<bar>n\<bar> \<le> 2 ^ 53"
  shows "double_to_int64 (double_of_int n) = n"
proof -
  have "\<lfloor>- of_int n :: rat\<rfloor> = - n" by (metis floor_of_int of_int_minus)
  moreover have "in_int64 n" using assms by (auto simp: in_int64_def)
  ultimately show ?thesis
    using assms by (simp add: double_of_int_exact double_to_int64_def Let_def)
qed

lemma NUL_show_nat: "NUL \<notin> set (show_nat n)"
  using show_nat_digits [of n] by (auto simp: list_all_iff c_isdigit_def)

lemma NUL_show_int: "NUL \<notin> set (show_int i)"
  using NUL_show_nat by (auto simp: show_int_def)

lemma claims_object_ok:
  assumes "claims_ok c"
  shows "json_ok 1 (claims_object c issuer audience)"
proof -
  have num: "is_small_int (double_of_int n)" if "\<bar>n\<bar> \<le> 2 ^ 53" for n
  proof -
    have "of_int \<bar>n\<bar> \<le> (of_int (2 ^ 53) :: rat)" using that by (simp only: of_int_le_iff)
    then show ?thesis using that by (simp add: double_of_int_exact is_small_int_def)
  qed
  show ?thesis
    using assms num by (auto simp: claims_object_eq roles_array_eq claims_ok_def PS_JSON_MAX_DEPTH_def)
qed

lemma ps_claims_parse_write:
  assumes "claims_ok c"
  shows "\<exists>s. ps_claims_write c issuer audience = Some s \<and>
    ps_claims_parse s issuer audience now skew =
      (if cl_exp c + skew < now then PS_CLAIMS_EXPIRED
       else if now < cl_nbf c - skew then PS_CLAIMS_NOT_YET_VALID
       else PS_CLAIMS_OK c)"
proof -
  from ps_json_roundtrip [OF claims_object_ok [OF assms], of issuer audience 128] obtain s where
    s: "ps_json_write (claims_object c issuer audience) = Some s" "ps_json_parse s 128 = Inr (claims_object c issuer audience)"
    by auto
  have uid: "in_int64 (cl_user_id c)" using assms by (simp add: claims_ok_def)
  then have "nat \<bar>cl_user_id c\<bar> < 10 ^ 20" by (auto simp: in_int64_def)
  then have "length (show_nat (nat \<bar>cl_user_id c\<bar>)) \<le> 20" by (intro show_nat_length_le) auto
  then have len: "length (show_int (cl_user_id c)) < 32" by (auto simp: show_int_def abs_if split: if_splits)
  from parse_roles_array [of "cl_roles c"] assms obtain items where
    r: "roles_array (cl_roles c) = JArray items" "roles_of_items items 0 = Some (cl_roles c)"
    by (auto simp: claims_ok_def)
  have cs: "cstr (show_int (cl_user_id c)) = show_int (cl_user_id c)" "cstr (cl_jti c) = cl_jti c"
    "cstr (cl_family_id c) = cl_family_id c"
    using assms by (simp_all add: cstr_id NUL_show_int claims_ok_def)
  have ne: "show_int (cl_user_id c) \<noteq> []" by (simp add: show_int_def)
  let ?v = "Some (claims_object c issuer audience)"
  have sub: "parse_sub ?v = Some (cl_user_id c)"
    using ne uid by (simp add: parse_sub_def claims_object_eq cstr_def [of "''sub''"] cs c_strtoll_show_int)
  have num: "parse_int64_field ?v ''iat'' = Some (cl_iat c)" "parse_int64_field ?v ''nbf'' = Some (cl_nbf c)"
    "parse_int64_field ?v ''exp'' = Some (cl_exp c)"
    using assms by (simp_all add: parse_int64_field_def Let_def claims_object_eq cstr_def double_to_int64_of_int claims_ok_def)
  have roles: "parse_roles ?v = Some (cl_roles c)"
    by (simp add: parse_roles_def claims_object_eq cstr_def r)
  have strs: "claim_strings ?v = Some (cstr issuer, cstr audience, cl_jti c, cl_family_id c)"
    using assms by (simp add: claim_strings_def claims_object_eq cs claims_ok_def)
  have "ps_json_type ?v = PS_JSON_OBJECT" by (simp add: claims_object_eq)
  then have "ps_claims_parse s issuer audience now skew =
      (if cl_exp c + skew < now then PS_CLAIMS_EXPIRED
       else if now < cl_nbf c - skew then PS_CLAIMS_NOT_YET_VALID
       else PS_CLAIMS_OK c)"
    by (simp add: ps_claims_parse_def s(2) Let_def strs sub num roles)
  with s(1) len show ?thesis by (simp add: ps_claims_write_def)
qed

end
