(* ===== verification/Jwt.thy ===== *)
theory Jwt
  imports Claims Base64url
begin

text \<open>
  The compact JWS tokens (\<^verbatim>\<open>src/src/auth/jwt.c\<close>, \<^verbatim>\<open>jwt.h\<close>). HMAC-SHA256 is OpenSSL's: the parameter
  \<open>hmac\<close> takes the secret and the message and returns the 32 bytes of the tag, or \<open>None\<close> when the
  library call fails. What is assumed of it where needed is only that a tag has 32 bytes and that the
  call succeeds; nothing is assumed about its cryptographic strength.
\<close>

type_synonym hmac_fn = "bytes \<Rightarrow> bytes \<Rightarrow> bytes option"

definition PS_HMAC_SHA256_LEN :: nat where "PS_HMAC_SHA256_LEN = 32"

definition PS_JWT_HEADER_B64 :: bytes where
  "PS_JWT_HEADER_B64 = ''eyJhbGciOiJIUzI1NiIsInR5cCI6IkpXVCJ9''"

datatype ps_jwt_verify_result_t =
    PS_JWT_OK ps_jwt_claims_t
  | PS_JWT_MALFORMED
  | PS_JWT_BAD_ALG
  | PS_JWT_BAD_SIGNATURE
  | PS_JWT_BAD_CLAIMS
  | PS_JWT_EXPIRED
  | PS_JWT_NOT_YET_VALID
  | PS_JWT_BAD_ISSUER
  | PS_JWT_BAD_AUDIENCE

definition ps_ct_equal :: "bytes \<Rightarrow> bytes \<Rightarrow> nat \<Rightarrow> bool" where
  "ps_ct_equal a b len \<longleftrightarrow> take len a = take len b"

definition ps_jwt_encode :: "hmac_fn \<Rightarrow> ps_jwt_claims_t \<Rightarrow> bytes \<Rightarrow> bytes \<Rightarrow> bytes \<Rightarrow> bytes option" where
  "ps_jwt_encode hmac claims issuer audience secret =
     (case ps_claims_write claims issuer audience of
        None \<Rightarrow> None
      | Some payload \<Rightarrow>
          let signing_input = PS_JWT_HEADER_B64 @ ''.'' @ b64_encode payload
          in case hmac secret signing_input of
               None \<Rightarrow> None
             | Some sig \<Rightarrow> Some (signing_input @ ''.'' @ b64_encode sig))"

definition jwt_result_of_claims :: "ps_claims_result_t \<Rightarrow> ps_jwt_verify_result_t" where
  "jwt_result_of_claims r =
     (case r of
        PS_CLAIMS_OK c \<Rightarrow> PS_JWT_OK c
      | PS_CLAIMS_MALFORMED \<Rightarrow> PS_JWT_BAD_CLAIMS
      | PS_CLAIMS_BAD_ISSUER \<Rightarrow> PS_JWT_BAD_ISSUER
      | PS_CLAIMS_BAD_AUDIENCE \<Rightarrow> PS_JWT_BAD_AUDIENCE
      | PS_CLAIMS_EXPIRED \<Rightarrow> PS_JWT_EXPIRED
      | PS_CLAIMS_NOT_YET_VALID \<Rightarrow> PS_JWT_NOT_YET_VALID)"

text \<open>The three segments of a token; \<open>None\<close> for fewer, more, or an empty one.\<close>

definition jwt_segments :: "bytes \<Rightarrow> (bytes \<times> bytes \<times> bytes) option" where
  "jwt_segments token =
     (case split_at_char CHR ''.'' token of
        None \<Rightarrow> None
      | Some (h, r1) \<Rightarrow>
          (case split_at_char CHR ''.'' r1 of
             None \<Rightarrow> None
           | Some (p, s) \<Rightarrow>
               if CHR ''.'' \<in> set s then None
               else if h = [] \<or> p = [] \<or> s = [] then None
               else Some (h, p, s)))"

definition ps_jwt_verify :: "hmac_fn \<Rightarrow> bytes \<Rightarrow> bytes \<Rightarrow> bytes \<Rightarrow> bytes \<Rightarrow> int64 \<Rightarrow> int \<Rightarrow> ps_jwt_verify_result_t" where
  "ps_jwt_verify hmac token issuer audience secret now clock_skew_s =
     (case jwt_segments token of
        None \<Rightarrow> PS_JWT_MALFORMED
      | Some (h, p, s) \<Rightarrow>
          if h \<noteq> PS_JWT_HEADER_B64 then PS_JWT_BAD_ALG
          else case b64_decode s of
            None \<Rightarrow> PS_JWT_MALFORMED
          | Some sig \<Rightarrow>
              if length sig \<noteq> PS_HMAC_SHA256_LEN then PS_JWT_MALFORMED
              else case hmac secret (h @ ''.'' @ p) of
                None \<Rightarrow> PS_JWT_BAD_SIGNATURE
              | Some expected_sig \<Rightarrow>
                  if \<not> ps_ct_equal sig expected_sig PS_HMAC_SHA256_LEN then PS_JWT_BAD_SIGNATURE
                  else case b64_decode p of
                    None \<Rightarrow> PS_JWT_MALFORMED
                  | Some payload \<Rightarrow>
                      jwt_result_of_claims (ps_claims_parse payload issuer audience now clock_skew_s))"


subsection \<open>Tokens this service issues are accepted, and only tokens with its tag\<close>

lemma jwt_segments_Some_iff:
  "jwt_segments token = Some (h, p, s) \<longleftrightarrow>
     token = h @ ''.'' @ p @ ''.'' @ s \<and> CHR ''.'' \<notin> set h \<and> CHR ''.'' \<notin> set p \<and> CHR ''.'' \<notin> set s \<and>
     h \<noteq> [] \<and> p \<noteq> [] \<and> s \<noteq> []" (is "_ \<longleftrightarrow> ?R")
proof
  assume "jwt_segments token = Some (h, p, s)"
  then show ?R
    by (auto simp: jwt_segments_def split: option.splits if_splits dest!: split_at_char_Some_iff [THEN iffD1])
next
  assume ?R
  then show "jwt_segments token = Some (h, p, s)" by (simp add: jwt_segments_def)
qed

lemma header_no_dot: "CHR ''.'' \<notin> set PS_JWT_HEADER_B64" "PS_JWT_HEADER_B64 \<noteq> []"
  by (simp_all add: PS_JWT_HEADER_B64_def)

lemma b64_encode_ne: "d \<noteq> [] \<Longrightarrow> b64_encode d \<noteq> []"
  using b64_decode_encode [of d] by auto

lemma ps_json_write_ne: "json_ok 1 v \<Longrightarrow> ps_json_write v = Some s \<Longrightarrow> s \<noteq> []"
  using ps_json_roundtrip [of v 1]
  by (auto simp: ps_json_parse_def parse_value.simps skip_ws_def PS_JSON_MAX_DEPTH_def)

lemma jwt_verify_encode:
  assumes "claims_ok c" and "\<And>k m t. hmac k m = Some t \<Longrightarrow> length t = PS_HMAC_SHA256_LEN"
    and "ps_jwt_encode hmac c issuer audience secret = Some token"
  shows "ps_jwt_verify hmac token issuer audience secret now skew =
    (if cl_exp c + skew < now then PS_JWT_EXPIRED
     else if now < cl_nbf c - skew then PS_JWT_NOT_YET_VALID
     else PS_JWT_OK c)"
proof -
  from ps_claims_parse_write [OF assms(1), of issuer audience now skew] obtain payload where
    p: "ps_claims_write c issuer audience = Some payload"
    and pp: "ps_claims_parse payload issuer audience now skew =
      (if cl_exp c + skew < now then PS_CLAIMS_EXPIRED
       else if now < cl_nbf c - skew then PS_CLAIMS_NOT_YET_VALID else PS_CLAIMS_OK c)" by auto
  from assms(3) p obtain sig where sig: "hmac secret (PS_JWT_HEADER_B64 @ ''.'' @ b64_encode payload) = Some sig"
    and token: "token = PS_JWT_HEADER_B64 @ ''.'' @ b64_encode payload @ ''.'' @ b64_encode sig"
    by (auto simp: ps_jwt_encode_def Let_def split: option.splits)
  have len: "length sig = PS_HMAC_SHA256_LEN" using assms(2) [OF sig] .
  then have "sig \<noteq> []" by (auto simp: PS_HMAC_SHA256_LEN_def)
  have "payload \<noteq> []"
    using p ps_json_write_ne [OF claims_object_ok [OF assms(1)]] by (auto simp: ps_claims_write_def split: if_splits)
  then have seg: "jwt_segments token = Some (PS_JWT_HEADER_B64, b64_encode payload, b64_encode sig)"
    using \<open>sig \<noteq> []\<close> by (simp add: jwt_segments_Some_iff token header_no_dot b64_encode_no_dot b64_encode_ne)
  show ?thesis
    using seg len sig by (simp add: ps_jwt_verify_def b64_decode_encode ps_ct_equal_def pp jwt_result_of_claims_def)
qed

lemma jwt_verify_OK:
  assumes "ps_jwt_verify hmac token issuer audience secret now skew = PS_JWT_OK c"
    and "\<And>k m t. hmac k m = Some t \<Longrightarrow> length t = PS_HMAC_SHA256_LEN"
  obtains payload tag where "hmac secret (PS_JWT_HEADER_B64 @ ''.'' @ b64_encode payload) = Some tag"
    and "token = PS_JWT_HEADER_B64 @ ''.'' @ b64_encode payload @ ''.'' @ b64_encode tag"
    and "ps_claims_parse payload issuer audience now skew = PS_CLAIMS_OK c"
proof -
  from assms(1) obtain p s sig t payload where
    seg: "jwt_segments token = Some (PS_JWT_HEADER_B64, p, s)" and d: "b64_decode s = Some sig"
    and len: "length sig = PS_HMAC_SHA256_LEN" and t: "hmac secret (PS_JWT_HEADER_B64 @ ''.'' @ p) = Some t"
    and eq: "ps_ct_equal sig t PS_HMAC_SHA256_LEN" and dp: "b64_decode p = Some payload"
    and cl: "ps_claims_parse payload issuer audience now skew = PS_CLAIMS_OK c"
    by (auto simp: ps_jwt_verify_def jwt_result_of_claims_def
        split: option.splits if_splits ps_claims_result_t.splits)
  have "sig = t" using eq len assms(2) [OF t] by (simp add: ps_ct_equal_def)
  moreover have "p = b64_encode payload" "s = b64_encode sig"
    using base64url.enc_dec [OF dp] base64url.enc_dec [OF d] by simp_all
  ultimately show thesis
    using that t seg cl by (simp add: jwt_segments_Some_iff)
qed

lemma claims_parse_OK_window:
  assumes "ps_claims_parse text issuer audience now skew = PS_CLAIMS_OK c"
  shows "now \<le> cl_exp c + skew" and "cl_nbf c - skew \<le> now" and "length (cl_jti c) = PS_JWT_JTI_HEX_LEN"
    and "length (cl_family_id c) = PS_JWT_FAMILY_ID_HEX_LEN"
  using assms by (auto simp: ps_claims_parse_def Let_def claim_strings_def split: sum.splits option.splits if_splits)


subsection \<open>Properties\<close>

definition toy_hmac :: hmac_fn where
  "toy_hmac key msg = Some (take 32 (key @ msg @ replicate 32 NUL))"

lemma toy_hmac_ok: "\<exists>t. toy_hmac k m = Some t \<and> length t = PS_HMAC_SHA256_LEN"
  by (simp add: toy_hmac_def PS_HMAC_SHA256_LEN_def)

definition example_claims :: ps_jwt_claims_t where
  "example_claims = \<lparr>cl_user_id = 42, cl_roles = 3, cl_iat = 1000, cl_nbf = 1000,
     cl_exp = 1900, cl_jti = replicate 32 CHR ''a'', cl_family_id = replicate 32 CHR ''b''\<rparr>"

lemma example_claims_ok: "claims_ok example_claims"
  by (simp add: claims_ok_def example_claims_def in_int64_def PS_JWT_ROLE_USER_def PS_JWT_ROLE_ADMIN_def
      PS_JWT_JTI_HEX_LEN_def PS_JWT_FAMILY_ID_HEX_LEN_def)

text \<open>C26. A token the service issues verifies under the same key, issuer and audience to exactly the
  claims it was issued for, from \<open>nbf - skew\<close> to \<open>exp + skew\<close>, and is reported as not yet valid or
  expired outside that window. The HMAC is any function with a 32-byte output.\<close>

theorem jwt_issue_verify:
  assumes "claims_ok c" and "\<forall>k m. \<exists>t. hmac k m = Some t \<and> length t = PS_HMAC_SHA256_LEN"
  shows "\<exists>token. ps_jwt_encode hmac c issuer audience secret = Some token \<and>
    ps_jwt_verify hmac token issuer audience secret now skew =
      (if cl_exp c + skew < now then PS_JWT_EXPIRED
       else if now < cl_nbf c - skew then PS_JWT_NOT_YET_VALID
       else PS_JWT_OK c)"
proof -
  from ps_claims_parse_write [OF assms(1), of issuer audience now skew] obtain payload where
    "ps_claims_write c issuer audience = Some payload" by auto
  moreover obtain t where "hmac secret (PS_JWT_HEADER_B64 @ ''.'' @ b64_encode payload) = Some t" using assms(2) by blast
  ultimately obtain token where tok: "ps_jwt_encode hmac c issuer audience secret = Some token"
    by (auto simp: ps_jwt_encode_def Let_def)
  have len: "\<And>k m t. hmac k m = Some t \<Longrightarrow> length t = PS_HMAC_SHA256_LEN"
    using assms(2) by (metis option.inject)
  have "ps_jwt_verify hmac token issuer audience secret now skew =
      (if cl_exp c + skew < now then PS_JWT_EXPIRED
       else if now < cl_nbf c - skew then PS_JWT_NOT_YET_VALID else PS_JWT_OK c)"
    using assms(1) len tok by (rule jwt_verify_encode)
  with tok show ?thesis by simp
qed

theorem jwt_issue_verify_witness:
  "\<exists>token. ps_jwt_encode toy_hmac example_claims ''iss'' ''aud'' ''secret'' = Some token \<and>
    ps_jwt_verify toy_hmac token ''iss'' ''aud'' ''secret'' 1500 30 = PS_JWT_OK example_claims"
  using jwt_issue_verify [OF example_claims_ok, of toy_hmac "''iss''" "''aud''" "''secret''" 1500 30] toy_hmac_ok
  by (simp add: example_claims_def)

text \<open>C27. Verification accepts nothing else: an accepted token is, byte for byte, the fixed HS256
  header, the canonical encoding of a payload, and the canonical encoding of the MAC of those two under
  the server's key. So no other algorithm can be selected and no second spelling of a valid token is
  accepted, and the claims returned are those of the payload, inside their validity window.\<close>

theorem jwt_accepts_only_its_own_macs:
  assumes "ps_jwt_verify hmac token issuer audience secret now skew = PS_JWT_OK c"
    and "\<forall>k m t. hmac k m = Some t \<longrightarrow> length t = PS_HMAC_SHA256_LEN"
  shows "\<exists>payload tag. hmac secret (PS_JWT_HEADER_B64 @ ''.'' @ b64_encode payload) = Some tag \<and>
    token = PS_JWT_HEADER_B64 @ ''.'' @ b64_encode payload @ ''.'' @ b64_encode tag \<and>
    ps_claims_parse payload issuer audience now skew = PS_CLAIMS_OK c \<and>
    now \<le> cl_exp c + skew \<and> cl_nbf c - skew \<le> now"
proof -
  have len: "\<And>k m t. hmac k m = Some t \<Longrightarrow> length t = PS_HMAC_SHA256_LEN" using assms(2) by blast
  obtain payload tag where
    p: "hmac secret (PS_JWT_HEADER_B64 @ ''.'' @ b64_encode payload) = Some tag"
    "token = PS_JWT_HEADER_B64 @ ''.'' @ b64_encode payload @ ''.'' @ b64_encode tag"
    "ps_claims_parse payload issuer audience now skew = PS_CLAIMS_OK c"
    using assms(1) len by (rule jwt_verify_OK)
  with claims_parse_OK_window [OF p(3)] show ?thesis by blast
qed

theorem jwt_accepts_only_its_own_macs_witness:
  "\<exists>token. ps_jwt_encode toy_hmac example_claims ''iss'' ''aud'' ''secret'' = Some token \<and>
    (\<exists>payload tag. toy_hmac ''secret'' (PS_JWT_HEADER_B64 @ ''.'' @ b64_encode payload) = Some tag \<and>
      token = PS_JWT_HEADER_B64 @ ''.'' @ b64_encode payload @ ''.'' @ b64_encode tag \<and>
      ps_claims_parse payload ''iss'' ''aud'' 1500 30 = PS_CLAIMS_OK example_claims)"
proof -
  have len: "\<forall>k m t. toy_hmac k m = Some t \<longrightarrow> length t = PS_HMAC_SHA256_LEN" using toy_hmac_ok by (metis option.inject)
  obtain payload where "ps_claims_write example_claims ''iss'' ''aud'' = Some payload"
    using ps_claims_parse_write [OF example_claims_ok] by blast
  then obtain token where tok: "ps_jwt_encode toy_hmac example_claims ''iss'' ''aud'' ''secret'' = Some token"
    by (auto simp: ps_jwt_encode_def toy_hmac_def)
  have "ps_jwt_verify toy_hmac token ''iss'' ''aud'' ''secret'' 1500 30 = PS_JWT_OK example_claims"
    using jwt_verify_encode [OF example_claims_ok _ tok, of 1500 30] len by (simp add: example_claims_def)
  from jwt_accepts_only_its_own_macs [OF this len] tok show ?thesis by blast
qed

end
