(* ===== verification/Validate.thy ===== *)
theory Validate
  imports Prelude
begin

text \<open>
  Username and email validation and normalisation (\<^verbatim>\<open>src/src/auth/validate.c\<close>, \<^verbatim>\<open>validate.h\<close>). Both
  functions write the normalised text into the caller's buffer of \<open>out_size\<close> bytes whatever the
  verdict; they return the verdict and that text.
\<close>

datatype ps_username_validate_result_t =
    PS_USERNAME_VALID
  | PS_USERNAME_TOO_SHORT
  | PS_USERNAME_TOO_LONG
  | PS_USERNAME_BAD_CHARSET
  | PS_USERNAME_STARTS_NON_ALPHANUMERIC
  | PS_USERNAME_RESERVED

datatype ps_email_validate_result_t =
    PS_EMAIL_VALID
  | PS_EMAIL_TOO_LONG
  | PS_EMAIL_MALFORMED

definition RESERVED_USERNAMES :: "bytes list" where
  "RESERVED_USERNAMES =
     [''admin'', ''administrator'', ''root'', ''system'', ''support'', ''security'',
      ''null'', ''undefined'', ''moderator'', ''staff'', ''owner'', ''superuser'',
      ''sysadmin'', ''webmaster'', ''postmaster'', ''api'', ''test'']"

definition is_alnum_ascii :: "byte \<Rightarrow> bool" where
  "is_alnum_ascii c \<longleftrightarrow> (97 \<le> byte_val c \<and> byte_val c \<le> 122) \<or> (48 \<le> byte_val c \<and> byte_val c \<le> 57)"

definition is_username_char :: "byte \<Rightarrow> bool" where
  "is_username_char c \<longleftrightarrow> is_alnum_ascii c \<or> c = CHR ''_'' \<or> c = CHR ''-''"

definition ps_username_validate :: "bytes \<Rightarrow> nat \<Rightarrow> bool \<Rightarrow> ps_username_validate_result_t \<times> bytes" where
  "ps_username_validate raw0 out_size check_reserved =
     (let raw = cstr raw0;
          out = map c_tolower (take (out_size - 1) raw);
          result =
            (if length raw < 3 then PS_USERNAME_TOO_SHORT
             else if 32 < length raw then PS_USERNAME_TOO_LONG
             else if \<not> list_all is_username_char out then PS_USERNAME_BAD_CHARSET
             else if \<not> is_alnum_ascii (if out = [] then NUL else hd out) then PS_USERNAME_STARTS_NON_ALPHANUMERIC
             else if check_reserved \<and> out \<in> set RESERVED_USERNAMES then PS_USERNAME_RESERVED
             else PS_USERNAME_VALID)
      in (result, out))"

definition is_sp_tab :: "byte \<Rightarrow> bool" where
  "is_sp_tab c \<longleftrightarrow> c = CHR '' '' \<or> c = CHR 0x09"

definition trim_sp_tab :: "bytes \<Rightarrow> bytes" where
  "trim_sp_tab s = rev (dropWhile is_sp_tab (rev (dropWhile is_sp_tab s)))"

definition ps_email_validate :: "bytes \<Rightarrow> nat \<Rightarrow> ps_email_validate_result_t \<times> bytes" where
  "ps_email_validate raw out_size =
     (let trimmed = trim_sp_tab (cstr raw);
          out = map c_tolower (take (out_size - 1) trimmed);
          result =
            (if 254 < length trimmed then PS_EMAIL_TOO_LONG
             else case split_at_char CHR ''@'' out of
               None \<Rightarrow> PS_EMAIL_MALFORMED
             | Some (local, domain) \<Rightarrow>
                 if CHR ''@'' \<in> set domain then PS_EMAIL_MALFORMED
                 else if local = [] \<or> domain = [] \<or> CHR ''.'' \<notin> set domain then PS_EMAIL_MALFORMED
                 else PS_EMAIL_VALID)
      in (result, out))"


subsection \<open>Accepted names are normal forms\<close>

lemma c_tolower_alnum: "is_alnum_ascii c \<Longrightarrow> c_tolower c = c"
  by (auto simp: is_alnum_ascii_def c_tolower_def)

lemma c_tolower_username_char: "is_username_char c \<Longrightarrow> c_tolower c = c"
  by (auto simp: is_username_char_def c_tolower_alnum) (auto simp: c_tolower_def)

lemma username_char_not_NUL: "\<not> is_username_char NUL"
  by (simp add: is_username_char_def is_alnum_ascii_def)

lemma username_valid:
  assumes "ps_username_validate raw out_size res = (PS_USERNAME_VALID, out)" and "33 \<le> out_size"
  shows "3 \<le> length out" and "length out \<le> 32" and "list_all is_username_char out" and "is_alnum_ascii (hd out)"
    and "res \<Longrightarrow> out \<notin> set RESERVED_USERNAMES" and "out = map c_tolower (cstr raw)"
  using assms by (auto simp: ps_username_validate_def Let_def split: if_splits)

lemma username_idem:
  assumes "ps_username_validate raw out_size res = (PS_USERNAME_VALID, out)" and "33 \<le> out_size"
  shows "ps_username_validate out out_size res = (PS_USERNAME_VALID, out)"
proof -
  note v = username_valid [OF assms]
  have "NUL \<notin> set out" using v(3) username_char_not_NUL by (auto simp: list_all_iff)
  then have c: "cstr out = out" by (rule cstr_id)
  have m: "map c_tolower out = out" using v(3) by (auto simp: list_all_iff c_tolower_username_char intro!: map_idI)
  have "take (out_size - 1) out = out" using v(2) assms(2) by simp
  with c m v(1-5) show ?thesis by (auto simp: ps_username_validate_def Let_def)
qed

lemma trim_sp_tab_ends:
  "trim_sp_tab s \<noteq> [] \<Longrightarrow> \<not> is_sp_tab (hd (trim_sp_tab s)) \<and> \<not> is_sp_tab (last (trim_sp_tab s))"
proof -
  assume ne: "trim_sp_tab s \<noteq> []"
  let ?d = "dropWhile is_sp_tab s"
  have l: "\<not> is_sp_tab (last (trim_sp_tab s))"
    using ne hd_dropWhile [of is_sp_tab "rev ?d"] by (auto simp: trim_sp_tab_def last_rev)
  obtain w where w: "?d = trim_sp_tab s @ w"
    using takeWhile_dropWhile_id [of is_sp_tab "rev ?d"] by (metis rev_append rev_rev_ident trim_sp_tab_def)
  then have "hd (trim_sp_tab s) = hd ?d" using ne by (metis hd_append2)
  moreover have "?d \<noteq> []" using w ne by auto
  ultimately show ?thesis using l hd_dropWhile [of is_sp_tab s] by simp
qed

lemma trim_sp_tab_id:
  "s \<noteq> [] \<Longrightarrow> \<not> is_sp_tab (hd s) \<Longrightarrow> \<not> is_sp_tab (last s) \<Longrightarrow> trim_sp_tab s = s"
proof -
  assume s: "s \<noteq> []" "\<not> is_sp_tab (hd s)" "\<not> is_sp_tab (last s)"
  then have "dropWhile is_sp_tab s = s" by (simp add: dropWhile_eq_self_iff)
  moreover have "dropWhile is_sp_tab (rev s) = rev s" using s by (simp add: dropWhile_eq_self_iff hd_rev)
  ultimately show ?thesis by (simp add: trim_sp_tab_def)
qed

lemma c_tolower_sp_tab: "is_sp_tab (c_tolower c) = is_sp_tab c"
proof -
  have "byte_val (char_of (byte_val c + 32)) = byte_val c + 32" if "byte_val c \<le> 90"
    using that by (intro byte_val_char_of) simp
  then have "c_tolower c \<noteq> CHR '' ''" "c_tolower c \<noteq> CHR 0x09" if "65 \<le> byte_val c" "byte_val c \<le> 90"
    using that by (auto simp: c_tolower_def dest!: arg_cong [of _ _ "of_char :: char \<Rightarrow> nat"])
  then show ?thesis by (auto simp: c_tolower_def is_sp_tab_def)
qed

lemma email_valid:
  assumes "ps_email_validate raw out_size = (PS_EMAIL_VALID, out)" and "255 \<le> out_size"
  obtains l d where "out = l @ ''@'' @ d" and "l \<noteq> []" and "CHR ''@'' \<notin> set l" and "CHR ''@'' \<notin> set d"
    and "CHR ''.'' \<in> set d" and "length out \<le> 254" and "out = map c_tolower (trim_sp_tab (cstr raw))"
proof -
  from assms have len: "length (trim_sp_tab (cstr raw)) \<le> 254"
    and out: "out = map c_tolower (trim_sp_tab (cstr raw))"
    by (auto simp: ps_email_validate_def Let_def split: if_splits)
  from assms len obtain l d where "split_at_char CHR ''@'' out = Some (l, d)" "CHR ''@'' \<notin> set d" "l \<noteq> []" "CHR ''.'' \<in> set d"
    by (auto simp: ps_email_validate_def Let_def split: if_splits option.splits)
  moreover have "length out \<le> 254" using len out by simp
  ultimately show thesis
    by (intro that [of l d] out) (simp_all add: split_at_char_Some_iff)
qed

lemma trim_sp_tab_subset: "set (trim_sp_tab s) \<subseteq> set s"
  by (auto simp: trim_sp_tab_def dest!: set_dropWhileD)

lemma c_tolower_NUL_iff: "c_tolower c = NUL \<longleftrightarrow> c = NUL"
proof -
  have "byte_val (char_of (byte_val c + 32)) = byte_val c + 32" if "byte_val c \<le> 90"
    using that by (intro byte_val_char_of) simp
  then show ?thesis by (auto simp: c_tolower_def dest!: arg_cong [of _ _ "of_char :: char \<Rightarrow> nat"])
qed

lemma email_idem:
  assumes "ps_email_validate raw out_size = (PS_EMAIL_VALID, out)" and "255 \<le> out_size"
  shows "ps_email_validate out out_size = (PS_EMAIL_VALID, out)"
proof -
  from email_valid [OF assms] obtain l d where v: "out = l @ ''@'' @ d" "l \<noteq> []" "CHR ''@'' \<notin> set l" "CHR ''@'' \<notin> set d"
    "CHR ''.'' \<in> set d" "length out \<le> 254" "out = map c_tolower (trim_sp_tab (cstr raw))" .
  let ?t = "trim_sp_tab (cstr raw)"
  have "NUL \<notin> set ?t" using trim_sp_tab_subset [of "cstr raw"] NUL_notin_cstr [of raw] by blast
  then have "NUL \<notin> c_tolower ` set ?t" by (metis c_tolower_NUL_iff imageE)
  then have "NUL \<notin> set out" by (simp add: v(7))
  then have c: "cstr out = out" by (rule cstr_id)
  have ne: "?t \<noteq> []" using v(1,7) by auto
  then have "trim_sp_tab out = out"
    using trim_sp_tab_ends [OF ne] v(7) by (intro trim_sp_tab_id) (auto simp: hd_map last_map c_tolower_sp_tab)
  moreover have "map c_tolower out = out" using v(7) by simp
  moreover have "split_at_char CHR ''@'' out = Some (l, d)" using v(1,3) by simp
  ultimately show ?thesis using c v(2,4,5,6) assms(2) by (auto simp: ps_email_validate_def Let_def)
qed


subsection \<open>Properties\<close>

text \<open>An accepted username is in canonical form: the lowercased input, of 3 to 32 of the allowed
  characters, starting with a letter or digit, not reserved when reserved names are refused; and
  validating it again gives the same name, so a stored name always looks itself up.\<close>

theorem username_canonical:
  assumes "ps_username_validate raw out_size res = (PS_USERNAME_VALID, out)" and "33 \<le> out_size"
  shows "out = map c_tolower (cstr raw) \<and> 3 \<le> length out \<and> length out \<le> 32 \<and> list_all is_username_char out \<and>
    is_alnum_ascii (hd out) \<and> (res \<longrightarrow> out \<notin> set RESERVED_USERNAMES) \<and>
    ps_username_validate out out_size res = (PS_USERNAME_VALID, out)"
  using username_valid [OF assms] username_idem [OF assms] by simp

theorem username_canonical_witness:
  "''al-ice'' = map c_tolower (cstr ''Al-ICE'') \<and> 3 \<le> length ''al-ice'' \<and> length ''al-ice'' \<le> 32 \<and>
    list_all is_username_char ''al-ice'' \<and> is_alnum_ascii (hd ''al-ice'') \<and>
    ''al-ice'' \<notin> set RESERVED_USERNAMES \<and>
    ps_username_validate ''al-ice'' 33 True = (PS_USERNAME_VALID, ''al-ice'')"
proof -
  have "ps_username_validate ''Al-ICE'' 33 True = (PS_USERNAME_VALID, ''al-ice'')" by code_simp
  from username_canonical [OF this order_refl] show ?thesis by blast
qed

text \<open>An accepted email address is the trimmed and lowercased input, of at most 254 bytes, with one
  \<^verbatim>\<open>@\<close>, something before it and a dot behind it; validating it again gives the same address.\<close>

theorem email_canonical:
  assumes "ps_email_validate raw out_size = (PS_EMAIL_VALID, out)" and "255 \<le> out_size"
  shows "out = map c_tolower (trim_sp_tab (cstr raw)) \<and> length out \<le> 254 \<and>
    (\<exists>l d. out = l @ ''@'' @ d \<and> l \<noteq> [] \<and> CHR ''@'' \<notin> set l \<and> CHR ''@'' \<notin> set d \<and> CHR ''.'' \<in> set d) \<and>
    ps_email_validate out out_size = (PS_EMAIL_VALID, out)"
  using email_valid [OF assms] email_idem [OF assms] by metis

theorem email_canonical_witness:
  "''a@b.c'' = map c_tolower (trim_sp_tab (cstr '' A@b.C '')) \<and> length ''a@b.c'' \<le> 254 \<and>
    (\<exists>l d. ''a@b.c'' = l @ ''@'' @ d \<and> l \<noteq> [] \<and> CHR ''@'' \<notin> set l \<and> CHR ''@'' \<notin> set d \<and> CHR ''.'' \<in> set d) \<and>
    ps_email_validate ''a@b.c'' 255 = (PS_EMAIL_VALID, ''a@b.c'')"
proof (rule email_canonical)
  show "ps_email_validate '' A@b.C '' 255 = (PS_EMAIL_VALID, ''a@b.c'')" by code_simp
qed simp

end
