(* ===== verification/Password.thy ===== *)
theory Password
  imports Prelude
begin

text \<open>
  Password hashing, the breach denylist and the password policy (\<^verbatim>\<open>src/src/auth/password.c\<close>,
  \<^verbatim>\<open>password.h\<close>), and the semaphore that bounds concurrent key derivations
  (\<^verbatim>\<open>src/src/crypto/kdf_semaphore.c\<close>). PBKDF2 and the random generator are OpenSSL's: \<open>kdf\<close> derives a
  key from a password, a salt and an iteration count, or fails; a salt is what the generator
  returned, \<open>None\<close> being its failure. The denylist is the contents of the file.
\<close>

type_synonym kdf_fn = "bytes \<Rightarrow> bytes \<Rightarrow> int \<Rightarrow> bytes option"

definition PS_KDF_SALT_LEN :: nat where "PS_KDF_SALT_LEN = 16"
definition PS_KDF_OUTPUT_LEN :: nat where "PS_KDF_OUTPUT_LEN = 32"

record ps_password_hash_t =
  ph_salt :: bytes
  ph_iterations :: int
  ph_hash :: bytes

definition ps_password_hash :: "kdf_fn \<Rightarrow> bytes option \<Rightarrow> bytes \<Rightarrow> int \<Rightarrow> ps_password_hash_t option" where
  "ps_password_hash kdf rnd password iterations =
     (case rnd of
        None \<Rightarrow> None
      | Some salt \<Rightarrow>
          (case kdf password salt iterations of
             None \<Rightarrow> None
           | Some h \<Rightarrow> Some \<lparr>ph_salt = salt, ph_iterations = iterations, ph_hash = h\<rparr>))"

definition ps_password_verify :: "kdf_fn \<Rightarrow> bytes \<Rightarrow> ps_password_hash_t \<Rightarrow> bool" where
  "ps_password_verify kdf password stored =
     (case kdf password (ph_salt stored) (ph_iterations stored) of
        None \<Rightarrow> False
      | Some computed \<Rightarrow> take PS_KDF_OUTPUT_LEN computed = take PS_KDF_OUTPUT_LEN (ph_hash stored))"


subsection \<open>The denylist\<close>

definition strip_cr :: "bytes \<Rightarrow> bytes" where
  "strip_cr l = (if l \<noteq> [] \<and> last l = CHR 0x0D then butlast l else l)"

text \<open>
  The entries of the file: one C string per line, empty ones skipped, a final CR dropped from every
  line that ends with a newline.
\<close>

function denylist_lines :: "bytes \<Rightarrow> bytes list" where
  "denylist_lines buf =
     (case split_at_char CHR 0x0A buf of
        None \<Rightarrow> if cstr buf \<noteq> [] then [cstr buf] else []
      | Some (l, rest) \<Rightarrow>
          (if cstr (strip_cr l) \<noteq> [] then [cstr (strip_cr l)] else []) @ denylist_lines rest)"
  by pat_completeness auto
termination
  by (relation "measure length") (auto simp: split_at_char_Some_iff)

declare denylist_lines.simps [simp del]

text \<open>\<^verbatim>\<open>qsort\<close> with \<^verbatim>\<open>strcmp\<close>: the byte-wise lexicographic order. \<open>None\<close> is a file that cannot be read.\<close>

definition ps_password_denylist_load :: "bytes option \<Rightarrow> bytes list option" where
  "ps_password_denylist_load file = map_option (\<lambda>buf. sort (denylist_lines buf)) file"

definition ps_password_denylist_free :: "bytes list \<Rightarrow> bytes list" where
  "ps_password_denylist_free lst = []"

definition c_strcmp :: "bytes \<Rightarrow> bytes \<Rightarrow> int" where
  "c_strcmp a b = (if a = b then 0 else if a < b then - 1 else 1)"

function denylist_search :: "bytes list \<Rightarrow> bytes \<Rightarrow> nat \<Rightarrow> nat \<Rightarrow> bool" where
  "denylist_search lines candidate lo hi =
     (if lo < hi then
        let mid = lo + (hi - lo) div 2;
            cmp = c_strcmp (lines ! mid) candidate
        in if cmp = 0 then True
           else if cmp < 0 then denylist_search lines candidate (mid + 1) hi
           else denylist_search lines candidate lo mid
      else False)"
  by pat_completeness auto
termination
proof (relation "measure (\<lambda>(_, _, lo, hi). hi - lo)", goal_cases)
  case (2 lines candidate lo hi mid cmp)
  then have "lo < mid + 1" by simp
  with 2(1) have "hi - (mid + 1) < hi - lo" by (intro diff_less_mono2)
  then show ?case by simp
next
  case (3 lines candidate lo hi mid cmp)
  then have "(hi - lo) div 2 < hi - lo" by simp
  with 3 show ?case by auto
qed simp

declare denylist_search.simps [simp del]

definition denylist_contains :: "bytes list \<Rightarrow> bytes \<Rightarrow> bool" where
  "denylist_contains lines candidate = denylist_search lines candidate 0 (length lines)"

datatype ps_password_policy_result_t =
    PS_PASSWORD_POLICY_OK
  | PS_PASSWORD_POLICY_TOO_SHORT
  | PS_PASSWORD_POLICY_TOO_LONG
  | PS_PASSWORD_POLICY_BREACHED
  | PS_PASSWORD_POLICY_ERROR

definition lower_ascii :: "byte \<Rightarrow> byte" where
  "lower_ascii c = (if byte_val c < 0x80 then c_tolower c else c)"

definition ps_password_policy_check :: "bytes \<Rightarrow> int \<Rightarrow> int \<Rightarrow> bytes list option \<Rightarrow> ps_password_policy_result_t" where
  "ps_password_policy_check password min_length max_length denylist =
     (if int (length password) < min_length then PS_PASSWORD_POLICY_TOO_SHORT
      else if max_length < int (length password) then PS_PASSWORD_POLICY_TOO_LONG
      else case denylist of
        None \<Rightarrow> PS_PASSWORD_POLICY_OK
      | Some lst \<Rightarrow>
          if denylist_contains lst (cstr (map lower_ascii password)) then PS_PASSWORD_POLICY_BREACHED
          else PS_PASSWORD_POLICY_OK)"


subsection \<open>The semaphore around key derivation\<close>

text \<open>A semaphore is the number of slots that are free.\<close>

definition ps_kdf_semaphore_create :: "int \<Rightarrow> int \<Rightarrow> nat" where
  "ps_kdf_semaphore_create capacity nprocs =
     nat (if capacity < 1 then (if nprocs < 1 then 1 else nprocs) else capacity)"

definition ps_kdf_semaphore_try_acquire :: "nat \<Rightarrow> bool \<times> nat" where
  "ps_kdf_semaphore_try_acquire n = (if n = 0 then (False, 0) else (True, n - 1))"

definition ps_kdf_semaphore_release :: "nat \<Rightarrow> nat" where
  "ps_kdf_semaphore_release n = n + 1"

lemma semaphore_acquire_release:
  "ps_kdf_semaphore_try_acquire n = (True, m) \<Longrightarrow> ps_kdf_semaphore_release m = n"
  by (auto simp: ps_kdf_semaphore_try_acquire_def ps_kdf_semaphore_release_def split: if_splits)


subsection \<open>The binary search is a membership test\<close>

lemma denylist_search_correct:
  assumes "sorted lines" and "hi \<le> length lines"
  shows "denylist_search lines x lo hi \<longleftrightarrow> (\<exists>i. lo \<le> i \<and> i < hi \<and> lines ! i = x)"
  using assms
proof (induction lines x lo hi rule: denylist_search.induct)
  case (1 lines x lo hi)
  show ?case
  proof (cases "lo < hi")
    case True
    define mid where "mid = lo + (hi - lo) div 2"
    have mid: "lo \<le> mid" "mid < hi" using True by (auto simp: mid_def)
    have mono: "lines ! i \<le> lines ! j" if "i \<le> j" "j < hi" for i j
      using "1.prems" that by (auto intro: sorted_nth_mono)
    consider "lines ! mid = x" | "lines ! mid < x" | "x < lines ! mid" by fastforce
    then show ?thesis
    proof cases
      case 1
      then have "denylist_search lines x lo hi"
        using True by (subst denylist_search.simps) (auto simp: Let_def c_strcmp_def mid_def)
      with 1 mid show ?thesis by auto
    next
      case 2
      then have "denylist_search lines x lo hi = denylist_search lines x (mid + 1) hi"
        using True by (subst denylist_search.simps) (auto simp: Let_def c_strcmp_def mid_def)
      moreover have "i > mid" if "lo \<le> i" "i < hi" "lines ! i = x" for i
        using mono [of i mid] mid that 2 by (meson leD leI)
      moreover have "denylist_search lines x (mid + 1) hi \<longleftrightarrow> (\<exists>i. mid + 1 \<le> i \<and> i < hi \<and> lines ! i = x)"
        using "1.IH"(1) [OF True mid_def refl] 2 "1.prems" by (simp add: c_strcmp_def less_imp_neq)
      ultimately show ?thesis using mid by (metis Suc_eq_plus1 Suc_leI le_SucI le_trans)
    next
      case 3
      then have "denylist_search lines x lo hi = denylist_search lines x lo mid"
        using True by (subst denylist_search.simps) (auto simp: Let_def c_strcmp_def mid_def)
      moreover have "i < mid" if "lo \<le> i" "i < hi" "lines ! i = x" for i
        using mono [of mid i] mid that 3 by (meson leD leI)
      moreover have "denylist_search lines x lo mid \<longleftrightarrow> (\<exists>i. lo \<le> i \<and> i < mid \<and> lines ! i = x)"
      proof -
        have "c_strcmp (lines ! mid) x = 1" using 3 by (auto simp: c_strcmp_def)
        then show ?thesis using "1.IH"(2) [OF True mid_def refl] "1.prems" mid by simp
      qed
      ultimately show ?thesis using mid by (metis less_trans)
    qed
  qed (simp add: denylist_search.simps)
qed

lemma denylist_contains_iff: "sorted lines \<Longrightarrow> denylist_contains lines x \<longleftrightarrow> x \<in> set lines"
  by (auto simp: denylist_contains_def denylist_search_correct in_set_conv_nth)

lemma password_verify_hash:
  assumes "ps_password_hash kdf rnd pw it = Some h"
  shows "ps_password_verify kdf pw h"
  using assms by (auto simp: ps_password_hash_def ps_password_verify_def split: option.splits)


subsection \<open>Properties\<close>


end
