(* ===== verification/Db.thy ===== *)
theory Db
  imports Prelude Ratelimit Password Jwt "HOL-Library.State_Monad"
begin

text \<open>
  The database as the stores see it (\<^verbatim>\<open>src/src/store/schema/001_init.sql\<close>, \<^verbatim>\<open>db.c\<close>) and the monad the
  request handlers are written in. A table is the list of its rows in insertion order, a nullable
  column an \<open>option\<close>. SQLite, the clock, the random generator and the cryptographic primitives are
  parameters, collected in \<open>sys\<close>: every statement and system call gets a fresh number and
  \<open>sys_fault\<close> tells which statements fail, so that every error branch of the handlers can be reached.
  \<open>sys_stack\<close> is the contents of a local array that is read before it is written.

  The state of a request is \<open>world\<close>: the database as the request's connection sees it, the
  snapshot to return to if that connection has a transaction open, and the process-wide resources
  (rate limiter, free slots of the KDF semaphore, free connections of the pool; a negative number
  of connections counts the threads waiting in \<^verbatim>\<open>ps_db_pool_acquire\<close>). The pool is a stack, so
  one request after the other uses the same connection, which is the one modelled.
\<close>

named_theorems keep_intros \<open>rules for state-monad programs that keep an invariant\<close>
named_theorems returns_intros \<open>rules for the possible results of state-monad programs\<close>
named_theorems shift_intros \<open>rules for the resources a state-monad program takes or gives back\<close>


subsection \<open>Tables\<close>

record user_rec =
  ur_user_id :: int64
  ur_username :: bytes
  ur_email :: bytes
  ur_email_normalized :: bytes
  ur_password_hash :: bytes
  ur_password_salt :: bytes
  ur_kdf_iters :: int
  ur_status :: bytes
  ur_failed_logins :: int
  ur_locked_until :: "int64 option"
  ur_created_at :: int64
  ur_updated_at :: int64

record evt_rec =
  ev_token_hash :: bytes
  ev_user_id :: int64
  ev_expires_at :: int64
  ev_consumed_at :: "int64 option"
  ev_created_at :: int64

record family_rec =
  sf_family_id :: bytes
  sf_user_id :: int64
  sf_created_at :: int64
  sf_absolute_exp :: int64
  sf_revoked_at :: "int64 option"
  sf_revoke_cause :: "bytes option"

record rt_rec =
  rt_token_hash :: bytes
  rt_family_id :: bytes
  rt_generation :: int
  rt_idle_exp :: int64
  rt_consumed_at :: "int64 option"
  rt_issued_at :: int64

record mail_rec =
  ml_id :: int64
  ml_to_email :: bytes
  ml_subject :: bytes
  ml_body :: bytes
  ml_created_at :: int64

record audit_rec =
  au_id :: int64
  au_occurred_at :: int64
  au_event :: bytes
  au_outcome :: bytes
  au_actor_user_id :: "int64 option"
  au_target_user_id :: "int64 option"
  au_source_ip :: "bytes option"
  au_request_id :: "bytes option"
  au_detail :: "bytes option"

record db =
  db_users :: "user_rec list"
  db_roles :: "(int64 \<times> bytes) list"
  db_user_roles :: "(int64 \<times> int64) list"
  db_evts :: "evt_rec list"
  db_families :: "family_rec list"
  db_rts :: "rt_rec list"
  db_outbox :: "mail_rec list"
  db_audit :: "audit_rec list"

text \<open>The contents after migration 1: the tables are empty but for the two roles.\<close>

definition schema_001_init :: db where
  "schema_001_init = \<lparr>db_users = [], db_roles = [(1, ''USER''), (2, ''ADMIN'')], db_user_roles = [], db_evts = [],
     db_families = [], db_rts = [], db_outbox = [], db_audit = []\<rparr>"

text \<open>The row id SQLite gives a new row of an \<^verbatim>\<open>INTEGER PRIMARY KEY\<close> table.\<close>

definition next_rowid :: "int list \<Rightarrow> int" where
  "next_rowid ids = (if ids = [] then 1 else Max (set ids) + 1)"

text \<open>The collation of the username column.\<close>

definition nocase :: "bytes \<Rightarrow> bytes" where
  "nocase s = map c_tolower s"


subsection \<open>The environment and the monad\<close>

record sys =
  sys_fault :: "nat \<Rightarrow> bool"
  sys_rand :: "nat \<Rightarrow> nat \<Rightarrow> bytes option"
  sys_time :: "nat \<Rightarrow> int64"
  sys_mono :: "nat \<Rightarrow> int \<times> int"
  sys_sha256 :: "bytes \<Rightarrow> bytes option"
  sys_stack :: "nat \<Rightarrow> bytes"
  sys_kdf :: kdf_fn
  sys_hmac :: hmac_fn

record world =
  w_db :: db
  w_saved :: "db option"
  w_rl :: ps_ratelimiter_t
  w_kdf :: nat
  w_conns :: int
  w_tick :: nat

type_synonym 'a io = "(world, 'a) state"

abbreviation ret :: "'a \<Rightarrow> 'a io" where "ret \<equiv> State_Monad.return"

definition tick :: "world \<Rightarrow> world" where
  "tick w = w\<lparr>w_tick := w_tick w + 1\<rparr>"

text \<open>A query. It yields nothing when the statement fails or no row matches.\<close>

definition sql_query :: "sys \<Rightarrow> (db \<Rightarrow> 'a option) \<Rightarrow> 'a option io" where
  "sql_query S q = State (\<lambda>w. (if sys_fault S (w_tick w) then None else q (w_db w), tick w))"

text \<open>A statement that changes the database, unless it fails or violates a constraint.\<close>

definition sql_exec :: "sys \<Rightarrow> (db \<Rightarrow> ('a \<times> db) option) \<Rightarrow> 'a option io" where
  "sql_exec S f = State (\<lambda>w. if sys_fault S (w_tick w) then (None, tick w)
     else case f (w_db w) of None \<Rightarrow> (None, tick w) | Some (a, d) \<Rightarrow> (Some a, tick (w\<lparr>w_db := d\<rparr>)))"

text \<open>
  Transactions. \<^verbatim>\<open>BEGIN\<close> fails inside a transaction, a \<^verbatim>\<open>COMMIT\<close> that fails leaves the transaction
  open, and the callers ignore the result of \<^verbatim>\<open>ROLLBACK\<close>, which is taken to succeed.
\<close>

definition sql_begin :: "sys \<Rightarrow> bool io" where
  "sql_begin S = State (\<lambda>w. if sys_fault S (w_tick w) \<or> w_saved w \<noteq> None then (False, tick w)
     else (True, tick (w\<lparr>w_saved := Some (w_db w)\<rparr>)))"

definition sql_commit :: "sys \<Rightarrow> bool io" where
  "sql_commit S = State (\<lambda>w. if sys_fault S (w_tick w) \<or> w_saved w = None then (False, tick w)
     else (True, tick (w\<lparr>w_saved := None\<rparr>)))"

definition sql_rollback :: "unit io" where
  "sql_rollback = State (\<lambda>w. ((), tick (case w_saved w of None \<Rightarrow> w | Some d \<Rightarrow> w\<lparr>w_db := d, w_saved := None\<rparr>)))"

text \<open>\<^verbatim>\<open>SAVEPOINT\<close> hands the state of the database to \<^verbatim>\<open>ROLLBACK TO\<close>.\<close>

definition sql_savepoint :: "sys \<Rightarrow> db option io" where
  "sql_savepoint S = State (\<lambda>w. (if sys_fault S (w_tick w) then None else Some (w_db w), tick w))"

definition sql_rollback_to :: "db \<Rightarrow> unit io" where
  "sql_rollback_to d = State (\<lambda>w. ((), tick (w\<lparr>w_db := d\<rparr>)))"

definition sql_release :: "sys \<Rightarrow> bool io" where
  "sql_release S = State (\<lambda>w. (\<not> sys_fault S (w_tick w), tick w))"

definition ps_rand_bytes :: "sys \<Rightarrow> nat \<Rightarrow> bytes option io" where
  "ps_rand_bytes S n = State (\<lambda>w. (sys_rand S (w_tick w) n, tick w))"

definition time_now :: "sys \<Rightarrow> int64 io" where
  "time_now S = State (\<lambda>w. (sys_time S (w_tick w), tick w))"

definition ps_db_pool_acquire :: "unit io" where
  "ps_db_pool_acquire = State (\<lambda>w. ((), w\<lparr>w_conns := w_conns w - 1\<rparr>))"

definition ps_db_pool_release :: "unit io" where
  "ps_db_pool_release = State (\<lambda>w. ((), w\<lparr>w_conns := w_conns w + 1\<rparr>))"

definition kdf_try_acquire :: "bool io" where
  "kdf_try_acquire = State (\<lambda>w. case ps_kdf_semaphore_try_acquire (w_kdf w) of (ok, n) \<Rightarrow> (ok, w\<lparr>w_kdf := n\<rparr>))"

definition kdf_release :: "unit io" where
  "kdf_release = State (\<lambda>w. ((), w\<lparr>w_kdf := ps_kdf_semaphore_release (w_kdf w)\<rparr>))"

definition rl_allow :: "sys \<Rightarrow> bytes \<Rightarrow> int \<Rightarrow> bool io" where
  "rl_allow S key per_minute = State (\<lambda>w.
     case ps_ratelimiter_allow (sys_mono S (w_tick w)) (w_rl w) key per_minute of
       (ok, rl) \<Rightarrow> (ok, tick (w\<lparr>w_rl := rl\<rparr>)))"

lemmas io_defs = sql_query_def sql_exec_def sql_begin_def sql_commit_def sql_rollback_def sql_savepoint_def
  sql_rollback_to_def sql_release_def ps_rand_bytes_def time_now_def ps_db_pool_acquire_def ps_db_pool_release_def
  kdf_try_acquire_def kdf_release_def rl_allow_def


subsection \<open>Reasoning about programs of the monad\<close>

text \<open>
  Three judgements carry the proofs about the handlers, each with one rule per construct: a program
  keeps a property of the state, returns only certain results, and takes or gives back a certain
  amount of the shared resources.
\<close>

definition keeps :: "('w \<Rightarrow> bool) \<Rightarrow> ('w, 'a) state \<Rightarrow> bool" where
  "keeps I m \<longleftrightarrow> (\<forall>w. I w \<longrightarrow> I (snd (run_state m w)))"

definition returns :: "('a \<Rightarrow> bool) \<Rightarrow> ('w, 'a) state \<Rightarrow> bool" where
  "returns P m \<longleftrightarrow> (\<forall>w. P (fst (run_state m w)))"

definition shift :: "int \<Rightarrow> int \<Rightarrow> 'a io \<Rightarrow> bool" where
  "shift c k m \<longleftrightarrow> (\<forall>w. w_conns (snd (run_state m w)) = w_conns w + c \<and>
     int (w_kdf (snd (run_state m w))) = int (w_kdf w) + k)"

lemma keepsD: "keeps I m \<Longrightarrow> run_state m w = (a, w') \<Longrightarrow> I w \<Longrightarrow> I w'"
  by (auto simp: keeps_def dest: spec [of _ w])

lemma keeps_return [keep_intros]: "keeps I (State_Monad.return a)"
  by (simp add: keeps_def)

lemma keeps_bind [keep_intros]: "keeps I m \<Longrightarrow> (\<And>a. keeps I (f a)) \<Longrightarrow> keeps I (State_Monad.bind m f)"
  by (auto simp: keeps_def split: prod.splits)

lemma keeps_if [keep_intros]: "(b \<Longrightarrow> keeps I m) \<Longrightarrow> (\<not> b \<Longrightarrow> keeps I n) \<Longrightarrow> keeps I (if b then m else n)"
  by simp

lemma keeps_option [keep_intros]:
  "keeps I m \<Longrightarrow> (\<And>a. keeps I (f a)) \<Longrightarrow> keeps I (case x of None \<Rightarrow> m | Some a \<Rightarrow> f a)"
  by (cases x) auto

lemma keeps_sum [keep_intros]:
  "(\<And>a. keeps I (f a)) \<Longrightarrow> (\<And>b. keeps I (g b)) \<Longrightarrow> keeps I (case x of Inl a \<Rightarrow> f a | Inr b \<Rightarrow> g b)"
  by (cases x) auto

lemma keeps_prod [keep_intros]: "(\<And>a b. keeps I (f a b)) \<Longrightarrow> keeps I (case x of (a, b) \<Rightarrow> f a b)"
  by (cases x) auto

lemma keeps_Let [keep_intros]: "(\<And>a. keeps I (f a)) \<Longrightarrow> keeps I (let a = x in f a)"
  by simp

lemma returns_return [returns_intros]: "P a \<Longrightarrow> returns P (State_Monad.return a)"
  by (simp add: returns_def)

lemma returns_bind [returns_intros]: "(\<And>a. returns P (f a)) \<Longrightarrow> returns P (State_Monad.bind m f)"
  by (auto simp: returns_def split: prod.splits)

lemma returns_if [returns_intros]: "(b \<Longrightarrow> returns P m) \<Longrightarrow> (\<not> b \<Longrightarrow> returns P n) \<Longrightarrow> returns P (if b then m else n)"
  by simp

lemma returns_option [returns_intros]:
  "(x = None \<Longrightarrow> returns P m) \<Longrightarrow> (\<And>a. x = Some a \<Longrightarrow> returns P (f a)) \<Longrightarrow> returns P (case x of None \<Rightarrow> m | Some a \<Rightarrow> f a)"
  by (cases x) auto

lemma returns_prod [returns_intros]: "(\<And>a b. x = (a, b) \<Longrightarrow> returns P (f a b)) \<Longrightarrow> returns P (case x of (a, b) \<Rightarrow> f a b)"
  by (cases x) auto

lemma returns_Let [returns_intros]: "(\<And>a. a = x \<Longrightarrow> returns P (f a)) \<Longrightarrow> returns P (let a = x in f a)"
  by simp

lemma shiftD:
  "shift c k m \<Longrightarrow> run_state m w = (a, w') \<Longrightarrow> w_conns w' = w_conns w + c \<and> int (w_kdf w') = int (w_kdf w) + k"
  by (auto simp: shift_def dest: spec [of _ w])

lemma shift_return [shift_intros]: "shift 0 0 (State_Monad.return a)"
  by (simp add: shift_def)

lemma shift_done: "c = 0 \<Longrightarrow> k = 0 \<Longrightarrow> shift c k (State_Monad.return a)"
  by (simp add: shift_def)

lemma shift_bind [shift_intros]: "shift 0 0 m \<Longrightarrow> (\<And>a. shift c k (f a)) \<Longrightarrow> shift c k (State_Monad.bind m f)"
  by (auto simp: shift_def split: prod.splits) (metis snd_conv)+

lemma shift_if [shift_intros]: "(b \<Longrightarrow> shift c k m) \<Longrightarrow> (\<not> b \<Longrightarrow> shift c k n) \<Longrightarrow> shift c k (if b then m else n)"
  by simp

lemma shift_option [shift_intros]:
  "shift c k m \<Longrightarrow> (\<And>a. shift c k (f a)) \<Longrightarrow> shift c k (case x of None \<Rightarrow> m | Some a \<Rightarrow> f a)"
  by (cases x) auto

lemma shift_prod [shift_intros]: "(\<And>a b. shift c k (f a b)) \<Longrightarrow> shift c k (case x of (a, b) \<Rightarrow> f a b)"
  by (cases x) auto

lemma shift_Let [shift_intros]: "(\<And>a. shift c k (f a)) \<Longrightarrow> shift c k (let a = x in f a)"
  by simp

lemma shift_neutral [shift_intros]:
  "shift 0 0 (sql_query S q)" "shift 0 0 (sql_exec S f)" "shift 0 0 (sql_begin S)" "shift 0 0 (sql_commit S)"
  "shift 0 0 sql_rollback" "shift 0 0 (sql_savepoint S)" "shift 0 0 (sql_rollback_to d)" "shift 0 0 (sql_release S)"
  "shift 0 0 (ps_rand_bytes S n)" "shift 0 0 (time_now S)" "shift 0 0 (rl_allow S key pm)"
  by (auto simp: shift_def io_defs tick_def split: option.splits prod.splits)

lemma shift_acquire_bind [shift_intros]:
  "shift (c + 1) k (f ()) \<Longrightarrow> shift c k (State_Monad.bind ps_db_pool_acquire f)"
  by (auto simp: shift_def io_defs)

lemma shift_release_bind [shift_intros]:
  "shift (c - 1) k (f ()) \<Longrightarrow> shift c k (State_Monad.bind ps_db_pool_release f)"
  by (auto simp: shift_def io_defs)

lemma shift_kdf_release_bind [shift_intros]:
  "shift c (k - 1) (f ()) \<Longrightarrow> shift c k (State_Monad.bind kdf_release f)"
  by (auto simp: shift_def io_defs ps_kdf_semaphore_release_def)

lemma shift_kdf_acquire_bind [shift_intros]:
  assumes "shift c (k + 1) (f True)" and "shift c k (f False)"
  shows "shift c k (State_Monad.bind kdf_try_acquire f)"
  using assms
  by (auto simp: shift_def io_defs ps_kdf_semaphore_try_acquire_def of_nat_diff split: prod.splits)

text \<open>The rules to try first: they apply to the operations that take or give back something.\<close>

lemmas shift_resources = shift_acquire_bind shift_release_bind shift_kdf_release_bind shift_kdf_acquire_bind

text \<open>
  Invariants of the database: what every statement keeps also holds of the snapshot a transaction
  would return to, and is kept by the transaction commands.
\<close>

definition db_inv :: "(db \<Rightarrow> bool) \<Rightarrow> world \<Rightarrow> bool" where
  "db_inv J w \<longleftrightarrow> J (w_db w) \<and> (\<forall>d. w_saved w = Some d \<longrightarrow> J d)"

lemma keeps_db_inv [keep_intros]:
  "keeps (db_inv J) (sql_query S q)" "keeps (db_inv J) (sql_begin S)" "keeps (db_inv J) (sql_commit S)"
  "keeps (db_inv J) sql_rollback" "keeps (db_inv J) (sql_savepoint S)" "keeps (db_inv J) (sql_release S)"
  "keeps (db_inv J) (ps_rand_bytes S n)" "keeps (db_inv J) (time_now S)" "keeps (db_inv J) (rl_allow S k pm)"
  "keeps (db_inv J) ps_db_pool_acquire" "keeps (db_inv J) ps_db_pool_release" "keeps (db_inv J) kdf_try_acquire"
  "keeps (db_inv J) kdf_release"
  by (auto simp: keeps_def db_inv_def io_defs tick_def split: option.splits prod.splits)

lemma keeps_sql_exec:
  "(\<And>d a d'. J d \<Longrightarrow> f d = Some (a, d') \<Longrightarrow> J d') \<Longrightarrow> keeps (db_inv J) (sql_exec S f)"
  by (auto simp: keeps_def db_inv_def io_defs tick_def split: option.splits prod.splits)

text \<open>A savepoint hands out a database that satisfies the invariant, so rolling back to it is safe.\<close>

lemma keeps_savepoint_bind [keep_intros]:
  assumes "keeps (db_inv J) (f None)" and "\<And>d. J d \<Longrightarrow> keeps (db_inv J) (f (Some d))"
  shows "keeps (db_inv J) (State_Monad.bind (sql_savepoint S) f)"
  unfolding keeps_def
proof (intro allI impI)
  fix w
  assume "db_inv J w"
  then have "db_inv J (tick w)" and "J (w_db w)" by (simp_all add: db_inv_def tick_def)
  with assms show "db_inv J (snd (run_state (State_Monad.bind (sql_savepoint S) f) w))"
    by (simp add: sql_savepoint_def keeps_def)
qed

lemma keeps_rollback_to [keep_intros]: "J d \<Longrightarrow> keeps (db_inv J) (sql_rollback_to d)"
  by (auto simp: keeps_def db_inv_def sql_rollback_to_def tick_def)


subsection \<open>Open transactions\<close>

text \<open>
  A fourth judgement follows whether the connection has a transaction open: started with a
  transaction open or not, a program ends with a result and with a transaction open or not as \<open>Q\<close>
  allows. Most programs are neutral, that is they leave the snapshot as it is.
\<close>

named_theorems neutral_intros \<open>programs that neither open nor close a transaction\<close>
named_theorems tx_intros \<open>rules for the transactions of state-monad programs\<close>

definition in_tx :: "world \<Rightarrow> bool" where
  "in_tx w \<longleftrightarrow> w_saved w \<noteq> None"

definition neutral :: "'a io \<Rightarrow> bool" where
  "neutral m \<longleftrightarrow> (\<forall>w. w_saved (snd (run_state m w)) = w_saved w)"

definition tx :: "bool \<Rightarrow> ('a \<Rightarrow> bool \<Rightarrow> bool) \<Rightarrow> 'a io \<Rightarrow> bool" where
  "tx b Q m \<longleftrightarrow> (\<forall>w. in_tx w = b \<longrightarrow> Q (fst (run_state m w)) (in_tx (snd (run_state m w))))"

lemma neutral_return [neutral_intros]: "neutral (State_Monad.return a)"
  by (simp add: neutral_def)

lemma neutral_bind [neutral_intros]: "neutral m \<Longrightarrow> (\<And>a. neutral (f a)) \<Longrightarrow> neutral (State_Monad.bind m f)"
  by (auto simp: neutral_def split: prod.splits) (metis snd_conv)

lemma neutral_if [neutral_intros]: "(b \<Longrightarrow> neutral m) \<Longrightarrow> (\<not> b \<Longrightarrow> neutral n) \<Longrightarrow> neutral (if b then m else n)"
  by simp

lemma neutral_option [neutral_intros]: "neutral m \<Longrightarrow> (\<And>a. neutral (f a)) \<Longrightarrow> neutral (case x of None \<Rightarrow> m | Some a \<Rightarrow> f a)"
  by (cases x) auto

lemma neutral_sum [neutral_intros]:
  "(\<And>a. neutral (f a)) \<Longrightarrow> (\<And>b. neutral (g b)) \<Longrightarrow> neutral (case x of Inl a \<Rightarrow> f a | Inr b \<Rightarrow> g b)"
  by (cases x) auto

lemma neutral_prod [neutral_intros]: "(\<And>a b. neutral (f a b)) \<Longrightarrow> neutral (case x of (a, b) \<Rightarrow> f a b)"
  by (cases x) auto

lemma neutral_Let [neutral_intros]: "(\<And>a. neutral (f a)) \<Longrightarrow> neutral (let a = x in f a)"
  by simp

lemma neutral_ops [neutral_intros]:
  "neutral (sql_query S q)" "neutral (sql_exec S g)" "neutral (sql_savepoint S)" "neutral (sql_rollback_to d)"
  "neutral (sql_release S)" "neutral (ps_rand_bytes S n)" "neutral (time_now S)" "neutral (rl_allow S k pm)"
  "neutral ps_db_pool_acquire" "neutral ps_db_pool_release" "neutral kdf_try_acquire" "neutral kdf_release"
  by (auto simp: neutral_def io_defs tick_def split: option.splits prod.splits)

lemma tx_return [tx_intros]: "Q a b \<Longrightarrow> tx b Q (State_Monad.return a)"
  by (simp add: tx_def)

lemma tx_neutral_bind [tx_intros]: "neutral m \<Longrightarrow> (\<And>a. tx b Q (f a)) \<Longrightarrow> tx b Q (State_Monad.bind m f)"
  by (auto simp: neutral_def tx_def in_tx_def split: prod.splits) (metis fst_conv snd_conv)+

lemma tx_begin_bind [tx_intros]:
  assumes "tx b Q (f False)" and "\<not> b \<Longrightarrow> tx True Q (f True)"
  shows "tx b Q (State_Monad.bind (sql_begin S) f)"
  using assms by (auto simp: tx_def in_tx_def sql_begin_def tick_def split: prod.splits if_splits)

lemma tx_commit_bind [tx_intros]:
  assumes "tx b Q (f False)" and "b \<Longrightarrow> tx False Q (f True)"
  shows "tx b Q (State_Monad.bind (sql_commit S) f)"
  using assms by (auto simp: tx_def in_tx_def sql_commit_def tick_def split: prod.splits if_splits)

lemma tx_rollback_bind [tx_intros]: "tx False Q (f ()) \<Longrightarrow> tx b Q (State_Monad.bind sql_rollback f)"
  by (auto simp: tx_def in_tx_def sql_rollback_def tick_def split: prod.splits option.splits)

lemmas tx_commands = tx_begin_bind tx_commit_bind tx_rollback_bind

lemma tx_if [tx_intros]: "(c \<Longrightarrow> tx b Q m) \<Longrightarrow> (\<not> c \<Longrightarrow> tx b Q n) \<Longrightarrow> tx b Q (if c then m else n)"
  by simp

lemma tx_option [tx_intros]:
  "(x = None \<Longrightarrow> tx b Q m) \<Longrightarrow> (\<And>a. x = Some a \<Longrightarrow> tx b Q (f a)) \<Longrightarrow> tx b Q (case x of None \<Rightarrow> m | Some a \<Rightarrow> f a)"
  by (cases x) auto

lemma tx_prod [tx_intros]: "(\<And>a c. tx b Q (f a c)) \<Longrightarrow> tx b Q (case x of (a, c) \<Rightarrow> f a c)"
  by (cases x) auto

lemma tx_Let [tx_intros]: "(\<And>a. tx b Q (f a)) \<Longrightarrow> tx b Q (let a = x in f a)"
  by simp


subsection \<open>An environment for the examples\<close>

definition quiet_sys :: sys where
  "quiet_sys = \<lparr>sys_fault = (\<lambda>_. False), sys_rand = (\<lambda>i n. Some (replicate n (char_of i))), sys_time = (\<lambda>_. 1000),
     sys_mono = (\<lambda>_. (1000, 0)), sys_sha256 = (\<lambda>b. Some (''h'' @ b)), sys_stack = (\<lambda>n. replicate n NUL),
     sys_kdf = (\<lambda>pw salt it. Some (take 32 (pw @ salt @ replicate 32 NUL))), sys_hmac = toy_hmac\<rparr>"

definition fresh_world :: world where
  "fresh_world = \<lparr>w_db = schema_001_init, w_saved = None, w_rl = ps_ratelimiter_create 16, w_kdf = 2, w_conns = 4, w_tick = 0\<rparr>"

end
