(* ===== verification/User_Store.thy ===== *)
theory User_Store
  imports Db
begin

text \<open>
  The users table and its role assignments (\<^verbatim>\<open>src/src/store/user_store.c\<close>, \<^verbatim>\<open>user_store.h\<close>). The C
  struct has the status as an enumeration and 0 for an absent lock; the table has the status text and
  NULL. Error texts, which are only logged, are left out.
\<close>

definition PS_USERNAME_MAX :: nat where "PS_USERNAME_MAX = 33"
definition PS_EMAIL_MAX :: nat where "PS_EMAIL_MAX = 255"
definition PS_USER_LIST_MAX :: nat where "PS_USER_LIST_MAX = 1000"

datatype ps_user_status_t =
    PS_USER_STATUS_PENDING_VERIFICATION
  | PS_USER_STATUS_ACTIVE
  | PS_USER_STATUS_DISABLED

record ps_user_row_t =
  us_user_id :: int64
  us_username :: bytes
  us_email :: bytes
  us_email_normalized :: bytes
  us_password_hash :: bytes
  us_password_salt :: bytes
  us_kdf_iters :: int
  us_status :: ps_user_status_t
  us_failed_logins :: int
  us_locked_until :: int64
  us_created_at :: int64
  us_updated_at :: int64

datatype ps_user_insert_result_t =
    PS_USER_INSERT_OK
  | PS_USER_INSERT_DUPLICATE_USERNAME
  | PS_USER_INSERT_DUPLICATE_EMAIL
  | PS_USER_INSERT_ERROR

fun ps_user_status_to_string :: "ps_user_status_t \<Rightarrow> bytes" where
  "ps_user_status_to_string PS_USER_STATUS_PENDING_VERIFICATION = ''PENDING_VERIFICATION''"
| "ps_user_status_to_string PS_USER_STATUS_ACTIVE = ''ACTIVE''"
| "ps_user_status_to_string PS_USER_STATUS_DISABLED = ''DISABLED''"

definition ps_user_status_from_string :: "bytes \<Rightarrow> ps_user_status_t option" where
  "ps_user_status_from_string s =
     (if cstr s = ''PENDING_VERIFICATION'' then Some PS_USER_STATUS_PENDING_VERIFICATION
      else if cstr s = ''ACTIVE'' then Some PS_USER_STATUS_ACTIVE
      else if cstr s = ''DISABLED'' then Some PS_USER_STATUS_DISABLED
      else None)"

definition null_or_zero :: "int64 option \<Rightarrow> int64" where
  "null_or_zero v = (case v of None \<Rightarrow> 0 | Some t \<Rightarrow> t)"

definition zero_as_null :: "int64 \<Rightarrow> int64 option" where
  "zero_as_null t = (if t = 0 then None else Some t)"


subsection \<open>Insertion\<close>

definition row_exists :: "sys \<Rightarrow> (user_rec \<Rightarrow> bool) \<Rightarrow> bool io" where
  "row_exists S p = do {
     r \<leftarrow> sql_query S (\<lambda>d. if list_ex p (db_users d) then Some () else None);
     ret (r \<noteq> None) }"

definition username_is :: "bytes \<Rightarrow> user_rec \<Rightarrow> bool" where
  "username_is name u \<longleftrightarrow> nocase (ur_username u) = nocase (cstr name)"

definition email_is :: "bytes \<Rightarrow> user_rec \<Rightarrow> bool" where
  "email_is e u \<longleftrightarrow> ur_email_normalized u = cstr e"

definition new_user :: "ps_user_row_t \<Rightarrow> int64 \<Rightarrow> int64 \<Rightarrow> user_rec" where
  "new_user row uid now = \<lparr>ur_user_id = uid, ur_username = cstr (us_username row), ur_email = cstr (us_email row),
     ur_email_normalized = cstr (us_email_normalized row), ur_password_hash = us_password_hash row,
     ur_password_salt = us_password_salt row, ur_kdf_iters = us_kdf_iters row,
     ur_status = ps_user_status_to_string (us_status row), ur_failed_logins = us_failed_logins row,
     ur_locked_until = zero_as_null (us_locked_until row), ur_created_at = now, ur_updated_at = now\<rparr>"

text \<open>The statement fails when it would violate one of the two uniqueness constraints.\<close>

definition insert_user :: "ps_user_row_t \<Rightarrow> int64 \<Rightarrow> db \<Rightarrow> (int64 \<times> db) option" where
  "insert_user row now d =
     (if list_ex (username_is (us_username row)) (db_users d) \<or> list_ex (email_is (us_email_normalized row)) (db_users d)
      then None
      else let uid = next_rowid (map ur_user_id (db_users d))
           in Some (uid, d\<lparr>db_users := db_users d @ [new_user row uid now]\<rparr>))"

text \<open>\<^verbatim>\<open>INSERT INTO user_roles ... SELECT\<close>; the result is the number of rows it adds.\<close>

definition insert_role :: "int64 \<Rightarrow> bytes \<Rightarrow> db \<Rightarrow> (nat \<times> db) option" where
  "insert_role uid name d =
     (let rows = map (\<lambda>(rid, _). (uid, rid)) (filter (\<lambda>(_, n). n = cstr name) (db_roles d))
      in if list_ex (\<lambda>r. r \<in> set (db_user_roles d)) rows then None
         else Some (length rows, d\<lparr>db_user_roles := db_user_roles d @ rows\<rparr>))"

fun insert_roles :: "sys \<Rightarrow> int64 \<Rightarrow> bytes list \<Rightarrow> bool io" where
  "insert_roles S uid [] = ret True"
| "insert_roles S uid (name # names) = do {
     changes \<leftarrow> sql_exec S (insert_role uid name);
     case changes of
       None \<Rightarrow> ret False
     | Some n \<Rightarrow> if n = 0 then ret False else insert_roles S uid names }"

definition ps_user_store_insert :: "sys \<Rightarrow> ps_user_row_t \<Rightarrow> bytes list \<Rightarrow> int64 \<Rightarrow> (ps_user_insert_result_t \<times> int64) io" where
  "ps_user_store_insert S row role_names now = do {
     sp \<leftarrow> sql_savepoint S;
     case sp of
       None \<Rightarrow> ret (PS_USER_INSERT_ERROR, 0)
     | Some snap \<Rightarrow> do {
         dup_name \<leftarrow> row_exists S (username_is (us_username row));
         if dup_name then do { sql_rollback_to snap; ret (PS_USER_INSERT_DUPLICATE_USERNAME, 0) }
         else do {
           dup_email \<leftarrow> row_exists S (email_is (us_email_normalized row));
           if dup_email then do { sql_rollback_to snap; ret (PS_USER_INSERT_DUPLICATE_EMAIL, 0) }
           else do {
             ins \<leftarrow> sql_exec S (insert_user row now);
             case ins of
               None \<Rightarrow> do { sql_rollback_to snap; ret (PS_USER_INSERT_ERROR, 0) }
             | Some uid \<Rightarrow> do {
                 ok \<leftarrow> insert_roles S uid role_names;
                 if \<not> ok then do { sql_rollback_to snap; ret (PS_USER_INSERT_ERROR, 0) }
                 else do {
                   rel \<leftarrow> sql_release S;
                   if \<not> rel then ret (PS_USER_INSERT_ERROR, 0) else ret (PS_USER_INSERT_OK, uid) } } } } } }"


subsection \<open>Lookups\<close>

text \<open>
  A status text that is none of the three would leave the enumeration of the C struct as it was; the
  rows are only written through \<open>ps_user_status_to_string\<close>, and the model reads such a text as pending.
\<close>

definition populate_row :: "user_rec \<Rightarrow> ps_user_row_t" where
  "populate_row u = \<lparr>us_user_id = ur_user_id u, us_username = c_snprintf_s PS_USERNAME_MAX (ur_username u),
     us_email = c_snprintf_s PS_EMAIL_MAX (ur_email u),
     us_email_normalized = c_snprintf_s PS_EMAIL_MAX (ur_email_normalized u),
     us_password_hash = take 32 (ur_password_hash u), us_password_salt = take 16 (ur_password_salt u),
     us_kdf_iters = ur_kdf_iters u,
     us_status = (case ps_user_status_from_string (ur_status u) of None \<Rightarrow> PS_USER_STATUS_PENDING_VERIFICATION | Some st \<Rightarrow> st),
     us_failed_logins = ur_failed_logins u, us_locked_until = null_or_zero (ur_locked_until u),
     us_created_at = ur_created_at u, us_updated_at = ur_updated_at u\<rparr>"

definition get_user :: "sys \<Rightarrow> (user_rec \<Rightarrow> bool) \<Rightarrow> ps_user_row_t option io" where
  "get_user S p = sql_query S (\<lambda>d. map_option populate_row (List.find p (db_users d)))"

definition ps_user_store_get_by_id :: "sys \<Rightarrow> int64 \<Rightarrow> ps_user_row_t option io" where
  "ps_user_store_get_by_id S uid = get_user S (\<lambda>u. ur_user_id u = uid)"

definition ps_user_store_get_by_username :: "sys \<Rightarrow> bytes \<Rightarrow> ps_user_row_t option io" where
  "ps_user_store_get_by_username S name = get_user S (username_is name)"

definition ps_user_store_get_by_email_normalized :: "sys \<Rightarrow> bytes \<Rightarrow> ps_user_row_t option io" where
  "ps_user_store_get_by_email_normalized S e = get_user S (email_is e)"

text \<open>The names written (at most \<open>cap\<close> of them) and the count, which is not capped.\<close>

definition role_names_of :: "db \<Rightarrow> int64 \<Rightarrow> bytes list" where
  "role_names_of d uid =
     concat (map (\<lambda>(_, rid). map snd (filter (\<lambda>(r, _). r = rid) (db_roles d)))
       (filter (\<lambda>(u, _). u = uid) (db_user_roles d)))"

definition ps_user_store_get_roles :: "sys \<Rightarrow> int64 \<Rightarrow> nat \<Rightarrow> (bytes list \<times> nat) option io" where
  "ps_user_store_get_roles S uid cap =
     sql_query S (\<lambda>d. let names = role_names_of d uid
                      in Some (map (c_snprintf_s 32) (take cap names), length names))"

definition ps_user_store_count :: "sys \<Rightarrow> nat option io" where
  "ps_user_store_count S = sql_query S (\<lambda>d. Some (length (db_users d)))"

text \<open>\<^verbatim>\<open>LIMIT\<close> with a negative value means no limit; no more than \<^verbatim>\<open>PS_USER_LIST_MAX\<close> rows are written.\<close>

definition users_after :: "db \<Rightarrow> int64 \<Rightarrow> int \<Rightarrow> (int64 \<times> bytes) list" where
  "users_after d after limit =
     (let rows = map (\<lambda>u. (ur_user_id u, ur_username u)) (sort_key ur_user_id (filter (\<lambda>u. after < ur_user_id u) (db_users d)))
      in if limit < 0 then rows else take (nat limit) rows)"

definition ps_user_store_list_after :: "sys \<Rightarrow> int64 \<Rightarrow> int \<Rightarrow> ((int64 \<times> bytes) list \<times> nat) option io" where
  "ps_user_store_list_after S after limit =
     sql_query S (\<lambda>d. let rows = users_after d after limit
                      in Some (map (\<lambda>(i, n). (i, c_snprintf_s PS_USERNAME_MAX n)) (take PS_USER_LIST_MAX rows), length rows))"


subsection \<open>Updates\<close>

definition update_user :: "int64 \<Rightarrow> (user_rec \<Rightarrow> user_rec) \<Rightarrow> db \<Rightarrow> db" where
  "update_user uid f d = d\<lparr>db_users := map (\<lambda>u. if ur_user_id u = uid then f u else u) (db_users d)\<rparr>"

definition exec_ok :: "sys \<Rightarrow> (db \<Rightarrow> db) \<Rightarrow> bool io" where
  "exec_ok S f = do { r \<leftarrow> sql_exec S (\<lambda>d. Some ((), f d)); ret (r \<noteq> None) }"

definition ps_user_store_update_status :: "sys \<Rightarrow> int64 \<Rightarrow> ps_user_status_t \<Rightarrow> int64 \<Rightarrow> bool io" where
  "ps_user_store_update_status S uid st now =
     exec_ok S (update_user uid (\<lambda>u. u\<lparr>ur_status := ps_user_status_to_string st, ur_updated_at := now\<rparr>))"

definition ps_user_store_set_login_failure_state :: "sys \<Rightarrow> int64 \<Rightarrow> int \<Rightarrow> int64 \<Rightarrow> int64 \<Rightarrow> bool io" where
  "ps_user_store_set_login_failure_state S uid failed locked_until now =
     exec_ok S (update_user uid (\<lambda>u. u\<lparr>ur_failed_logins := failed, ur_locked_until := zero_as_null locked_until,
       ur_updated_at := now\<rparr>))"

definition ps_user_store_set_password :: "sys \<Rightarrow> int64 \<Rightarrow> bytes \<Rightarrow> bytes \<Rightarrow> int \<Rightarrow> int64 \<Rightarrow> bool io" where
  "ps_user_store_set_password S uid hash salt iters now =
     exec_ok S (update_user uid (\<lambda>u. u\<lparr>ur_password_hash := hash, ur_password_salt := salt, ur_kdf_iters := iters,
       ur_updated_at := now\<rparr>))"


subsection \<open>The invariant of the users tables\<close>

definition user_ids :: "db \<Rightarrow> int64 set" where
  "user_ids d = ur_user_id ` set (db_users d)"

definition users_ok :: "db \<Rightarrow> bool" where
  "users_ok d \<longleftrightarrow> distinct (map ur_user_id (db_users d)) \<and> distinct (map (\<lambda>u. nocase (ur_username u)) (db_users d)) \<and>
     distinct (map ur_email_normalized (db_users d)) \<and>
     (\<forall>u \<in> set (db_users d). \<exists>st. ur_status u = ps_user_status_to_string st) \<and>
     db_roles d = db_roles schema_001_init \<and> distinct (db_user_roles d) \<and>
     (\<forall>(uid, rid) \<in> set (db_user_roles d). uid \<in> user_ids d \<and> (rid = 1 \<or> rid = 2))"

lemma users_ok_init: "users_ok schema_001_init"
  by (simp add: users_ok_def schema_001_init_def)

lemma map_if_id:
  assumes "\<And>x. h (g x) = h x"
  shows "map h (map (\<lambda>x. if p x then g x else x) xs) = map h xs"
  using assms by (induction xs) auto

lemma next_rowid_fresh: "next_rowid ids \<notin> set ids"
proof
  assume n: "next_rowid ids \<in> set ids"
  then have "next_rowid ids \<le> Max (set ids)" by (intro Max_ge) auto
  with n show False by (cases "ids = []") (auto simp: next_rowid_def)
qed

lemma insert_user_Some:
  assumes "insert_user row now d = Some (uid, d')"
  shows "uid \<notin> user_ids d" and "\<not> list_ex (username_is (us_username row)) (db_users d)"
    and "\<not> list_ex (email_is (us_email_normalized row)) (db_users d)"
    and "d' = d\<lparr>db_users := db_users d @ [new_user row uid now]\<rparr>"
  using assms next_rowid_fresh [of "map ur_user_id (db_users d)"]
  by (auto simp: insert_user_def Let_def user_ids_def split: if_splits)

lemma insert_user_ok: "users_ok d \<Longrightarrow> insert_user row now d = Some (uid, d') \<Longrightarrow> users_ok d' \<and> uid \<in> user_ids d'"
  by (frule insert_user_Some(1), frule insert_user_Some(2), frule insert_user_Some(3), drule insert_user_Some(4))
    (auto simp: users_ok_def new_user_def user_ids_def list_ex_iff username_is_def email_is_def)

lemma insert_role_ok: "users_ok d \<Longrightarrow> uid \<in> user_ids d \<Longrightarrow> insert_role uid name d = Some (n, d') \<Longrightarrow> users_ok d'"
  by (auto simp: users_ok_def insert_role_def Let_def user_ids_def schema_001_init_def list_ex_iff split: if_splits)

lemma update_user_ok:
  assumes "users_ok d"
    and "\<And>u. ur_user_id (f u) = ur_user_id u \<and> ur_username (f u) = ur_username u \<and>
      ur_email_normalized (f u) = ur_email_normalized u"
    and "\<And>u. \<exists>st. ur_status u = ps_user_status_to_string st \<Longrightarrow> \<exists>st. ur_status (f u) = ps_user_status_to_string st"
  shows "users_ok (update_user uid f d)"
proof -
  define us where "us = map (\<lambda>u. if ur_user_id u = uid then f u else u) (db_users d)"
  have m: "map ur_user_id us = map ur_user_id (db_users d)" "map (\<lambda>u. nocase (ur_username u)) us = map (\<lambda>u. nocase (ur_username u)) (db_users d)"
    "map ur_email_normalized us = map ur_email_normalized (db_users d)"
    unfolding us_def using assms(2) by (auto intro!: map_if_id simp del: map_map)
  then have "ur_user_id ` set us = ur_user_id ` set (db_users d)" by (metis set_map)
  moreover have "\<forall>u \<in> set us. \<exists>st. ur_status u = ps_user_status_to_string st"
    using assms(1,3) by (auto simp: us_def users_ok_def)
  moreover have "update_user uid f d = d\<lparr>db_users := us\<rparr>" by (simp add: update_user_def us_def)
  ultimately show ?thesis using assms(1) m by (simp add: users_ok_def user_ids_def)
qed

lemma exec_ok_keeps: "(\<And>d. J d \<Longrightarrow> J (f d)) \<Longrightarrow> keeps (db_inv J) (exec_ok S f)"
  unfolding exec_ok_def by (intro keep_intros keeps_sql_exec) auto

lemmas user_updates = ps_user_store_update_status_def ps_user_store_set_login_failure_state_def ps_user_store_set_password_def

lemmas user_reads = ps_user_store_get_by_id_def ps_user_store_get_by_username_def ps_user_store_get_by_email_normalized_def
  ps_user_store_get_roles_def ps_user_store_count_def ps_user_store_list_after_def get_user_def row_exists_def

lemma keeps_user_reads [keep_intros]:
  "keeps (db_inv J) (row_exists S p)"
  "keeps (db_inv J) (ps_user_store_get_by_id S uid)" "keeps (db_inv J) (ps_user_store_get_by_username S n)"
  "keeps (db_inv J) (ps_user_store_get_by_email_normalized S e)" "keeps (db_inv J) (ps_user_store_get_roles S uid cap)"
  "keeps (db_inv J) (ps_user_store_count S)" "keeps (db_inv J) (ps_user_store_list_after S after limit)"
  unfolding user_reads by (intro keep_intros)+

lemma shift_users [shift_intros]:
  "shift 0 0 (row_exists S p)" "shift 0 0 (exec_ok S f)"
  "shift 0 0 (ps_user_store_get_by_id S uid)" "shift 0 0 (ps_user_store_get_by_username S n)"
  "shift 0 0 (ps_user_store_get_by_email_normalized S e)" "shift 0 0 (ps_user_store_get_roles S uid cap)"
  "shift 0 0 (ps_user_store_count S)" "shift 0 0 (ps_user_store_list_after S after limit)"
  "shift 0 0 (ps_user_store_update_status S uid st now)" "shift 0 0 (ps_user_store_set_login_failure_state S uid k l now)"
  "shift 0 0 (ps_user_store_set_password S uid hash salt it now)"
  unfolding user_reads user_updates exec_ok_def by (intro shift_intros)+

lemma shift_insert_roles [shift_intros]: "shift 0 0 (insert_roles S uid names)"
  by (induction names) (auto intro!: shift_intros)

lemma shift_user_insert [shift_intros]: "shift 0 0 (ps_user_store_insert S row names now)"
  unfolding ps_user_store_insert_def by (intro shift_intros)


subsection \<open>What an insertion does\<close>

fun insert_roles_db :: "int64 \<Rightarrow> bytes list \<Rightarrow> db \<Rightarrow> db option" where
  "insert_roles_db uid [] d = Some d"
| "insert_roles_db uid (name # names) d =
     (case insert_role uid name d of None \<Rightarrow> None | Some (n, d') \<Rightarrow> if n = 0 then None else insert_roles_db uid names d')"

lemma insert_roles_run:
  assumes "run_state (insert_roles S uid names) w = (ok, w')"
  shows "w_saved w' = w_saved w \<and> (ok \<longrightarrow> insert_roles_db uid names (w_db w) = Some (w_db w'))"
  using assms
proof (induction names arbitrary: w)
  case (Cons name names)
  show ?case
  proof (cases "run_state (sql_exec S (insert_role uid name)) w")
    case (Pair r w1)
    then have w1: "w_saved w1 = w_saved w" "\<And>n. r = Some n \<Longrightarrow> insert_role uid name (w_db w) = Some (n, w_db w1)"
      by (auto simp: sql_exec_def tick_def split: if_splits option.splits)
    show ?thesis
    proof (cases "\<exists>n. r = Some n \<and> n \<noteq> 0")
      case True
      then obtain n where n: "r = Some n" "n \<noteq> 0" by blast
      then have "run_state (insert_roles S uid names) w1 = (ok, w')" using Cons.prems Pair by simp
      from Cons.IH [OF this] w1 n show ?thesis by simp
    next
      case False
      then have "ok = False \<and> w' = w1" using Cons.prems Pair by (cases r) auto
      with w1 show ?thesis by simp
    qed
  qed
qed simp

lemma insert_run:
  assumes "run_state (ps_user_store_insert S row names now) w = ((r, uid), w')"
  shows "w_saved w' = w_saved w \<and> (r \<noteq> PS_USER_INSERT_OK \<and> w_db w' = w_db w \<or>
    (r = PS_USER_INSERT_OK \<or> r = PS_USER_INSERT_ERROR) \<and>
    (\<exists>uid' d1. insert_user row now (w_db w) = Some (uid', d1) \<and> insert_roles_db uid' names d1 = Some (w_db w') \<and>
       (r = PS_USER_INSERT_OK \<longrightarrow> uid = uid')))"
  using assms
  by (auto simp: ps_user_store_insert_def row_exists_def sql_savepoint_def sql_query_def sql_exec_def sql_rollback_to_def
      sql_release_def tick_def split: if_splits option.splits prod.splits dest!: insert_roles_run)

lemma insert_roles_db_ok:
  "users_ok d \<Longrightarrow> uid \<in> user_ids d \<Longrightarrow> insert_roles_db uid names d = Some d' \<Longrightarrow> users_ok d' \<and> db_users d' = db_users d"
proof (induction names arbitrary: d)
  case (Cons name names)
  from Cons.prems(3) obtain n d1 where r: "insert_role uid name d = Some (n, d1)" "insert_roles_db uid names d1 = Some d'"
    by (auto split: option.splits if_splits prod.splits)
  moreover have "db_users d1 = db_users d" using r(1) by (auto simp: insert_role_def Let_def split: if_splits)
  ultimately show ?case using Cons.IH [of d1] insert_role_ok [OF Cons.prems(1,2) r(1)] Cons.prems(2) by (simp add: user_ids_def)
qed simp

lemma insert_role_names:
  assumes "users_ok d" and "insert_role uid name d = Some (n, d')" and "n \<noteq> 0"
  shows "role_names_of d' uid = role_names_of d uid @ [cstr name]"
proof -
  have r: "db_roles d = [(1, ''USER''), (2, ''ADMIN'')]" using assms(1) by (simp add: users_ok_def schema_001_init_def)
  let ?rows = "map (\<lambda>(rid, _). (uid, rid)) (filter (\<lambda>(_, n). n = cstr name) (db_roles d))"
  from assms(2) have d': "d' = d\<lparr>db_user_roles := db_user_roles d @ ?rows\<rparr>" and n: "n = length ?rows"
    by (auto simp: insert_role_def Let_def split: if_splits)
  have "cstr name = ''USER'' \<or> cstr name = ''ADMIN''" using assms(3) unfolding n r by (auto split: if_splits)
  then obtain rid where rows: "?rows = [(uid, rid)]" and nm: "map snd (filter (\<lambda>(r, _). r = rid) (db_roles d)) = [cstr name]"
    unfolding r by fastforce
  have "role_names_of d' uid = role_names_of d uid @ map snd (filter (\<lambda>(r, _). r = rid) (db_roles d))"
    unfolding d' rows by (simp add: role_names_of_def)
  then show ?thesis by (simp only: nm)
qed

lemma insert_roles_names:
  "users_ok d \<Longrightarrow> uid \<in> user_ids d \<Longrightarrow> insert_roles_db uid names d = Some d' \<Longrightarrow>
     role_names_of d' uid = role_names_of d uid @ map cstr names"
proof (induction names arbitrary: d)
  case (Cons name names)
  from Cons.prems(3) obtain n d1 where r: "insert_role uid name d = Some (n, d1)" "n \<noteq> 0" "insert_roles_db uid names d1 = Some d'"
    by (auto split: option.splits if_splits prod.splits)
  moreover have "db_users d1 = db_users d" using r(1) by (auto simp: insert_role_def Let_def split: if_splits)
  ultimately show ?case
    using Cons.IH [of d1] insert_role_ok [OF Cons.prems(1,2) r(1)] insert_role_names [OF Cons.prems(1) r(1,2)] Cons.prems(2)
    by (simp add: user_ids_def)
qed simp

lemma no_roles_of_new: "users_ok d \<Longrightarrow> uid \<notin> user_ids d \<Longrightarrow> role_names_of d uid = []"
  by (auto simp: users_ok_def role_names_of_def)

lemma inserted_ok:
  assumes "users_ok d" and "insert_user row now d = Some (uid, d1)" and "insert_roles_db uid names d1 = Some d'"
  shows "users_ok d'" and "db_users d' = db_users d @ [new_user row uid now]" and "role_names_of d' uid = map cstr names"
proof -
  note I = insert_user_Some [OF assms(2)] and ok = insert_user_ok [OF assms(1,2)]
  from insert_roles_db_ok [OF _ _ assms(3)] ok I(4) show "users_ok d'" "db_users d' = db_users d @ [new_user row uid now]" by auto
  have "role_names_of d1 uid = role_names_of d uid" by (simp add: I(4) role_names_of_def)
  then show "role_names_of d' uid = map cstr names"
    using insert_roles_names [OF _ _ assms(3)] ok no_roles_of_new [OF assms(1) I(1)] by simp
qed

lemma user_insert_keeps: "keeps (db_inv users_ok) (ps_user_store_insert S row names now)"
  unfolding keeps_def
proof (intro allI impI)
  fix w assume "db_inv users_ok w"
  then show "db_inv users_ok (snd (run_state (ps_user_store_insert S row names now) w))"
    using insert_run [of S row names now w] inserted_ok(1)
    by (cases "run_state (ps_user_store_insert S row names now) w") (fastforce simp: db_inv_def)
qed


subsection \<open>Properties\<close>

text \<open>Creating an account is all or nothing, whichever statement fails: either the database is as
  before, or the new row and exactly the requested roles are there; success is reported only in the
  second case and a duplicate only in the first. User ids, usernames (without regard to case) and
  email addresses stay unique.\<close>

theorem user_insert_atomic:
  assumes "users_ok (w_db w)" and "run_state (ps_user_store_insert S row names now) w = ((r, uid), w')"
  shows "users_ok (w_db w') \<and>
    (r \<noteq> PS_USER_INSERT_OK \<and> w_db w' = w_db w \<or>
     (r = PS_USER_INSERT_OK \<or> r = PS_USER_INSERT_ERROR) \<and>
     (\<exists>uid'. (r = PS_USER_INSERT_OK \<longrightarrow> uid = uid') \<and> uid' \<notin> user_ids (w_db w) \<and>
        db_users (w_db w') = db_users (w_db w) @ [new_user row uid' now] \<and> role_names_of (w_db w') uid' = map cstr names))"
  using insert_run [OF assms(2)] inserted_ok [OF assms(1)] insert_user_Some(1) assms(1) by metis

definition example_row :: ps_user_row_t where
  "example_row = \<lparr>us_user_id = 0, us_username = ''bob'', us_email = ''b@b.c'', us_email_normalized = ''b@b.c'',
     us_password_hash = [], us_password_salt = [], us_kdf_iters = 1, us_status = PS_USER_STATUS_ACTIVE,
     us_failed_logins = 0, us_locked_until = 0, us_created_at = 0, us_updated_at = 0\<rparr>"

lemma example_insert:
  "\<exists>w'. run_state (ps_user_store_insert quiet_sys example_row [''USER'', ''ADMIN''] 5) fresh_world = ((PS_USER_INSERT_OK, 1), w')"
  by (simp add: ps_user_store_insert_def row_exists_def sql_savepoint_def sql_query_def sql_exec_def sql_release_def quiet_sys_def
      fresh_world_def schema_001_init_def tick_def insert_user_def insert_role_def next_rowid_def)

theorem user_insert_atomic_witness:
  "\<exists>w'. run_state (ps_user_store_insert quiet_sys example_row [''USER'', ''ADMIN''] 5) fresh_world = ((PS_USER_INSERT_OK, 1), w') \<and>
     users_ok (w_db w') \<and> db_users (w_db w') = [new_user example_row 1 5] \<and> role_names_of (w_db w') 1 = [''USER'', ''ADMIN'']"
proof -
  obtain w' where run: "run_state (ps_user_store_insert quiet_sys example_row [''USER'', ''ADMIN''] 5) fresh_world = ((PS_USER_INSERT_OK, 1), w')"
    using example_insert by auto
  have ok: "users_ok (w_db fresh_world)" "db_users (w_db fresh_world) = []"
    using users_ok_init by (simp_all add: fresh_world_def schema_001_init_def)
  from user_insert_atomic [OF ok(1) run] ok(2) run show ?thesis by auto
qed

end
