(* ===== verification/Session_Store.thy ===== *)
theory Session_Store
  imports User_Store
begin

text \<open>
  Session families and refresh tokens (\<^verbatim>\<open>src/src/store/session_store.c\<close>, \<^verbatim>\<open>session_store.h\<close>). An insert
  fails when its key is taken or its foreign key names no row; an update reports how many rows it
  changed.
\<close>

record ps_session_family_row_t =
  fr_family_id :: bytes
  fr_user_id :: int64
  fr_created_at :: int64
  fr_absolute_exp :: int64
  fr_revoked_at :: int64
  fr_revoke_cause :: bytes

record ps_refresh_token_row_t =
  tr_token_hash :: bytes
  tr_family_id :: bytes
  tr_generation :: int
  tr_idle_exp :: int64
  tr_consumed_at :: int64
  tr_issued_at :: int64


subsection \<open>The statements\<close>

definition new_family :: "bytes \<Rightarrow> int64 \<Rightarrow> int64 \<Rightarrow> int64 \<Rightarrow> family_rec" where
  "new_family fid uid now absolute_exp = \<lparr>sf_family_id = fid, sf_user_id = uid, sf_created_at = now,
     sf_absolute_exp = absolute_exp, sf_revoked_at = None, sf_revoke_cause = None\<rparr>"

definition insert_family :: "bytes \<Rightarrow> int64 \<Rightarrow> int64 \<Rightarrow> int64 \<Rightarrow> db \<Rightarrow> (unit \<times> db) option" where
  "insert_family fid uid now absolute_exp d =
     (if list_ex (\<lambda>f. sf_family_id f = fid) (db_families d) \<or> \<not> list_ex (\<lambda>u. ur_user_id u = uid) (db_users d) then None
      else Some ((), d\<lparr>db_families := db_families d @ [new_family fid uid now absolute_exp]\<rparr>))"

definition revoke_family :: "bytes \<Rightarrow> int64 \<Rightarrow> family_rec \<Rightarrow> family_rec" where
  "revoke_family cause now f = f\<lparr>sf_revoked_at := Some now, sf_revoke_cause := Some (cstr cause)\<rparr>"

definition update_families :: "(family_rec \<Rightarrow> bool) \<Rightarrow> (family_rec \<Rightarrow> family_rec) \<Rightarrow> db \<Rightarrow> (nat \<times> db) option" where
  "update_families p g d =
     Some (length (filter p (db_families d)), d\<lparr>db_families := map (\<lambda>f. if p f then g f else f) (db_families d)\<rparr>)"

definition new_rt :: "bytes \<Rightarrow> bytes \<Rightarrow> int \<Rightarrow> int64 \<Rightarrow> int64 \<Rightarrow> rt_rec" where
  "new_rt h fid gen idle_exp now = \<lparr>rt_token_hash = h, rt_family_id = fid, rt_generation = gen,
     rt_idle_exp = idle_exp, rt_consumed_at = None, rt_issued_at = now\<rparr>"

definition insert_rt :: "bytes \<Rightarrow> bytes \<Rightarrow> int \<Rightarrow> int64 \<Rightarrow> int64 \<Rightarrow> db \<Rightarrow> (unit \<times> db) option" where
  "insert_rt h fid gen idle_exp now d =
     (if list_ex (\<lambda>t. rt_token_hash t = h) (db_rts d) \<or> \<not> list_ex (\<lambda>f. sf_family_id f = fid) (db_families d) then None
      else Some ((), d\<lparr>db_rts := db_rts d @ [new_rt h fid gen idle_exp now]\<rparr>))"

definition consume_rt :: "bytes \<Rightarrow> int64 \<Rightarrow> db \<Rightarrow> (nat \<times> db) option" where
  "consume_rt h now d =
     (let p = (\<lambda>t. rt_token_hash t = h \<and> rt_consumed_at t = None)
      in Some (length (filter p (db_rts d)),
               d\<lparr>db_rts := map (\<lambda>t. if p t then t\<lparr>rt_consumed_at := Some now\<rparr> else t) (db_rts d)\<rparr>))"


subsection \<open>The operations\<close>

definition ps_session_store_create_family :: "sys \<Rightarrow> bytes \<Rightarrow> int64 \<Rightarrow> int64 \<Rightarrow> int64 \<Rightarrow> bool io" where
  "ps_session_store_create_family S fid uid now absolute_exp = do {
     r \<leftarrow> sql_exec S (insert_family fid uid now absolute_exp);
     ret (r \<noteq> None) }"

definition populate_family :: "family_rec \<Rightarrow> ps_session_family_row_t" where
  "populate_family f = \<lparr>fr_family_id = sf_family_id f, fr_user_id = sf_user_id f, fr_created_at = sf_created_at f,
     fr_absolute_exp = sf_absolute_exp f, fr_revoked_at = null_or_zero (sf_revoked_at f),
     fr_revoke_cause = (case sf_revoke_cause f of None \<Rightarrow> [] | Some c \<Rightarrow> c_snprintf_s 32 c)\<rparr>"

definition ps_session_store_get_family :: "sys \<Rightarrow> bytes \<Rightarrow> ps_session_family_row_t option io" where
  "ps_session_store_get_family S fid =
     sql_query S (\<lambda>d. map_option populate_family (List.find (\<lambda>f. sf_family_id f = fid) (db_families d)))"

definition ps_session_store_revoke_family :: "sys \<Rightarrow> bytes \<Rightarrow> bytes \<Rightarrow> int64 \<Rightarrow> bool io" where
  "ps_session_store_revoke_family S fid cause now = do {
     r \<leftarrow> sql_exec S (update_families (\<lambda>f. sf_family_id f = fid \<and> sf_revoked_at f = None) (revoke_family cause now));
     ret (r \<noteq> None) }"

definition ps_session_store_insert_token :: "sys \<Rightarrow> bytes \<Rightarrow> bytes \<Rightarrow> int \<Rightarrow> int64 \<Rightarrow> int64 \<Rightarrow> bool io" where
  "ps_session_store_insert_token S h fid gen idle_exp now = do {
     r \<leftarrow> sql_exec S (insert_rt h fid gen idle_exp now);
     ret (r \<noteq> None) }"

definition populate_token :: "rt_rec \<Rightarrow> ps_refresh_token_row_t" where
  "populate_token t = \<lparr>tr_token_hash = rt_token_hash t, tr_family_id = rt_family_id t, tr_generation = rt_generation t,
     tr_idle_exp = rt_idle_exp t, tr_consumed_at = null_or_zero (rt_consumed_at t), tr_issued_at = rt_issued_at t\<rparr>"

definition ps_session_store_get_token :: "sys \<Rightarrow> bytes \<Rightarrow> ps_refresh_token_row_t option io" where
  "ps_session_store_get_token S h =
     sql_query S (\<lambda>d. map_option populate_token (List.find (\<lambda>t. rt_token_hash t = h) (db_rts d)))"

text \<open>\<open>None\<close> is a failed statement; otherwise whether this call claimed the token.\<close>

definition ps_session_store_try_consume_token :: "sys \<Rightarrow> bytes \<Rightarrow> int64 \<Rightarrow> bool option io" where
  "ps_session_store_try_consume_token S h now = do {
     r \<leftarrow> sql_exec S (consume_rt h now);
     ret (map_option (\<lambda>changes. 0 < changes) r) }"

definition ps_session_store_revoke_all_for_user :: "sys \<Rightarrow> int64 \<Rightarrow> bytes option \<Rightarrow> bytes \<Rightarrow> int64 \<Rightarrow> nat option io" where
  "ps_session_store_revoke_all_for_user S uid except cause now =
     sql_exec S (update_families
       (\<lambda>f. sf_user_id f = uid \<and> sf_revoked_at f = None \<and> (case except of None \<Rightarrow> True | Some e \<Rightarrow> sf_family_id f \<noteq> e))
       (revoke_family cause now))"


subsection \<open>The invariant of the session tables\<close>

text \<open>
  Keys are unique, every token belongs to a family, and a family has at most one token that is not
  consumed: the newest, of the highest generation.
\<close>

definition live :: "rt_rec \<Rightarrow> bool" where
  "live t \<longleftrightarrow> rt_consumed_at t = None"

definition one_live :: "rt_rec list \<Rightarrow> bool" where
  "one_live ts \<longleftrightarrow> (\<forall>t \<in> set ts. \<forall>t' \<in> set ts. live t \<and> rt_family_id t' = rt_family_id t \<longrightarrow>
     t' = t \<or> (\<not> live t' \<and> rt_generation t' < rt_generation t))"

definition sessions_ok :: "db \<Rightarrow> bool" where
  "sessions_ok d \<longleftrightarrow> distinct (map sf_family_id (db_families d)) \<and> distinct (map rt_token_hash (db_rts d)) \<and>
     rt_family_id ` set (db_rts d) \<subseteq> sf_family_id ` set (db_families d) \<and> one_live (db_rts d)"

lemma sessions_ok_init: "sessions_ok schema_001_init"
  by (simp add: sessions_ok_def schema_001_init_def one_live_def)

lemma insert_family_Some:
  assumes "insert_family fid uid now e d = Some (a, d')"
  shows "fid \<notin> sf_family_id ` set (db_families d)" and "uid \<in> ur_user_id ` set (db_users d)"
    and "d' = d\<lparr>db_families := db_families d @ [new_family fid uid now e]\<rparr>"
  using assms by (auto simp: insert_family_def list_ex_iff split: if_splits)

lemma insert_rt_Some:
  assumes "insert_rt h fid gen idle now d = Some (a, d')"
  shows "h \<notin> rt_token_hash ` set (db_rts d)" and "fid \<in> sf_family_id ` set (db_families d)"
    and "d' = d\<lparr>db_rts := db_rts d @ [new_rt h fid gen idle now]\<rparr>"
  using assms by (auto simp: insert_rt_def list_ex_iff split: if_splits)

lemma insert_family_ok:
  assumes "sessions_ok d" and "insert_family fid uid now e d = Some (a, d')"
  shows "sessions_ok d'"
  using insert_family_Some [OF assms(2)] assms(1) by (auto simp: sessions_ok_def new_family_def)

lemma update_families_ok:
  assumes "sessions_ok d" and "update_families p g d = Some (a, d')" and "\<And>f. sf_family_id (g f) = sf_family_id f"
  shows "sessions_ok d'"
proof -
  from assms(2) have d': "d' = d\<lparr>db_families := map (\<lambda>f. if p f then g f else f) (db_families d)\<rparr>"
    by (simp add: update_families_def)
  have m: "map sf_family_id (db_families d') = map sf_family_id (db_families d)"
    unfolding d' using map_if_id [of sf_family_id g p "db_families d"] assms(3) by simp
  then have "sf_family_id ` set (db_families d') = sf_family_id ` set (db_families d)" by (metis set_map)
  with m assms(1) show ?thesis by (simp add: sessions_ok_def d' del: map_map)
qed

text \<open>The tokens after a claim: the claimed one is consumed, all others are as they were.\<close>

definition claim :: "bytes \<Rightarrow> int64 \<Rightarrow> rt_rec \<Rightarrow> rt_rec" where
  "claim h now t = (if rt_token_hash t = h \<and> rt_consumed_at t = None then t\<lparr>rt_consumed_at := Some now\<rparr> else t)"

lemma claim_simps [simp]:
  "rt_token_hash (claim h now t) = rt_token_hash t" "rt_family_id (claim h now t) = rt_family_id t"
  "rt_generation (claim h now t) = rt_generation t" "rt_idle_exp (claim h now t) = rt_idle_exp t"
  "live (claim h now t) \<longleftrightarrow> live t \<and> rt_token_hash t \<noteq> h" "live t \<Longrightarrow> rt_token_hash t \<noteq> h \<Longrightarrow> claim h now t = t"
  by (auto simp: claim_def live_def)

lemma consume_rt_eq:
  "consume_rt h now d = Some (length (filter (\<lambda>t. rt_token_hash t = h \<and> live t) (db_rts d)),
     d\<lparr>db_rts := map (claim h now) (db_rts d)\<rparr>)"
proof -
  have "claim h now = (\<lambda>t. if rt_token_hash t = h \<and> rt_consumed_at t = None then t\<lparr>rt_consumed_at := Some now\<rparr> else t)"
    by (auto simp: claim_def)
  then show ?thesis by (simp add: consume_rt_def live_def Let_def)
qed

lemma one_live_claim:
  assumes "one_live ts"
  shows "one_live (map (claim h now) ts)"
  unfolding one_live_def
proof (intro ballI impI)
  fix t t' assume "t \<in> set (map (claim h now) ts)" "t' \<in> set (map (claim h now) ts)"
    and l: "live t \<and> rt_family_id t' = rt_family_id t"
  then obtain s s' where s: "s \<in> set ts" "t = claim h now s" "s' \<in> set ts" "t' = claim h now s'" by auto
  from l s have "live s" "rt_token_hash s \<noteq> h" "rt_family_id s' = rt_family_id s" by auto
  with assms s have "s' = s \<or> (\<not> live s' \<and> rt_generation s' < rt_generation s)" by (auto simp: one_live_def)
  with s show "t' = t \<or> (\<not> live t' \<and> rt_generation t' < rt_generation t)" by auto
qed

lemma consume_rt_ok:
  assumes "sessions_ok d" and "consume_rt h now d = Some (a, d')"
  shows "sessions_ok d'"
proof -
  from assms(2) have d': "d' = d\<lparr>db_rts := map (claim h now) (db_rts d)\<rparr>" by (simp add: consume_rt_eq)
  have "map rt_token_hash (db_rts d') = map rt_token_hash (db_rts d)" and
    "rt_family_id ` set (db_rts d') = rt_family_id ` set (db_rts d)" by (auto simp: d' image_image)
  then show ?thesis using assms(1) one_live_claim by (simp add: sessions_ok_def d' del: map_map)
qed

lemma one_live_insert:
  assumes "one_live ts" and "\<forall>t \<in> set ts. rt_family_id t = rt_family_id n \<longrightarrow> \<not> live t \<and> rt_generation t < rt_generation n"
  shows "one_live (ts @ [n])"
  unfolding one_live_def
proof (intro ballI impI)
  fix t t' assume t: "t \<in> set (ts @ [n])" "t' \<in> set (ts @ [n])" and l: "live t \<and> rt_family_id t' = rt_family_id t"
  show "t' = t \<or> (\<not> live t' \<and> rt_generation t' < rt_generation t)"
  proof (cases "t \<in> set ts")
    case True
    with assms(2) l have "rt_family_id t \<noteq> rt_family_id n" by auto
    with t l have "t' \<in> set ts" by auto
    with True l assms(1) show ?thesis by (auto simp: one_live_def)
  next
    case False
    with t l assms(2) show ?thesis by auto
  qed
qed

lemma insert_rt_ok:
  assumes "sessions_ok d" and "insert_rt h fid gen idle now d = Some (a, d')"
    and "\<forall>t \<in> set (db_rts d). rt_family_id t = fid \<longrightarrow> \<not> live t \<and> rt_generation t < gen"
  shows "sessions_ok d'"
proof -
  note i = insert_rt_Some [OF assms(2)]
  from assms(1,3) have "one_live (db_rts d @ [new_rt h fid gen idle now])"
    by (intro one_live_insert) (auto simp: sessions_ok_def new_rt_def)
  then show ?thesis using assms(1) i(1,2) by (simp add: sessions_ok_def i(3)) (simp add: new_rt_def)
qed

end
