(* ===== verification/Token_Store.thy ===== *)
theory Token_Store
  imports User_Store
begin

text \<open>
  Email verification tokens (\<^verbatim>\<open>src/src/store/token_store.c\<close>, \<^verbatim>\<open>token_store.h\<close>), of which only the hash is stored.
\<close>

record ps_verification_token_row_t =
  vr_token_hash :: bytes
  vr_user_id :: int64
  vr_expires_at :: int64
  vr_consumed_at :: int64
  vr_created_at :: int64

definition new_evt :: "bytes \<Rightarrow> int64 \<Rightarrow> int64 \<Rightarrow> int64 \<Rightarrow> evt_rec" where
  "new_evt h uid expires_at now = \<lparr>ev_token_hash = h, ev_user_id = uid, ev_expires_at = expires_at,
     ev_consumed_at = None, ev_created_at = now\<rparr>"

definition insert_evt :: "bytes \<Rightarrow> int64 \<Rightarrow> int64 \<Rightarrow> int64 \<Rightarrow> db \<Rightarrow> (unit \<times> db) option" where
  "insert_evt h uid expires_at now d =
     (if list_ex (\<lambda>t. ev_token_hash t = h) (db_evts d) \<or> \<not> list_ex (\<lambda>u. ur_user_id u = uid) (db_users d) then None
      else Some ((), d\<lparr>db_evts := db_evts d @ [new_evt h uid expires_at now]\<rparr>))"

definition update_evts :: "(evt_rec \<Rightarrow> bool) \<Rightarrow> int64 \<Rightarrow> db \<Rightarrow> db" where
  "update_evts p now d = d\<lparr>db_evts := map (\<lambda>t. if p t then t\<lparr>ev_consumed_at := Some now\<rparr> else t) (db_evts d)\<rparr>"

definition ps_token_store_insert :: "sys \<Rightarrow> bytes \<Rightarrow> int64 \<Rightarrow> int64 \<Rightarrow> int64 \<Rightarrow> bool io" where
  "ps_token_store_insert S h uid expires_at now = do {
     r \<leftarrow> sql_exec S (insert_evt h uid expires_at now);
     ret (r \<noteq> None) }"

definition populate_evt :: "evt_rec \<Rightarrow> ps_verification_token_row_t" where
  "populate_evt t = \<lparr>vr_token_hash = ev_token_hash t, vr_user_id = ev_user_id t, vr_expires_at = ev_expires_at t,
     vr_consumed_at = null_or_zero (ev_consumed_at t), vr_created_at = ev_created_at t\<rparr>"

definition ps_token_store_get_by_hash :: "sys \<Rightarrow> bytes \<Rightarrow> ps_verification_token_row_t option io" where
  "ps_token_store_get_by_hash S h =
     sql_query S (\<lambda>d. map_option populate_evt (List.find (\<lambda>t. ev_token_hash t = h) (db_evts d)))"

text \<open>Unlike the refresh tokens, a consumed verification token can be consumed again.\<close>

definition ps_token_store_consume :: "sys \<Rightarrow> bytes \<Rightarrow> int64 \<Rightarrow> bool io" where
  "ps_token_store_consume S h now = exec_ok S (update_evts (\<lambda>t. ev_token_hash t = h) now)"

definition ps_token_store_invalidate_all_for_user :: "sys \<Rightarrow> int64 \<Rightarrow> int64 \<Rightarrow> bool io" where
  "ps_token_store_invalidate_all_for_user S uid now =
     exec_ok S (update_evts (\<lambda>t. ev_user_id t = uid \<and> ev_consumed_at t = None) now)"

definition ps_token_store_count_created_since :: "sys \<Rightarrow> int64 \<Rightarrow> int64 \<Rightarrow> nat option io" where
  "ps_token_store_count_created_since S uid since =
     sql_query S (\<lambda>d. Some (length (filter (\<lambda>t. ev_user_id t = uid \<and> since \<le> ev_created_at t) (db_evts d))))"

end
