(* ===== verification/Audit_Store.thy ===== *)
theory Audit_Store
  imports Db
begin

text \<open>
  The audit log (\<^verbatim>\<open>src/src/store/audit_store.c\<close>, \<^verbatim>\<open>audit_store.h\<close>) and the development mailer, which
  writes to a table (\<^verbatim>\<open>src/src/mail/mailer_outbox.c\<close>). An optional field of the C entry (a flag and a
  buffer) is an \<open>option\<close>; the fixed-size buffers of the entry cut what is printed into them.
\<close>

record ps_audit_entry_t =
  ae_occurred_at :: int64
  ae_event :: bytes
  ae_outcome :: bytes
  ae_actor_user_id :: "int64 option"
  ae_target_user_id :: "int64 option"
  ae_source_ip :: "bytes option"
  ae_request_id :: "bytes option"
  ae_detail :: "bytes option"

definition PS_AUDIT_EVENT_MAX :: nat where "PS_AUDIT_EVENT_MAX = 32"
definition PS_AUDIT_OUTCOME_MAX :: nat where "PS_AUDIT_OUTCOME_MAX = 8"
definition PS_AUDIT_IP_MAX :: nat where "PS_AUDIT_IP_MAX = 46"
definition PS_AUDIT_DETAIL_MAX :: nat where "PS_AUDIT_DETAIL_MAX = 512"

text \<open>An entry as the handlers fill it in: all zero, then the time, the event and the outcome.\<close>

definition audit_entry :: "int64 \<Rightarrow> bytes \<Rightarrow> bytes \<Rightarrow> ps_audit_entry_t" where
  "audit_entry now event outcome = \<lparr>ae_occurred_at = now, ae_event = c_snprintf_s PS_AUDIT_EVENT_MAX event,
     ae_outcome = c_snprintf_s PS_AUDIT_OUTCOME_MAX outcome, ae_actor_user_id = None, ae_target_user_id = None,
     ae_source_ip = None, ae_request_id = None, ae_detail = None\<rparr>"

definition set_audit_source_ip :: "bytes option \<Rightarrow> ps_audit_entry_t \<Rightarrow> ps_audit_entry_t" where
  "set_audit_source_ip peer_addr e =
     (case peer_addr of None \<Rightarrow> e | Some p \<Rightarrow> e\<lparr>ae_source_ip := Some (c_snprintf_s PS_AUDIT_IP_MAX p)\<rparr>)"

definition set_audit_target :: "int64 option \<Rightarrow> ps_audit_entry_t \<Rightarrow> ps_audit_entry_t" where
  "set_audit_target uid e = e\<lparr>ae_target_user_id := uid\<rparr>"

definition set_audit_detail :: "bytes \<Rightarrow> ps_audit_entry_t \<Rightarrow> ps_audit_entry_t" where
  "set_audit_detail detail e = e\<lparr>ae_detail := Some (c_snprintf_s PS_AUDIT_DETAIL_MAX detail)\<rparr>"

definition insert_audit :: "ps_audit_entry_t \<Rightarrow> db \<Rightarrow> (unit \<times> db) option" where
  "insert_audit e d = Some ((), d\<lparr>db_audit := db_audit d @ [\<lparr>au_id = next_rowid (map au_id (db_audit d)),
     au_occurred_at = ae_occurred_at e, au_event = ae_event e, au_outcome = ae_outcome e,
     au_actor_user_id = ae_actor_user_id e, au_target_user_id = ae_target_user_id e,
     au_source_ip = ae_source_ip e, au_request_id = ae_request_id e, au_detail = ae_detail e\<rparr>]\<rparr>)"

definition ps_audit_store_write :: "sys \<Rightarrow> ps_audit_entry_t \<Rightarrow> bool io" where
  "ps_audit_store_write S e = do { r \<leftarrow> sql_exec S (insert_audit e); ret (r \<noteq> None) }"

definition populate_entry :: "audit_rec \<Rightarrow> int64 \<times> ps_audit_entry_t" where
  "populate_entry a = (au_id a, \<lparr>ae_occurred_at = au_occurred_at a, ae_event = c_snprintf_s PS_AUDIT_EVENT_MAX (au_event a),
     ae_outcome = c_snprintf_s PS_AUDIT_OUTCOME_MAX (au_outcome a), ae_actor_user_id = au_actor_user_id a,
     ae_target_user_id = au_target_user_id a, ae_source_ip = map_option (c_snprintf_s PS_AUDIT_IP_MAX) (au_source_ip a),
     ae_request_id = map_option (c_snprintf_s 64) (au_request_id a),
     ae_detail = map_option (c_snprintf_s PS_AUDIT_DETAIL_MAX) (au_detail a)\<rparr>)"

definition ps_audit_store_get_by_id :: "sys \<Rightarrow> int64 \<Rightarrow> (int64 \<times> ps_audit_entry_t) option io" where
  "ps_audit_store_get_by_id S i =
     sql_query S (\<lambda>d. map_option populate_entry (List.find (\<lambda>a. au_id a = i) (db_audit d)))"

definition ps_audit_store_count_by_event :: "sys \<Rightarrow> bytes \<Rightarrow> nat option io" where
  "ps_audit_store_count_by_event S event =
     sql_query S (\<lambda>d. Some (length (filter (\<lambda>a. au_event a = cstr event) (db_audit d))))"


subsection \<open>The mailer\<close>

record ps_mail_message_t =
  mm_to_email :: bytes
  mm_subject :: bytes
  mm_body :: bytes

definition insert_mail :: "ps_mail_message_t \<Rightarrow> int64 \<Rightarrow> db \<Rightarrow> (unit \<times> db) option" where
  "insert_mail m now d = Some ((), d\<lparr>db_outbox := db_outbox d @ [\<lparr>ml_id = next_rowid (map ml_id (db_outbox d)),
     ml_to_email = cstr (mm_to_email m), ml_subject = cstr (mm_subject m), ml_body = cstr (mm_body m),
     ml_created_at = now\<rparr>]\<rparr>)"

definition ps_mailer_send :: "sys \<Rightarrow> ps_mail_message_t \<Rightarrow> int64 \<Rightarrow> bool io" where
  "ps_mailer_send S m now = do { r \<leftarrow> sql_exec S (insert_mail m now); ret (r \<noteq> None) }"


subsection \<open>The log only grows\<close>

text \<open>An invariant that does not look at the log and the outbox is kept by writing to them.\<close>

definition log_blind :: "(db \<Rightarrow> bool) \<Rightarrow> bool" where
  "log_blind J \<longleftrightarrow> (\<forall>d a m. J d \<longrightarrow> J (d\<lparr>db_audit := a\<rparr>) \<and> J (d\<lparr>db_outbox := m\<rparr>))"

lemma keeps_log: "log_blind J \<Longrightarrow> keeps (db_inv J) (ps_audit_store_write S e)" "log_blind J \<Longrightarrow> keeps (db_inv J) (ps_mailer_send S m now)"
  unfolding ps_audit_store_write_def ps_mailer_send_def insert_audit_def insert_mail_def log_blind_def
  by (rule keep_intros keeps_sql_exec | auto)+

lemma shift_log [shift_intros]: "shift 0 0 (ps_audit_store_write S e)" "shift 0 0 (ps_mailer_send S m now)"
  unfolding ps_audit_store_write_def ps_mailer_send_def by (rule shift_intros)+

end
