(* ===== verification/Session.thy ===== *)
theory Session
  imports Session_Store
begin

text \<open>
  Sessions (\<^verbatim>\<open>src/src/auth/session.c\<close>, \<^verbatim>\<open>session.h\<close>): opening a family and rotating its refresh token.
  \<open>ps_session_refresh\<close> is written in its three phases (look up, claim, issue), because the statements of
  two requests may be interleaved between them.
\<close>

definition PS_FAMILY_ID_LEN :: nat where "PS_FAMILY_ID_LEN = 16"
definition PS_REFRESH_TOKEN_HASH_LEN :: nat where "PS_REFRESH_TOKEN_HASH_LEN = 32"

record ps_session_created_t =
  sc_family_id :: bytes
  sc_raw_refresh_token :: bytes
  sc_refresh_idle_exp :: int64

datatype ps_session_refresh_result_t =
    PS_SESSION_REFRESH_OK
  | PS_SESSION_REFRESH_INVALID
  | PS_SESSION_REFRESH_REUSE_DETECTED
  | PS_SESSION_REFRESH_ERROR

record ps_session_refreshed_t =
  rf_user_id :: int64
  rf_family_id :: bytes
  rf_raw_refresh_token :: bytes
  rf_refresh_idle_exp :: int64

definition refreshed_zero :: ps_session_refreshed_t where
  "refreshed_zero = \<lparr>rf_user_id = 0, rf_family_id = replicate PS_FAMILY_ID_LEN NUL,
     rf_raw_refresh_token = replicate PS_REFRESH_TOKEN_HASH_LEN NUL, rf_refresh_idle_exp = 0\<rparr>"

definition ps_session_create :: "sys \<Rightarrow> int64 \<Rightarrow> int \<Rightarrow> int \<Rightarrow> int64 \<Rightarrow> ps_session_created_t option io" where
  "ps_session_create S uid absolute_ttl_s idle_ttl_s now = do {
     fid \<leftarrow> ps_rand_bytes S PS_FAMILY_ID_LEN;
     case fid of
       None \<Rightarrow> ret None
     | Some family_id \<Rightarrow> do {
         ok \<leftarrow> ps_session_store_create_family S family_id uid now (now + absolute_ttl_s);
         if \<not> ok then ret None
         else do {
           raw \<leftarrow> ps_rand_bytes S PS_REFRESH_TOKEN_HASH_LEN;
           case raw of
             None \<Rightarrow> ret None
           | Some raw_token \<Rightarrow>
               (case sys_sha256 S raw_token of
                  None \<Rightarrow> ret None
                | Some token_hash \<Rightarrow> do {
                    ok2 \<leftarrow> ps_session_store_insert_token S token_hash family_id 1 (now + idle_ttl_s) now;
                    if \<not> ok2 then ret None
                    else ret (Some \<lparr>sc_family_id = family_id, sc_raw_refresh_token = raw_token,
                           sc_refresh_idle_exp = now + idle_ttl_s\<rparr>) }) } } }"

type_synonym refresh_answer = "ps_session_refresh_result_t \<times> ps_session_refreshed_t"

definition owner_known :: "ps_refresh_token_row_t \<Rightarrow> ps_session_family_row_t \<Rightarrow> ps_session_refreshed_t" where
  "owner_known tok fam = refreshed_zero\<lparr>rf_family_id := tr_family_id tok, rf_user_id := fr_user_id fam\<rparr>"

definition refresh_lookup :: "sys \<Rightarrow> bytes \<Rightarrow> (refresh_answer + ps_refresh_token_row_t \<times> ps_session_family_row_t) io" where
  "refresh_lookup S h = do {
     t \<leftarrow> ps_session_store_get_token S h;
     case t of
       None \<Rightarrow> ret (Inl (PS_SESSION_REFRESH_INVALID, refreshed_zero))
     | Some tok \<Rightarrow> do {
         f \<leftarrow> ps_session_store_get_family S (tr_family_id tok);
         case f of
           None \<Rightarrow> ret (Inl (PS_SESSION_REFRESH_ERROR, refreshed_zero))
         | Some fam \<Rightarrow> ret (Inr (tok, fam)) } }"

definition refresh_claim :: "sys \<Rightarrow> bytes \<Rightarrow> int64 \<Rightarrow> ps_refresh_token_row_t \<Rightarrow> ps_session_family_row_t \<Rightarrow>
    refresh_answer option io" where
  "refresh_claim S h now tok fam =
     (let out = owner_known tok fam in
      if tr_consumed_at tok \<noteq> 0 then do {
        _ \<leftarrow> ps_session_store_revoke_family S (tr_family_id tok) ''REUSE_DETECTED'' now;
        ret (Some (PS_SESSION_REFRESH_REUSE_DETECTED, out)) }
      else do {
        c \<leftarrow> ps_session_store_try_consume_token S h now;
        case c of
          None \<Rightarrow> ret (Some (PS_SESSION_REFRESH_ERROR, out))
        | Some claimed \<Rightarrow>
            if \<not> claimed then do {
              _ \<leftarrow> ps_session_store_revoke_family S (tr_family_id tok) ''REUSE_DETECTED'' now;
              ret (Some (PS_SESSION_REFRESH_REUSE_DETECTED, out)) }
            else ret None })"

definition refresh_issue :: "sys \<Rightarrow> int \<Rightarrow> int64 \<Rightarrow> ps_refresh_token_row_t \<Rightarrow> ps_session_family_row_t \<Rightarrow> refresh_answer io" where
  "refresh_issue S idle_ttl_s now tok fam =
     (let out = owner_known tok fam in
      if fr_revoked_at fam \<noteq> 0 \<or> fr_absolute_exp fam < now \<or> tr_idle_exp tok < now then
        ret (PS_SESSION_REFRESH_INVALID, out)
      else do {
        raw \<leftarrow> ps_rand_bytes S PS_REFRESH_TOKEN_HASH_LEN;
        case raw of
          None \<Rightarrow> ret (PS_SESSION_REFRESH_ERROR, out)
        | Some new_raw \<Rightarrow>
            (case sys_sha256 S new_raw of
               None \<Rightarrow> ret (PS_SESSION_REFRESH_ERROR, out)
             | Some new_hash \<Rightarrow> do {
                 ok \<leftarrow> ps_session_store_insert_token S new_hash (tr_family_id tok) (tr_generation tok + 1) (now + idle_ttl_s) now;
                 if \<not> ok then ret (PS_SESSION_REFRESH_ERROR, out)
                 else ret (PS_SESSION_REFRESH_OK,
                        out\<lparr>rf_raw_refresh_token := new_raw, rf_refresh_idle_exp := now + idle_ttl_s\<rparr>) }) })"

definition ps_session_refresh :: "sys \<Rightarrow> bytes \<Rightarrow> int \<Rightarrow> int64 \<Rightarrow> refresh_answer io" where
  "ps_session_refresh S h idle_ttl_s now = do {
     r \<leftarrow> refresh_lookup S h;
     case r of
       Inl a \<Rightarrow> ret a
     | Inr (tok, fam) \<Rightarrow> do {
         c \<leftarrow> refresh_claim S h now tok fam;
         case c of
           Some a \<Rightarrow> ret a
         | None \<Rightarrow> refresh_issue S idle_ttl_s now tok fam } }"


subsection \<open>What a refresh does\<close>

lemmas session_ops = ps_session_store_create_family_def ps_session_store_get_family_def ps_session_store_revoke_family_def
  ps_session_store_insert_token_def ps_session_store_get_token_def ps_session_store_try_consume_token_def
  ps_session_store_revoke_all_for_user_def

lemmas session_defs = ps_session_refresh_def refresh_lookup_def refresh_claim_def refresh_issue_def ps_session_create_def

lemma shift_session [shift_intros]:
  "shift 0 0 (ps_session_create S uid a i now)" "shift 0 0 (ps_session_refresh S h i now)"
  "shift 0 0 (ps_session_store_revoke_all_for_user S uid ex c now)" "shift 0 0 (ps_session_store_revoke_family S fid c now)"
  "shift 0 0 (ps_session_store_get_token S h)" "shift 0 0 (ps_session_store_get_family S fid)"
  unfolding session_defs session_ops Let_def
  by (intro shift_intros | simp add: shift_intros split: sum.split)+

text \<open>The outcome of a refresh that succeeds, read off the code.\<close>

lemma refresh_OK:
  assumes "run_state (ps_session_refresh S h ttl now) w = ((PS_SESSION_REFRESH_OK, out), w')"
  obtains t f nh where "List.find (\<lambda>t. rt_token_hash t = h) (db_rts (w_db w)) = Some t"
    and "List.find (\<lambda>f. sf_family_id f = rt_family_id t) (db_families (w_db w)) = Some f"
    and "null_or_zero (rt_consumed_at t) = 0"
    and "\<exists>t \<in> set (db_rts (w_db w)). rt_token_hash t = h \<and> live t"
    and "null_or_zero (sf_revoked_at f) = 0" and "now \<le> sf_absolute_exp f" and "now \<le> rt_idle_exp t"
    and "sys_sha256 S (rf_raw_refresh_token out) = Some nh"
    and "insert_rt nh (rt_family_id t) (rt_generation t + 1) (now + ttl) now
           (w_db w\<lparr>db_rts := map (claim h now) (db_rts (w_db w))\<rparr>) = Some ((), w_db w')"
    and "w_saved w' = w_saved w" and "rf_user_id out = sf_user_id f"
  using assms
  by (auto simp: session_defs session_ops sql_query_def sql_exec_def ps_rand_bytes_def tick_def consume_rt_eq
      owner_known_def populate_token_def populate_family_def Let_def filter_empty_conv
      split: if_splits option.splits prod.splits sum.splits)

lemma find_hash:
  assumes "distinct (map k xs)" and "x \<in> set xs" and "k x = h"
  shows "List.find (\<lambda>x. k x = h) xs = Some x"
  using assms by (induction xs) auto

lemma find_SomeD: "List.find p xs = Some x \<Longrightarrow> x \<in> set xs \<and> p x"
  by (auto simp: find_Some_iff)


subsection \<open>Invariants of the session tables\<close>

lemma lookup_run:
  assumes "run_state (refresh_lookup S h) w = (r, w')"
  shows "w_db w' = w_db w" and "w_saved w' = w_saved w"
    and "r = Inr (tok, fam) \<Longrightarrow> \<exists>t f. List.find (\<lambda>t. rt_token_hash t = h) (db_rts (w_db w)) = Some t \<and> tok = populate_token t \<and>
      List.find (\<lambda>f. sf_family_id f = rt_family_id t) (db_families (w_db w)) = Some f \<and> fam = populate_family f"
  using assms
  by (auto simp: refresh_lookup_def session_ops sql_query_def tick_def populate_token_def split: if_splits option.splits)

lemma claim_run:
  assumes "run_state (refresh_claim S h now tok fam) w = (r, w')"
  shows "w_saved w' = w_saved w" and
    "r = None \<Longrightarrow> (\<exists>t \<in> set (db_rts (w_db w)). rt_token_hash t = h \<and> live t) \<and>
       w_db w' = w_db w\<lparr>db_rts := map (claim h now) (db_rts (w_db w))\<rparr>" and
    "(\<exists>n. update_families (\<lambda>f. sf_family_id f = tr_family_id tok \<and> sf_revoked_at f = None) (revoke_family ''REUSE_DETECTED'' now)
         (w_db w) = Some (n, w_db w')) \<or>
     (\<exists>n d1. consume_rt h now (w_db w) = Some (n, d1) \<and> (w_db w' = d1 \<or>
       (\<exists>m. update_families (\<lambda>f. sf_family_id f = tr_family_id tok \<and> sf_revoked_at f = None) (revoke_family ''REUSE_DETECTED'' now)
         d1 = Some (m, w_db w')))) \<or> w_db w' = w_db w"
  using assms
  by (auto simp: refresh_claim_def session_ops sql_exec_def tick_def consume_rt_eq update_families_def Let_def
      filter_empty_conv split: if_splits option.splits prod.splits)

lemma issue_run:
  assumes "run_state (refresh_issue S ttl now tok fam) w = (r, w')"
  shows "w_saved w' = w_saved w" and
    "w_db w' = w_db w \<or> (\<exists>nh. insert_rt nh (tr_family_id tok) (tr_generation tok + 1) (now + ttl) now (w_db w) = Some ((), w_db w'))"
  using assms
  by (auto simp: refresh_issue_def session_ops sql_exec_def ps_rand_bytes_def tick_def Let_def
      split: if_splits option.splits prod.splits)

lemma revoke_sessions_ok:
  "update_families p (revoke_family c now) d = Some (n, d') \<Longrightarrow> sessions_ok d \<Longrightarrow> sessions_ok d'"
  by (erule update_families_ok [rotated]) (simp_all add: revoke_family_def)

lemma claim_sessions_ok:
  assumes "sessions_ok (w_db w)" and "run_state (refresh_claim S h now tok fam) w = (r, w')"
  shows "sessions_ok (w_db w')"
  using claim_run(3) [OF assms(2)] assms(1)
  by (elim disjE exE conjE) (auto dest: revoke_sessions_ok consume_rt_ok)

lemma refresh_keeps_ok: "keeps (db_inv sessions_ok) (ps_session_refresh S h ttl now)"
  unfolding keeps_def
proof (intro allI impI)
  fix w :: world
  assume inv: "db_inv sessions_ok w"
  obtain r1 w1 where l: "run_state (refresh_lookup S h) w = (r1, w1)" by fastforce
  note L = lookup_run [OF l]
  show "db_inv sessions_ok (snd (run_state (ps_session_refresh S h ttl now) w))"
  proof (cases r1)
    case (Inl a)
    then show ?thesis using l L inv by (simp add: ps_session_refresh_def db_inv_def)
  next
    case (Inr b)
    obtain tok fam where b: "b = (tok, fam)" by fastforce
    obtain r2 w2 where c: "run_state (refresh_claim S h now tok fam) w1 = (r2, w2)" by fastforce
    note C = claim_run [OF c] and ok2 = claim_sessions_ok [OF _ c]
    show ?thesis
    proof (cases r2)
      case (Some a)
      then show ?thesis using l c b Inr L C ok2 inv by (simp add: ps_session_refresh_def db_inv_def)
    next
      case None
      obtain r3 w3 where i: "run_state (refresh_issue S ttl now tok fam) w2 = (r3, w3)" by fastforce
      note I = issue_run [OF i]
      from L(3) Inr b obtain t where t: "List.find (\<lambda>t. rt_token_hash t = h) (db_rts (w_db w)) = Some t"
        and tok: "tok = populate_token t" by blast
      from C(2) [OF None] L have d2: "w_db w2 = w_db w\<lparr>db_rts := map (claim h now) (db_rts (w_db w))\<rparr>"
        and live: "\<exists>t \<in> set (db_rts (w_db w)). rt_token_hash t = h \<and> live t" by auto
      from inv have ok: "sessions_ok (w_db w)" by (simp add: db_inv_def)
      then have dist: "distinct (map rt_token_hash (db_rts (w_db w)))" and one: "one_live (db_rts (w_db w))"
        by (auto simp: sessions_ok_def)
      from live obtain s where "s \<in> set (db_rts (w_db w))" "rt_token_hash s = h" "live s" by blast
      with find_hash [OF dist, of s h] t find_SomeD [OF t] have
        lt: "live t" "rt_token_hash t = h" "t \<in> set (db_rts (w_db w))" by auto
      have low: "\<forall>u \<in> set (db_rts (w_db w2)). rt_family_id u = tr_family_id tok \<longrightarrow> \<not> live u \<and> rt_generation u < tr_generation tok + 1"
      proof (intro ballI impI)
        fix u assume "u \<in> set (db_rts (w_db w2))" and f: "rt_family_id u = tr_family_id tok"
        then obtain v where v: "v \<in> set (db_rts (w_db w))" "u = claim h now v" by (auto simp: d2)
        with one lt f tok have "v = t \<or> (\<not> live v \<and> rt_generation v < rt_generation t)"
          by (auto simp: one_live_def populate_token_def)
        with v lt tok show "\<not> live u \<and> rt_generation u < tr_generation tok + 1" by (auto simp: populate_token_def)
      qed
      have ok2': "sessions_ok (w_db w2)" using ok2 ok L by simp
      then have "sessions_ok (w_db w3)" using I(2) insert_rt_ok [OF ok2' _ low] by auto
      then show ?thesis using l c b Inr None i L C(1) I(1) inv by (simp add: ps_session_refresh_def db_inv_def)
    qed
  qed
qed

lemma create_run:
  assumes "run_state (ps_session_create S uid a i now) w = (r, w')"
  shows "w_saved w' = w_saved w" and
    "w_db w' = w_db w \<or> (\<exists>fid d1. insert_family fid uid now (now + a) (w_db w) = Some ((), d1) \<and>
       (w_db w' = d1 \<or> (\<exists>h. insert_rt h fid 1 (now + i) now d1 = Some ((), w_db w'))))" and
    "r \<noteq> None \<Longrightarrow> uid \<in> ur_user_id ` set (db_users (w_db w))"
  using assms
  by (auto simp: ps_session_create_def session_ops sql_exec_def ps_rand_bytes_def tick_def
      split: if_splits option.splits prod.splits dest: insert_family_Some(2)) blast+

lemma create_keeps_ok: "keeps (db_inv sessions_ok) (ps_session_create S uid a i now)"
  unfolding keeps_def
proof (intro allI impI)
  fix w :: world
  assume inv: "db_inv sessions_ok w"
  then have ok: "sessions_ok (w_db w)" by (simp add: db_inv_def)
  obtain r w' where r: "run_state (ps_session_create S uid a i now) w = (r, w')" by fastforce
  have "sessions_ok (w_db w')"
  proof -
    from create_run(2) [OF r] consider "w_db w' = w_db w"
      | fid where "insert_family fid uid now (now + a) (w_db w) = Some ((), w_db w')"
      | fid d1 h where "insert_family fid uid now (now + a) (w_db w) = Some ((), d1)"
          "insert_rt h fid 1 (now + i) now d1 = Some ((), w_db w')" by blast
    then show ?thesis
    proof cases
      case 3
      note F = insert_family_Some [OF 3(1)]
      have "\<forall>t \<in> set (db_rts d1). rt_family_id t \<noteq> fid" using ok F(1,3) by (auto simp: sessions_ok_def)
      then show ?thesis using insert_rt_ok [OF insert_family_ok [OF ok 3(1)] 3(2)] by blast
    qed (use ok insert_family_ok in auto)
  qed
  with inv create_run(1) [OF r] show "db_inv sessions_ok (snd (run_state (ps_session_create S uid a i now) w))"
    by (simp add: db_inv_def r)
qed


subsection \<open>Revocation is permanent\<close>

definition family_revoked :: "bytes \<Rightarrow> db \<Rightarrow> bool" where
  "family_revoked fid d \<longleftrightarrow> (\<exists>f \<in> set (db_families d). sf_family_id f = fid \<and> null_or_zero (sf_revoked_at f) \<noteq> 0)"

text \<open>What the statements of the stores leave alone of a revoked family.\<close>

lemma revoked_insert_family:
  "family_revoked fid d \<Longrightarrow> insert_family fid' uid now e d = Some (a, d') \<Longrightarrow> family_revoked fid d'"
  by (drule insert_family_Some(3)) (auto simp: family_revoked_def)

lemma revoked_insert_rt:
  "family_revoked fid d \<Longrightarrow> insert_rt h fid' gen idle now d = Some (a, d') \<Longrightarrow> family_revoked fid d'"
  by (drule insert_rt_Some(3)) (auto simp: family_revoked_def)

lemma revoked_consume:
  "family_revoked fid d \<Longrightarrow> consume_rt h now d = Some (a, d') \<Longrightarrow> family_revoked fid d'"
  by (auto simp: family_revoked_def consume_rt_def Let_def)

lemma revoked_revoke:
  assumes "family_revoked fid d" and "update_families p g d = Some (a, d')" and "\<And>f. p f \<Longrightarrow> sf_revoked_at f = None"
  shows "family_revoked fid d'"
proof -
  from assms(1) obtain f where f: "f \<in> set (db_families d)" "sf_family_id f = fid" "null_or_zero (sf_revoked_at f) \<noteq> 0"
    by (auto simp: family_revoked_def)
  then have "f \<in> (\<lambda>f. if p f then g f else f) ` set (db_families d)"
    using assms(3) by (intro image_eqI [of _ _ f]) (auto simp: null_or_zero_def)
  with f show ?thesis using assms(2) by (auto simp: family_revoked_def update_families_def)
qed

lemma keeps_revoked [keep_intros]:
  "keeps (db_inv (family_revoked fid)) (ps_session_store_create_family S fid' uid now e)"
  "keeps (db_inv (family_revoked fid)) (ps_session_store_insert_token S h fid' gen idle now)"
  "keeps (db_inv (family_revoked fid)) (ps_session_store_try_consume_token S h now)"
  "keeps (db_inv (family_revoked fid)) (ps_session_store_revoke_family S fid' c now)"
  "keeps (db_inv (family_revoked fid)) (ps_session_store_revoke_all_for_user S uid ex c now)"
  unfolding session_ops
  by (intro keep_intros keeps_sql_exec;
      (erule (1) revoked_insert_family revoked_insert_rt revoked_consume | (erule (1) revoked_revoke, simp)))+

lemma keeps_session_reads [keep_intros]:
  "keeps (db_inv J) (ps_session_store_get_token S h)" "keeps (db_inv J) (ps_session_store_get_family S fid)"
  unfolding session_ops by (intro keep_intros)+

lemma refresh_keeps_revoked [keep_intros]: "keeps (db_inv (family_revoked fid)) (ps_session_refresh S h ttl now)"
  unfolding session_defs Let_def by (intro keep_intros)

lemma create_keeps_revoked [keep_intros]: "keeps (db_inv (family_revoked fid)) (ps_session_create S uid a i now)"
  unfolding session_defs Let_def by (intro keep_intros)

lemma refresh_revoked_not_OK:
  assumes "sessions_ok (w_db w)" and "t \<in> set (db_rts (w_db w))" and "rt_token_hash t = h"
    and "family_revoked (rt_family_id t) (w_db w)"
  shows "fst (fst (run_state (ps_session_refresh S h ttl now) w)) \<noteq> PS_SESSION_REFRESH_OK"
proof
  assume "fst (fst (run_state (ps_session_refresh S h ttl now) w)) = PS_SESSION_REFRESH_OK"
  then obtain out w' where "run_state (ps_session_refresh S h ttl now) w = ((PS_SESSION_REFRESH_OK, out), w')"
    by (metis prod.collapse)
  then show False
  proof (rule refresh_OK)
    fix t' f
    assume ft: "List.find (\<lambda>t. rt_token_hash t = h) (db_rts (w_db w)) = Some t'"
      and ff: "List.find (\<lambda>f. sf_family_id f = rt_family_id t') (db_families (w_db w)) = Some f"
      and nr: "null_or_zero (sf_revoked_at f) = 0"
    from assms(1) have d: "distinct (map rt_token_hash (db_rts (w_db w)))" "distinct (map sf_family_id (db_families (w_db w)))"
      by (auto simp: sessions_ok_def)
    from find_hash [OF d(1) assms(2,3)] ft have "t' = t" by simp
    with assms(4) obtain g where "g \<in> set (db_families (w_db w))" "sf_family_id g = rt_family_id t'"
      "null_or_zero (sf_revoked_at g) \<noteq> 0" by (auto simp: family_revoked_def)
    with find_hash [OF d(2)] ff nr show False by fastforce
  qed
qed

text \<open>Any number of session operations, by anyone, in any environment.\<close>

inductive session_step :: "world \<Rightarrow> world \<Rightarrow> bool" where
  create: "session_step w (snd (run_state (ps_session_create S uid a i now) w))"
| refresh: "session_step w (snd (run_state (ps_session_refresh S h ttl now) w))"
| revoke: "session_step w (snd (run_state (ps_session_store_revoke_family S fid cause now) w))"
| revoke_all: "session_step w (snd (run_state (ps_session_store_revoke_all_for_user S uid ex cause now) w))"

lemma revoke_keeps_ok [keep_intros]:
  "keeps (db_inv sessions_ok) (ps_session_store_revoke_family S fid c now)"
  "keeps (db_inv sessions_ok) (ps_session_store_revoke_all_for_user S uid ex c now)"
  unfolding session_ops by (intro keep_intros keeps_sql_exec; erule (1) revoke_sessions_ok)+

lemma session_step_keeps:
  assumes "session_step w w'"
  shows "db_inv sessions_ok w \<Longrightarrow> db_inv sessions_ok w'" and "db_inv (family_revoked fid) w \<Longrightarrow> db_inv (family_revoked fid) w'"
  using assms create_keeps_ok refresh_keeps_ok revoke_keeps_ok create_keeps_revoked refresh_keeps_revoked keeps_revoked(4,5)
  by (cases; simp add: keeps_def; blast)+

lemma session_steps_keep:
  assumes "session_step\<^sup>*\<^sup>* w w'" and "db_inv sessions_ok w" and "db_inv (family_revoked fid) w"
  shows "db_inv sessions_ok w' \<and> db_inv (family_revoked fid) w'"
  using assms by (induction) (blast intro: session_step_keeps)+

text \<open>A revocation time of 0 would be read back as "not revoked"; the clock is never at 0.\<close>

definition stamps_ok :: "db \<Rightarrow> bool" where
  "stamps_ok d \<longleftrightarrow> (\<forall>f \<in> set (db_families d). sf_revoked_at f \<noteq> Some 0)"

lemma revoke_family_revokes:
  assumes "f \<in> set (db_families d)" and "sf_family_id f = fid" and "stamps_ok d" and "now \<noteq> 0"
    and "update_families (\<lambda>g. sf_family_id g = fid \<and> sf_revoked_at g = None) (revoke_family c now) d = Some (n, d')"
  shows "family_revoked fid d'"
proof -
  let ?h = "\<lambda>g. if sf_family_id g = fid \<and> sf_revoked_at g = None then revoke_family c now g else g"
  from assms(5) have "set (db_families d') = ?h ` set (db_families d)" by (auto simp: update_families_def)
  with assms(1) have "?h f \<in> set (db_families d')" by blast
  moreover have "sf_family_id (?h f) = fid" "null_or_zero (sf_revoked_at (?h f)) \<noteq> 0"
    using assms by (auto simp: revoke_family_def null_or_zero_def stamps_ok_def split: option.splits)
  ultimately show ?thesis unfolding family_revoked_def by blast
qed

lemma reuse_run:
  assumes "t \<in> set (db_rts (w_db w))" "rt_token_hash t = h" "rt_consumed_at t = Some c" "c \<noteq> 0" "now \<noteq> 0"
    and "sessions_ok (w_db w)" and "stamps_ok (w_db w)" and "\<forall>n. \<not> sys_fault S n"
  shows "\<exists>out w'. run_state (ps_session_refresh S h ttl now) w = ((PS_SESSION_REFRESH_REUSE_DETECTED, out), w') \<and>
    family_revoked (rt_family_id t) (w_db w') \<and> w_saved w' = w_saved w"
proof -
  from assms(6) have d: "distinct (map rt_token_hash (db_rts (w_db w)))" "distinct (map sf_family_id (db_families (w_db w)))"
    and sub: "rt_family_id t \<in> sf_family_id ` set (db_families (w_db w))" using assms(1) by (auto simp: sessions_ok_def)
  from sub obtain f where f: "f \<in> set (db_families (w_db w))" "sf_family_id f = rt_family_id t" by auto
  have lt: "List.find (\<lambda>t. rt_token_hash t = h) (db_rts (w_db w)) = Some t" using find_hash [OF d(1) assms(1,2)] .
  have lf: "List.find (\<lambda>g. sf_family_id g = rt_family_id t) (db_families (w_db w)) = Some f" using find_hash [OF d(2) f] .
  obtain n d' where u: "update_families (\<lambda>g. sf_family_id g = rt_family_id t \<and> sf_revoked_at g = None)
      (revoke_family ''REUSE_DETECTED'' now) (w_db w) = Some (n, d')" by (simp add: update_families_def)
  have "family_revoked (rt_family_id t) d'" using revoke_family_revokes [OF f assms(7,5) u] .
  then show ?thesis
    using assms(3,4,8)
    by (simp add: session_defs session_ops sql_query_def sql_exec_def tick_def lt lf u populate_token_def null_or_zero_def Let_def)
qed


subsection \<open>Concurrent presentations of one token\<close>

text \<open>
  A trace of labelled steps, with the labels that name a key collected. When a key can only be won
  while it is not taken, is taken from then on, and stays taken, no key is won twice.
\<close>

inductive claim_trace :: "('s \<Rightarrow> 'k option \<Rightarrow> 's \<Rightarrow> bool) \<Rightarrow> 's \<Rightarrow> 'k list \<Rightarrow> 's \<Rightarrow> bool" for step where
  start: "claim_trace step s [] s"
| more: "claim_trace step s ks s' \<Longrightarrow> step s' l s'' \<Longrightarrow> claim_trace step s (ks @ (case l of None \<Rightarrow> [] | Some k \<Rightarrow> [k])) s''"

locale claim_once =
  fixes step :: "'s \<Rightarrow> 'k option \<Rightarrow> 's \<Rightarrow> bool"
    and taken :: "'k \<Rightarrow> 's \<Rightarrow> bool"
    and inv :: "'s \<Rightarrow> bool"
  assumes inv_step: "inv s \<Longrightarrow> step s l s' \<Longrightarrow> inv s'"
    and taken_step: "inv s \<Longrightarrow> step s l s' \<Longrightarrow> taken k s \<Longrightarrow> taken k s'"
    and win_step: "inv s \<Longrightarrow> step s (Some k) s' \<Longrightarrow> \<not> taken k s \<and> taken k s'"
begin

lemma trace_inv: "claim_trace step s ks s' \<Longrightarrow> inv s \<Longrightarrow> inv s' \<and> distinct ks \<and> (\<forall>k \<in> set ks. taken k s')"
proof (induction rule: claim_trace.induct)
  case (more s ks s' l s'')
  then have IH: "inv s'" "distinct ks" "\<forall>k \<in> set ks. taken k s'" by auto
  show ?case
  proof (cases l)
    case (Some k)
    with more.hyps IH have "\<not> taken k s'" "taken k s''" using win_step by blast+
    with IH more.hyps Some show ?thesis by (auto dest: inv_step taken_step)
  qed (use IH more.hyps in \<open>auto dest: inv_step taken_step\<close>)
qed simp

end

text \<open>
  Clients that each present one token, their phases interleaved in any way, each phase in its own
  environment; the label is the token whose claim succeeded.
\<close>

datatype client =
    Fresh bytes
  | Looked bytes ps_refresh_token_row_t ps_session_family_row_t
  | Claimed bytes ps_refresh_token_row_t ps_session_family_row_t
  | Done bytes refresh_answer

inductive race_step :: "world \<times> client list \<Rightarrow> bytes option \<Rightarrow> world \<times> client list \<Rightarrow> bool" where
  look: "i < length cs \<Longrightarrow> cs ! i = Fresh h \<Longrightarrow> run_state (refresh_lookup S h) w = (r, w') \<Longrightarrow>
    race_step (w, cs) None (w', cs[i := (case r of Inl a \<Rightarrow> Done h a | Inr (tok, fam) \<Rightarrow> Looked h tok fam)])"
| claim: "i < length cs \<Longrightarrow> cs ! i = Looked h tok fam \<Longrightarrow> run_state (refresh_claim S h now tok fam) w = (r, w') \<Longrightarrow>
    race_step (w, cs) (if r = None then Some h else None)
      (w', cs[i := (case r of Some a \<Rightarrow> Done h a | None \<Rightarrow> Claimed h tok fam)])"
| issue: "i < length cs \<Longrightarrow> cs ! i = Claimed h tok fam \<Longrightarrow> run_state (refresh_issue S ttl now tok fam) w = (a, w') \<Longrightarrow>
    race_step (w, cs) None (w', cs[i := Done h a])"

inductive_cases race_stepE: "race_step s l s'"

definition spent :: "bytes \<Rightarrow> db \<Rightarrow> bool" where
  "spent h d \<longleftrightarrow> h \<in> rt_token_hash ` set (db_rts d) \<and> (\<forall>t \<in> set (db_rts d). rt_token_hash t = h \<longrightarrow> \<not> live t)"

fun won :: "bytes \<Rightarrow> client \<Rightarrow> bool" where
  "won h (Claimed k _ _) = (k = h)"
| "won h (Done k (r, _)) = (k = h \<and> r = PS_SESSION_REFRESH_OK)"
| "won h _ = False"

lemma spent_insert: "spent h d \<Longrightarrow> insert_rt nh fid gen idle now d = Some (a, d') \<Longrightarrow> spent h d'"
  by (frule insert_rt_Some(1), drule insert_rt_Some(3)) (auto simp: spent_def new_rt_def)

lemma spent_families: "spent h d \<Longrightarrow> update_families p g d = Some (a, d') \<Longrightarrow> spent h d'"
  by (auto simp: spent_def update_families_def)

lemma spent_claim: "spent h d \<Longrightarrow> consume_rt k now d = Some (a, d') \<Longrightarrow> spent h d'"
  by (auto simp: spent_def consume_rt_eq image_image)

interpretation race: claim_once race_step "\<lambda>h s. spent h (w_db (fst s))" "\<lambda>_. True"
proof
  fix s s' :: "world \<times> client list" and l k
  assume "race_step s l s'" and sp: "spent k (w_db (fst s))"
  then show "spent k (w_db (fst s'))"
  proof (cases rule: race_step.cases)
    case (look i cs h S w r w')
    then show ?thesis using sp lookup_run(1) by auto
  next
    case (claim i cs h tok fam S now w r w')
    then show ?thesis using sp claim_run(3) [OF claim(6)] by (auto dest: spent_claim spent_families)
  next
    case (issue i cs h tok fam S ttl now w a w')
    then show ?thesis using sp issue_run(2) [OF issue(6)] by (auto dest: spent_insert)
  qed
next
  fix s s' :: "world \<times> client list" and k
  assume "race_step s (Some k) s'"
  then show "\<not> spent k (w_db (fst s)) \<and> spent k (w_db (fst s'))"
  proof (cases rule: race_step.cases)
    case (claim i cs h tok fam S now w r w')
    then have "r = None" "h = k" by (auto split: if_splits)
    then have "\<exists>t \<in> set (db_rts (w_db w)). rt_token_hash t = k \<and> live t"
      and "w_db w' = w_db w\<lparr>db_rts := map (Session_Store.claim k now) (db_rts (w_db w))\<rparr>"
      using claim_run(2) [OF claim(6)] by auto
    then show ?thesis using claim by (auto simp: spent_def image_image)
  qed
qed

lemma distinct_count_list: "distinct ks \<Longrightarrow> count_list ks k \<le> 1"
  by (induction ks) (auto simp: count_list_0_iff)

lemma won_count:
  assumes "claim_trace race_step s ks s'" and "snd s = map Fresh hs"
  shows "length (filter (won h) (snd s')) \<le> count_list ks h"
  using assms
proof (induction rule: claim_trace.induct)
  case (start s)
  then show ?case by (induction hs arbitrary: s) auto
next
  case (more s ks s' l s'')
  then have IH: "length (filter (won h) (snd s')) \<le> count_list ks h" by simp
  have upd: "length (filter (won h) (cs[i := c])) + (if won h (cs ! i) then 1 else 0) =
      length (filter (won h) cs) + (if won h c then 1 else 0)" if "i < length cs" for cs i c
    using length_filter_update [OF that, of "won h" c] by (simp split: if_splits)
  from more(2) show ?case
  proof (cases rule: race_step.cases)
    case (look i cs k S w r w')
    have "\<not> won h (case r of Inl a \<Rightarrow> Done k a | Inr (tok, fam) \<Rightarrow> Looked k tok fam)"
      using look(6) by (auto simp: refresh_lookup_def session_ops sql_query_def split: if_splits option.splits)
    then show ?thesis using look IH upd [of i cs] by simp
  next
    case (claim i cs k tok fam S now w r w')
    have "\<not> won h (Done k a)" if "r = Some a" for a
      using claim(6) that by (auto simp: refresh_claim_def Let_def session_ops sql_exec_def split: if_splits option.splits prod.splits)
    then show ?thesis using claim IH upd [of i cs] by (cases r) (auto split: if_splits)
  next
    case (issue i cs k tok fam S ttl now w a w')
    have "won h (Done k a) \<Longrightarrow> won h (cs ! i)" using issue(5) by (cases a) auto
    then show ?thesis using issue IH upd [of i cs "Done k a"] by (auto split: if_splits)
  qed
qed


subsection \<open>Properties\<close>

definition example_db :: db where
  "example_db = schema_001_init\<lparr>
     db_users := [\<lparr>ur_user_id = 7, ur_username = ''alice'', ur_email = ''a@b.c'', ur_email_normalized = ''a@b.c'',
       ur_password_hash = take 32 (''pass word'' @ ''salt'' @ replicate 32 NUL), ur_password_salt = ''salt'', ur_kdf_iters = 1,
       ur_status = ''ACTIVE'', ur_failed_logins = 0, ur_locked_until = None, ur_created_at = 1, ur_updated_at = 1\<rparr>],
     db_user_roles := [(7, 1)],
     db_families := [new_family ''f'' 7 10 5000],
     db_rts := [(new_rt ''old'' ''f'' 1 2000 10)\<lparr>rt_consumed_at := Some 20\<rparr>, new_rt ''new'' ''f'' 2 2000 20]\<rparr>"

definition example_world :: world where
  "example_world = \<lparr>w_db = example_db, w_saved = None, w_rl = ps_ratelimiter_create 16, w_kdf = 2, w_conns = 4, w_tick = 0\<rparr>"

lemma example_world_ok: "sessions_ok (w_db example_world)" "stamps_ok (w_db example_world)" "w_saved example_world = None"
  by (simp_all add: sessions_ok_def stamps_ok_def example_world_def example_db_def one_live_def live_def new_family_def new_rt_def)

text \<open>C38. Rotation: a refresh that succeeds was given a token that was not consumed, of a family that
  is neither revoked nor past its absolute limit, before the idle limit of the token; it consumes that
  token, adds one of the next generation to the same family, whose hash is the hash of the token
  returned, and changes no other token.\<close>

theorem refresh_rotates:
  assumes "sessions_ok (w_db w)" and "run_state (ps_session_refresh S h ttl now) w = ((PS_SESSION_REFRESH_OK, out), w')"
  shows "\<exists>t f nh. t \<in> set (db_rts (w_db w)) \<and> rt_token_hash t = h \<and> live t \<and>
    f \<in> set (db_families (w_db w)) \<and> sf_family_id f = rt_family_id t \<and> null_or_zero (sf_revoked_at f) = 0 \<and>
    now \<le> sf_absolute_exp f \<and> now \<le> rt_idle_exp t \<and> rf_user_id out = sf_user_id f \<and>
    sys_sha256 S (rf_raw_refresh_token out) = Some nh \<and> nh \<notin> rt_token_hash ` set (db_rts (w_db w)) \<and>
    db_families (w_db w') = db_families (w_db w) \<and>
    db_rts (w_db w') = map (claim h now) (db_rts (w_db w)) @ [new_rt nh (rt_family_id t) (rt_generation t + 1) (now + ttl) now]"
proof -
  obtain t f nh where r: "List.find (\<lambda>t. rt_token_hash t = h) (db_rts (w_db w)) = Some t"
    "List.find (\<lambda>f. sf_family_id f = rt_family_id t) (db_families (w_db w)) = Some f"
    "\<exists>t \<in> set (db_rts (w_db w)). rt_token_hash t = h \<and> live t"
    "null_or_zero (sf_revoked_at f) = 0" "now \<le> sf_absolute_exp f" "now \<le> rt_idle_exp t"
    "sys_sha256 S (rf_raw_refresh_token out) = Some nh" "rf_user_id out = sf_user_id f"
    and ins: "insert_rt nh (rt_family_id t) (rt_generation t + 1) (now + ttl) now
           (w_db w\<lparr>db_rts := map (claim h now) (db_rts (w_db w))\<rparr>) = Some ((), w_db w')"
    using assms(2) by (rule refresh_OK)
  note I = insert_rt_Some [OF ins]
  from r(3) obtain s where "s \<in> set (db_rts (w_db w))" "rt_token_hash s = h" "live s" by blast
  with find_hash [of rt_token_hash "db_rts (w_db w)" s h] assms(1) r(1) have "live t" by (simp add: sessions_ok_def)
  moreover have "nh \<notin> rt_token_hash ` set (db_rts (w_db w))" using I(1) by (simp add: image_image)
  ultimately show ?thesis
    using find_SomeD [OF r(1)] find_SomeD [OF r(2)] r(4-8) I(3) by (intro exI [of _ t] exI [of _ f] exI [of _ nh]) simp
qed

lemma example_refresh:
  "\<exists>out w'. run_state (ps_session_refresh quiet_sys ''new'' 600 1000) example_world = ((PS_SESSION_REFRESH_OK, out), w')"
  by (simp add: session_defs session_ops sql_query_def sql_exec_def ps_rand_bytes_def tick_def quiet_sys_def example_world_def
      example_db_def new_family_def new_rt_def populate_token_def populate_family_def null_or_zero_def consume_rt_eq
      insert_rt_def Let_def claim_def live_def)

theorem refresh_rotates_witness:
  "\<exists>out w'. run_state (ps_session_refresh quiet_sys ''new'' 600 1000) example_world = ((PS_SESSION_REFRESH_OK, out), w') \<and>
    (\<exists>t nh. t \<in> set (db_rts (w_db example_world)) \<and> rt_token_hash t = ''new'' \<and> live t \<and>
      db_rts (w_db w') = map (claim ''new'' 1000) (db_rts (w_db example_world)) @
        [new_rt nh (rt_family_id t) (rt_generation t + 1) (1000 + 600) 1000])"
  using example_refresh refresh_rotates [OF example_world_ok(1), of quiet_sys "''new''" 600 1000] by meson

text \<open>The tables of sessions stay consistent: unique keys, no token without its family, and in
  each family at most one unconsumed token, which is the newest. Every session operation keeps this, in
  every environment: whichever statement fails and whatever the generator returns.\<close>

theorem session_invariant:
  assumes "session_step w w'" and "db_inv sessions_ok w"
  shows "db_inv sessions_ok w'"
  using session_step_keeps(1) [OF assms] .

theorem session_invariant_witness:
  "db_inv sessions_ok (snd (run_state (ps_session_refresh quiet_sys ''new'' 600 1000) example_world))"
  using session_invariant [OF session_step.refresh [of example_world quiet_sys "''new''" 600 1000]] example_world_ok
  by (simp add: db_inv_def)



text \<open>C40. Two presentations of one token cannot both win: however the phases of any number of refresh
  requests are interleaved, and whatever fails, at most one of the requests that present a given
  token claims it, so at most one returns success.\<close>

theorem refresh_race_single_winner:
  assumes "claim_trace race_step (w, map Fresh hs) ks (w', cs)"
  shows "length (filter (won h) cs) \<le> 1"
proof -
  have "distinct ks" using race.trace_inv [OF assms] by simp
  then have "count_list ks h \<le> 1" by (rule distinct_count_list)
  then show ?thesis using won_count [OF assms, of hs h] by simp
qed

lemma example_race:
  "\<exists>w' tok fam. claim_trace race_step (example_world, map Fresh [''new'', ''new'']) [''new'']
     (w', [Claimed ''new'' tok fam, Fresh ''new''])"
proof -
  have l: "\<exists>tok fam w1. run_state (refresh_lookup quiet_sys ''new'') example_world = (Inr (tok, fam), w1) \<and> w_db w1 = w_db example_world \<and>
      tr_consumed_at tok = 0"
    by (simp add: refresh_lookup_def session_ops sql_query_def tick_def quiet_sys_def example_world_def example_db_def
        new_family_def new_rt_def populate_token_def null_or_zero_def)
  then obtain tok fam w1 where l: "run_state (refresh_lookup quiet_sys ''new'') example_world = (Inr (tok, fam), w1)"
    "w_db w1 = w_db example_world" "tr_consumed_at tok = 0" by blast
  then obtain w2 where c: "run_state (refresh_claim quiet_sys ''new'' 1000 tok fam) w1 = (None, w2)"
    by (simp add: refresh_claim_def session_ops sql_exec_def quiet_sys_def consume_rt_eq example_world_def example_db_def
        new_rt_def live_def Let_def)
  have s1: "race_step (example_world, map Fresh [''new'', ''new'']) None (w1, [Looked ''new'' tok fam, Fresh ''new''])"
    using race_step.look [of 0 "map Fresh [''new'', ''new'']" "''new''", OF _ _ l(1)] by simp
  have s2: "race_step (w1, [Looked ''new'' tok fam, Fresh ''new'']) (Some ''new'') (w2, [Claimed ''new'' tok fam, Fresh ''new''])"
    using race_step.claim [of 0 "[Looked ''new'' tok fam, Fresh ''new'']" "''new''" tok fam, OF _ _ c] by simp
  note more = claim_trace.more [where step = race_step]
  show ?thesis using more [OF more [OF claim_trace.start s1] s2] by auto
qed

theorem refresh_race_single_winner_witness:
  "\<exists>w' tok fam. claim_trace race_step (example_world, map Fresh [''new'', ''new'']) [''new'']
     (w', [Claimed ''new'' tok fam, Fresh ''new'']) \<and>
   length (filter (won ''new'') [Claimed ''new'' tok fam, Fresh ''new'']) \<le> 1"
  using example_race refresh_race_single_winner [where h = "''new''"] by blast

end
