(* ===== verification/Config.thy ===== *)
theory Config
  imports Cors
begin

text \<open>
  Configuration (\<^verbatim>\<open>src/src/platform/config.c\<close>, \<^verbatim>\<open>config.h\<close>) and the names of the log levels
  (\<^verbatim>\<open>log.c\<close>). The code is driven by a table with one row per setting; the \<^verbatim>\<open>offset\<close> of a row, which
  names a field of \<^verbatim>\<open>ps_config_t\<close>, is its key here, and the configuration is the map from keys to
  values. \<open>st_size\<close> is the capacity of a string field (0 for the others). The environment is a map;
  the configuration file is its contents and whether reading it ends in an error.
\<close>

subsection \<open>Log levels\<close>

datatype ps_log_level_t = PS_LOG_TRACE | PS_LOG_DEBUG | PS_LOG_INFO | PS_LOG_WARN | PS_LOG_ERROR

definition LEVELS :: "(ps_log_level_t \<times> bytes) list" where
  "LEVELS = [(PS_LOG_TRACE, ''TRACE''), (PS_LOG_DEBUG, ''DEBUG''), (PS_LOG_INFO, ''INFO''), (PS_LOG_WARN, ''WARN''),
     (PS_LOG_ERROR, ''ERROR'')]"

definition strcasecmp_eq :: "bytes \<Rightarrow> bytes \<Rightarrow> bool" where
  "strcasecmp_eq a b \<longleftrightarrow> map c_tolower (cstr a) = map c_tolower (cstr b)"

definition ps_log_level_name :: "ps_log_level_t \<Rightarrow> bytes" where
  "ps_log_level_name l = (case map_of LEVELS l of None \<Rightarrow> ''?'' | Some n \<Rightarrow> n)"

definition ps_log_level_from_string :: "bytes \<Rightarrow> ps_log_level_t option" where
  "ps_log_level_from_string name = map_option fst (List.find (\<lambda>(_, n). strcasecmp_eq name n) LEVELS)"


subsection \<open>The table\<close>

datatype ps_type_t = T_STR | T_PATH | T_INT | T_U16 | T_BOOL | T_LOGLEVEL

record ps_setting_t =
  st_key :: bytes
  st_env :: bytes
  st_type :: ps_type_t
  st_size :: nat
  st_dflt :: bytes
  st_secret :: bool
  st_env_only :: bool

definition setting :: "bytes \<Rightarrow> bytes \<Rightarrow> ps_type_t \<Rightarrow> nat \<Rightarrow> bytes \<Rightarrow> bool \<Rightarrow> bool \<Rightarrow> ps_setting_t" where
  "setting key env typ cap dflt secret env_only =
     \<lparr>st_key = key, st_env = env, st_type = typ, st_size = cap, st_dflt = dflt, st_secret = secret, st_env_only = env_only\<rparr>"

definition SETTINGS :: "ps_setting_t list" where
  "SETTINGS = [
     setting ''server.bind_address'' ''PS_BIND_ADDRESS'' T_STR 256 ''127.0.0.1'' False False,
     setting ''server.port'' ''PS_PORT'' T_U16 0 ''8443'' False False,
     setting ''server.dev_mode'' ''PS_DEV_MODE'' T_BOOL 0 ''false'' False False,
     setting ''server.worker_threads'' ''PS_WORKER_THREADS'' T_INT 0 ''0'' False False,
     setting ''server.accept_queue_depth'' ''PS_ACCEPT_QUEUE_DEPTH'' T_INT 0 ''256'' False False,
     setting ''server.shutdown_grace_s'' ''PS_SHUTDOWN_GRACE_S'' T_INT 0 ''30'' False False,
     setting ''http.max_request_line'' ''PS_MAX_REQUEST_LINE'' T_INT 0 ''8192'' False False,
     setting ''http.max_header_bytes'' ''PS_MAX_HEADER_BYTES'' T_INT 0 ''16384'' False False,
     setting ''http.max_header_count'' ''PS_MAX_HEADER_COUNT'' T_INT 0 ''64'' False False,
     setting ''http.max_body_bytes'' ''PS_MAX_BODY_BYTES'' T_INT 0 ''1048576'' False False,
     setting ''http.read_timeout_s'' ''PS_READ_TIMEOUT_S'' T_INT 0 ''30'' False False,
     setting ''http.write_timeout_s'' ''PS_WRITE_TIMEOUT_S'' T_INT 0 ''30'' False False,
     setting ''http.keepalive_idle_s'' ''PS_KEEPALIVE_IDLE_S'' T_INT 0 ''15'' False False,
     setting ''http.keepalive_max_requests'' ''PS_KEEPALIVE_MAX_REQUESTS'' T_INT 0 ''100'' False False,
     setting ''cors.allowed_origins'' ''PS_CORS_ALLOWED_ORIGINS'' T_STR 256 '''' False False,
     setting ''cors.allow_credentials'' ''PS_CORS_ALLOW_CREDENTIALS'' T_BOOL 0 ''false'' False False,
     setting ''tls.enabled'' ''PS_TLS_ENABLED'' T_BOOL 0 ''true'' False False,
     setting ''tls.cert_path'' ''PS_TLS_CERT_PATH'' T_PATH 512 ''./certs/dev-cert.pem'' False False,
     setting ''tls.key_path'' ''PS_TLS_KEY_PATH'' T_PATH 512 ''./certs/dev-key.pem'' False False,
     setting ''db.path'' ''PS_DB_PATH'' T_PATH 512 ''./data/platform.db'' False False,
     setting ''db.busy_timeout_ms'' ''PS_DB_BUSY_TIMEOUT_MS'' T_INT 0 ''5000'' False False,
     setting ''auth.access_token_ttl_s'' ''PS_ACCESS_TOKEN_TTL_S'' T_INT 0 ''900'' False False,
     setting ''auth.refresh_idle_ttl_s'' ''PS_REFRESH_IDLE_TTL_S'' T_INT 0 ''2592000'' False False,
     setting ''auth.refresh_absolute_ttl_s'' ''PS_REFRESH_ABSOLUTE_TTL_S'' T_INT 0 ''7776000'' False False,
     setting ''auth.verification_ttl_s'' ''PS_VERIFICATION_TTL_S'' T_INT 0 ''86400'' False False,
     setting ''auth.kdf_iterations'' ''PS_KDF_ITERATIONS'' T_INT 0 ''600000'' False False,
     setting ''auth.lockout_threshold'' ''PS_LOCKOUT_THRESHOLD'' T_INT 0 ''10'' False False,
     setting ''auth.lockout_duration_s'' ''PS_LOCKOUT_DURATION_S'' T_INT 0 ''900'' False False,
     setting ''auth.password_min_length'' ''PS_PASSWORD_MIN_LENGTH'' T_INT 0 ''12'' False False,
     setting ''auth.password_max_length'' ''PS_PASSWORD_MAX_LENGTH'' T_INT 0 ''128'' False False,
     setting ''auth.jwt_issuer'' ''PS_JWT_ISSUER'' T_STR 256 ''platformservice'' False False,
     setting ''auth.jwt_audience'' ''PS_JWT_AUDIENCE'' T_STR 256 ''platformservice-api'' False False,
     setting ''auth.jwt_secret'' ''PS_JWT_SECRET'' T_STR 512 '''' True True,
     setting ''bootstrap.admin_username'' ''BOOTSTRAP_ADMIN_USERNAME'' T_STR 256 '''' False True,
     setting ''bootstrap.admin_email'' ''BOOTSTRAP_ADMIN_EMAIL'' T_STR 256 '''' False True,
     setting ''bootstrap.admin_password'' ''BOOTSTRAP_ADMIN_PASSWORD'' T_STR 512 '''' True True,
     setting ''maintenance.interval_s'' ''PS_MAINTENANCE_INTERVAL_S'' T_INT 0 ''3600'' False False,
     setting ''maintenance.batch_size'' ''PS_MAINTENANCE_BATCH_SIZE'' T_INT 0 ''1000'' False False,
     setting ''audit.retention_days'' ''PS_AUDIT_RETENTION_DAYS'' T_INT 0 ''365'' False False,
     setting ''ratelimit.max_entries'' ''PS_RATELIMIT_MAX_ENTRIES'' T_INT 0 ''100000'' False False,
     setting ''ratelimit.login_per_minute'' ''PS_RATELIMIT_LOGIN'' T_INT 0 ''10'' False False,
     setting ''ratelimit.login_username_per_minute'' ''PS_RATELIMIT_LOGIN_USERNAME'' T_INT 0 ''10'' False False,
     setting ''ratelimit.register_per_minute'' ''PS_RATELIMIT_REGISTER'' T_INT 0 ''5'' False False,
     setting ''ratelimit.register_global_per_minute'' ''PS_RATELIMIT_REGISTER_GLOBAL'' T_INT 0 ''50'' False False,
     setting ''ratelimit.resend_min_interval_s'' ''PS_RESEND_MIN_INTERVAL_S'' T_INT 0 ''60'' False False,
     setting ''ratelimit.resend_max_per_day'' ''PS_RESEND_MAX_PER_DAY'' T_INT 0 ''5'' False False,
     setting ''auth.common_passwords_path'' ''PS_COMMON_PASSWORDS_PATH'' T_PATH 512 ''./data/common-passwords.txt'' False False,
     setting ''log.level'' ''PS_LOG_LEVEL'' T_LOGLEVEL 0 ''INFO'' False False]"

datatype cfg_value = V_str bytes | V_int int | V_bool bool | V_level ps_log_level_t

type_synonym ps_config_t = "bytes \<Rightarrow> cfg_value option"

text \<open>Reading a field; a field that was never set has the zero of its type.\<close>

definition cfg_str :: "ps_config_t \<Rightarrow> bytes \<Rightarrow> bytes" where
  "cfg_str cfg k = (case cfg k of Some (V_str s) \<Rightarrow> s | _ \<Rightarrow> [])"

definition cfg_int :: "ps_config_t \<Rightarrow> bytes \<Rightarrow> int" where
  "cfg_int cfg k = (case cfg k of Some (V_int i) \<Rightarrow> i | _ \<Rightarrow> 0)"

definition cfg_bool :: "ps_config_t \<Rightarrow> bytes \<Rightarrow> bool" where
  "cfg_bool cfg k = (case cfg k of Some (V_bool b) \<Rightarrow> b | _ \<Rightarrow> False)"

definition cfg_level :: "ps_config_t \<Rightarrow> bytes \<Rightarrow> ps_log_level_t" where
  "cfg_level cfg k = (case cfg k of Some (V_level l) \<Rightarrow> l | _ \<Rightarrow> PS_LOG_TRACE)"


subsection \<open>Values\<close>

definition parse_bool :: "bytes \<Rightarrow> bool option" where
  "parse_bool v =
     (if strcasecmp_eq v ''true'' \<or> strcasecmp_eq v ''yes'' \<or> cstr v = ''1'' \<or> strcasecmp_eq v ''on'' then Some True
      else if strcasecmp_eq v ''false'' \<or> strcasecmp_eq v ''no'' \<or> cstr v = ''0'' \<or> strcasecmp_eq v ''off'' then Some False
      else None)"

definition parse_long :: "bytes \<Rightarrow> int option" where
  "parse_long v =
     (if cstr v = [] then None
      else case c_strtoll (cstr v) of
        None \<Rightarrow> None
      | Some (n, rest) \<Rightarrow> if \<not> in_int64 n \<or> rest \<noteq> [] then None else Some n)"

abbreviation quote :: bytes where "quote \<equiv> [CHR 0x27]"

definition parse_setting :: "ps_setting_t \<Rightarrow> bytes \<Rightarrow> bytes + cfg_value" where
  "parse_setting s value =
     (let name = st_key s; v = cstr value in
      case st_type s of
        T_INT \<Rightarrow>
          (case parse_long v of
             Some n \<Rightarrow> if - (2 ^ 31) \<le> n \<and> n < 2 ^ 31 then Inr (V_int n)
                       else Inl (name @ '': not a valid integer: '' @ quote @ v @ quote)
           | None \<Rightarrow> Inl (name @ '': not a valid integer: '' @ quote @ v @ quote))
      | T_U16 \<Rightarrow>
          (case parse_long v of
             Some n \<Rightarrow> if 1 \<le> n \<and> n \<le> 65535 then Inr (V_int n)
                       else Inl (name @ '': not a valid port (1-65535): '' @ quote @ v @ quote)
           | None \<Rightarrow> Inl (name @ '': not a valid port (1-65535): '' @ quote @ v @ quote))
      | T_BOOL \<Rightarrow>
          (case parse_bool v of
             Some b \<Rightarrow> Inr (V_bool b)
           | None \<Rightarrow> Inl (name @ '': not a boolean: '' @ quote @ v @ quote))
      | T_LOGLEVEL \<Rightarrow>
          (case ps_log_level_from_string v of
             Some l \<Rightarrow> Inr (V_level l)
           | None \<Rightarrow> Inl (name @ '': unknown level '' @ quote @ v @ quote @ '' (TRACE|DEBUG|INFO|WARN|ERROR)''))
      | _ \<Rightarrow>
          if st_size s \<le> length v then Inl (name @ '': value too long (max '' @ show_nat (st_size s - 1) @ '' bytes)'')
          else Inr (V_str v))"

definition apply_value :: "ps_config_t \<Rightarrow> ps_setting_t \<Rightarrow> bytes \<Rightarrow> bytes + ps_config_t" where
  "apply_value cfg s value =
     (case parse_setting s value of Inl e \<Rightarrow> Inl e | Inr v \<Rightarrow> Inr (cfg(st_key s \<mapsto> v)))"


subsection \<open>The configuration file\<close>

definition trim :: "bytes \<Rightarrow> bytes" where
  "trim s = rev (dropWhile c_isspace (rev (dropWhile c_isspace (cstr s))))"

definition find_by_key :: "bytes \<Rightarrow> ps_setting_t option" where
  "find_by_key key = List.find (\<lambda>s. st_key s = key) SETTINGS"

text \<open>\<^verbatim>\<open>fgets\<close> with a buffer of 1024 bytes: a line, or 1023 bytes of a longer one.\<close>

definition fgets_len :: "bytes \<Rightarrow> nat" where
  "fgets_len s = min 1023 (length (takeWhile (\<lambda>c. c \<noteq> CHR 0x0A) s) + 1)"

function fgets_lines :: "bytes \<Rightarrow> bytes list" where
  "fgets_lines s = (if s = [] then [] else take (fgets_len s) s # fgets_lines (drop (fgets_len s) s))"
  by pat_completeness auto
termination
  by (relation "measure length") (auto simp: fgets_len_def)

declare fgets_lines.simps [simp del]

fun load_lines :: "bytes \<Rightarrow> nat \<Rightarrow> bytes list \<Rightarrow> ps_config_t \<Rightarrow> bytes + ps_config_t" where
  "load_lines path lineno [] cfg = Inr cfg"
| "load_lines path lineno (line # rest) cfg =
     (let p = trim line; here = path @ '':'' @ show_nat (lineno + 1) @ '': '' in
      if p = [] \<or> hd p = CHR ''#'' \<or> hd p = CHR '';'' then load_lines path (lineno + 1) rest cfg
      else case split_at_char CHR ''='' p of
        None \<Rightarrow> Inl (here @ ''expected key=value'')
      | Some (k, v) \<Rightarrow>
          let key = trim k; value = trim v in
          (case find_by_key key of
             None \<Rightarrow> Inl (here @ ''unknown setting '' @ quote @ key @ quote)
           | Some s \<Rightarrow>
               if st_env_only s then
                 Inl (here @ quote @ key @ quote @ '' must come from the environment, never a config file (set '' @
                   st_env s @ '' instead)'')
               else case apply_value cfg s value of
                 Inl e \<Rightarrow> Inl e
               | Inr cfg' \<Rightarrow> load_lines path (lineno + 1) rest cfg'))"

datatype config_file = Cannot_open bytes | Contents bytes "bytes option"

definition load_file :: "ps_config_t \<Rightarrow> bytes \<Rightarrow> config_file \<Rightarrow> bytes + ps_config_t" where
  "load_file cfg path file =
     (case file of
        Cannot_open reason \<Rightarrow> Inl (''cannot open config file '' @ quote @ path @ quote @ '': '' @ reason)
      | Contents text read_error \<Rightarrow>
          (case load_lines path 0 (fgets_lines text) cfg of
             Inl e \<Rightarrow> Inl e
           | Inr cfg' \<Rightarrow>
               (case read_error of
                  Some reason \<Rightarrow> Inl (''error reading '' @ quote @ path @ quote @ '': '' @ reason)
                | None \<Rightarrow> Inr cfg')))"


subsection \<open>Validation\<close>

function cors_origins_contains_wildcard :: "bytes \<Rightarrow> bool" where
  "cors_origins_contains_wildcard csv =
     (let p = dropWhile cors_sep csv in
      if p = [] then False
      else rtrim_blank (takeWhile (\<lambda>c. c \<noteq> CHR '','') p) = ''*'' \<or>
           cors_origins_contains_wildcard (dropWhile (\<lambda>c. c \<noteq> CHR '','') p))"
  by pat_completeness auto
termination
proof (relation "measure length", goal_cases)
  case 1
  show ?case by simp
next
  case (2 csv p)
  obtain c q where p: "p = c # q" using 2(2) by (cases p) simp_all
  have "dropWhile cors_sep csv = c # q" by (rule trans [OF sym [OF 2(1)] p])
  then have "\<not> cors_sep c" by (simp add: dropWhile_eq_Cons_conv)
  then have "c \<noteq> CHR '',''" by (auto simp: cors_sep_def)
  then have "length (dropWhile (\<lambda>c. c \<noteq> CHR '','') p) < length p"
    using p length_dropWhile_le [of "\<lambda>c. c \<noteq> CHR '',''" q] by (simp add: le_imp_less_Suc)
  moreover have "length p \<le> length csv" unfolding 2(1) by (rule length_dropWhile_le)
  ultimately show ?case by simp
qed

declare cors_origins_contains_wildcard.simps [simp del]

definition ps_config_validate :: "ps_config_t \<Rightarrow> bytes option" where
  "ps_config_validate cfg =
     (let secret = cfg_str cfg ''auth.jwt_secret'';
          idle = cfg_int cfg ''auth.refresh_idle_ttl_s''; absolute = cfg_int cfg ''auth.refresh_absolute_ttl_s'';
          iters = cfg_int cfg ''auth.kdf_iterations'';
          pmin = cfg_int cfg ''auth.password_min_length''; pmax = cfg_int cfg ''auth.password_max_length'' in
      if secret = [] then Some (''PS_JWT_SECRET is not set. Generate one with: export PS_JWT_SECRET='' @
        [CHR 0x22] @ ''$(openssl rand -base64 48)'' @ [CHR 0x22])
      else if length secret < 32 then Some (''PS_JWT_SECRET is '' @ show_nat (length secret) @ '' bytes; minimum is 32'')
      else if cfg_int cfg ''auth.access_token_ttl_s'' \<le> 0 then Some ''auth.access_token_ttl_s must be positive''
      else if absolute < idle then
        Some (''auth.refresh_absolute_ttl_s ('' @ show_int absolute @ '') must be >= auth.refresh_idle_ttl_s ('' @ show_int idle @
          ''), otherwise the absolute cap could never be reached'')
      else if iters < 1000 then Some (''auth.kdf_iterations is '' @ show_int iters @ ''; refusing anything below 1000'')
      else if pmin < 8 \<or> pmax < pmin then
        Some (''password length bounds are invalid (min='' @ show_int pmin @ '' max='' @ show_int pmax @ '')'')
      else if cfg_int cfg ''auth.lockout_threshold'' < 1 then Some ''auth.lockout_threshold must be at least 1''
      else if cfg_int cfg ''maintenance.batch_size'' < 1 then Some ''maintenance.batch_size must be at least 1''
      else if cfg_int cfg ''ratelimit.max_entries'' < 1 then Some ''ratelimit.max_entries must be at least 1; an unbounded limiter is a memory-exhaustion vector (plan R18)''
      else if cfg_int cfg ''http.max_body_bytes'' < 1 \<or> cfg_int cfg ''http.max_header_bytes'' < 1 \<or>
              cfg_int cfg ''http.max_request_line'' < 1 \<or> cfg_int cfg ''http.max_header_count'' < 1 then
        Some ''http limits must all be positive''
      else if cfg_bool cfg ''cors.allow_credentials'' \<and> cors_origins_contains_wildcard (cstr (cfg_str cfg ''cors.allowed_origins'')) then
        Some (''cors.allowed_origins contains '' @ quote @ ''*'' @ quote @ '' with cors.allow_credentials=true; refusing to start'' @
          '' (plan 7.2a) -- a wildcard origin combined with credentials is a cross-origin credential leak, not merely discouraged'')
      else None)"


subsection \<open>Loading, printing and wiping\<close>

fun apply_all :: "(ps_setting_t \<Rightarrow> bytes option) \<Rightarrow> ps_setting_t list \<Rightarrow> ps_config_t \<Rightarrow> bytes + ps_config_t" where
  "apply_all val [] cfg = Inr cfg"
| "apply_all val (s # ss) cfg =
     (case val s of
        None \<Rightarrow> apply_all val ss cfg
      | Some v \<Rightarrow> (case apply_value cfg s v of Inl e \<Rightarrow> Inl e | Inr cfg' \<Rightarrow> apply_all val ss cfg'))"

text \<open>An unset or empty environment variable does not override anything.\<close>

definition env_value :: "(bytes \<Rightarrow> bytes option) \<Rightarrow> ps_setting_t \<Rightarrow> bytes option" where
  "env_value env s = (case env (st_env s) of None \<Rightarrow> None | Some v \<Rightarrow> if cstr v = [] then None else Some v)"

definition ps_config_load :: "(bytes \<times> config_file) option \<Rightarrow> (bytes \<Rightarrow> bytes option) \<Rightarrow> bytes + ps_config_t" where
  "ps_config_load file env =
     (case apply_all (\<lambda>s. Some (st_dflt s)) SETTINGS Map.empty of
        Inl e \<Rightarrow> Inl e
      | Inr cfg0 \<Rightarrow>
          (case (case file of None \<Rightarrow> Inr cfg0 | Some (path, f) \<Rightarrow> load_file cfg0 path f) of
             Inl e \<Rightarrow> Inl e
           | Inr cfg1 \<Rightarrow>
               (case apply_all (env_value env) SETTINGS cfg1 of
                  Inl e \<Rightarrow> Inl e
                | Inr cfg2 \<Rightarrow> (case ps_config_validate cfg2 of Some e \<Rightarrow> Inl e | None \<Rightarrow> Inr cfg2))))"

definition ps_config_free :: "ps_config_t \<Rightarrow> ps_config_t" where
  "ps_config_free cfg = (\<lambda>k. if list_ex (\<lambda>s. st_key s = k \<and> st_secret s) SETTINGS then Some (V_str []) else cfg k)"

definition pad34 :: "bytes \<Rightarrow> bytes" where
  "pad34 s = s @ replicate (34 - length s) CHR '' ''"

definition print_value :: "ps_config_t \<Rightarrow> ps_setting_t \<Rightarrow> bytes" where
  "print_value cfg s =
     (if st_secret s then ''<redacted, '' @ show_nat (length (cfg_str cfg (st_key s))) @ '' bytes>''
      else case st_type s of
        T_INT \<Rightarrow> show_int (cfg_int cfg (st_key s))
      | T_U16 \<Rightarrow> show_int (cfg_int cfg (st_key s))
      | T_BOOL \<Rightarrow> (if cfg_bool cfg (st_key s) then ''true'' else ''false'')
      | T_LOGLEVEL \<Rightarrow> ps_log_level_name (cfg_level cfg (st_key s))
      | _ \<Rightarrow> cfg_str cfg (st_key s))"

definition ps_config_print :: "ps_config_t \<Rightarrow> bytes list" where
  "ps_config_print cfg =
     ''effective configuration:'' # map (\<lambda>s. ''  '' @ pad34 (st_key s) @ '' = '' @ print_value cfg s) SETTINGS"


subsection \<open>What loading does\<close>

lemma distinct_keys: "distinct (map st_key SETTINGS)"
  by code_simp

lemma key_inj: "s \<in> set SETTINGS \<Longrightarrow> t \<in> set SETTINGS \<Longrightarrow> st_key s = st_key t \<Longrightarrow> s = t"
  using distinct_keys by (meson distinct_map inj_onD)

lemma find_by_key_Some: "find_by_key k = Some s \<Longrightarrow> s \<in> set SETTINGS \<and> st_key s = k"
  by (auto simp: find_by_key_def find_Some_iff)

lemma apply_value_Inr: "apply_value cfg s v = Inr cfg' \<Longrightarrow> \<exists>x. parse_setting s v = Inr x \<and> cfg' = cfg(st_key s \<mapsto> x)"
  by (auto simp: apply_value_def split: sum.splits)

lemma apply_all_other:
  "apply_all val ss cfg = Inr cfg' \<Longrightarrow> (\<And>s. s \<in> set ss \<Longrightarrow> st_key s = k \<Longrightarrow> val s = None) \<Longrightarrow> cfg' k = cfg k"
proof (induction ss arbitrary: cfg)
  case (Cons s ss)
  show ?case
  proof (cases "val s")
    case (Some v)
    then obtain c1 where c1: "apply_value cfg s v = Inr c1" "apply_all val ss c1 = Inr cfg'"
      using Cons.prems(1) by (auto split: sum.splits)
    moreover have "st_key s \<noteq> k" using Cons.prems(2) [of s] Some by auto
    ultimately show ?thesis using Cons.IH [of c1] Cons.prems(2) apply_value_Inr [OF c1(1)] by auto
  qed (use Cons in auto)
qed simp

lemma apply_all_value:
  "apply_all val ss cfg = Inr cfg' \<Longrightarrow> distinct (map st_key ss) \<Longrightarrow> s \<in> set ss \<Longrightarrow> val s = Some v \<Longrightarrow>
     \<exists>x. parse_setting s v = Inr x \<and> cfg' (st_key s) = Some x"
proof (induction ss arbitrary: cfg)
  case (Cons t ss)
  show ?case
  proof (cases "s = t")
    case True
    then obtain c1 where c1: "apply_value cfg s v = Inr c1" "apply_all val ss c1 = Inr cfg'"
      using Cons.prems by (auto split: sum.splits)
    have "st_key s \<notin> st_key ` set ss" using True Cons.prems(2) by simp
    then have "cfg' (st_key s) = c1 (st_key s)" using apply_all_other [OF c1(2)] by (metis imageI)
    then show ?thesis using apply_value_Inr [OF c1(1)] by auto
  next
    case False
    then have "s \<in> set ss" using Cons.prems(3) by simp
    then show ?thesis using Cons.IH Cons.prems by (auto split: option.splits sum.splits)
  qed
qed simp

lemma load_lines_env_only:
  assumes "load_lines path n ls cfg = Inr cfg'" and "s \<in> set SETTINGS" and "st_env_only s"
  shows "cfg' (st_key s) = cfg (st_key s)"
  using assms(1)
proof (induction ls arbitrary: n cfg)
  case (Cons l ls)
  show ?case
  proof (cases "trim l = [] \<or> hd (trim l) = CHR ''#'' \<or> hd (trim l) = CHR '';''")
    case True
    then show ?thesis using Cons by (auto simp: Let_def)
  next
    case False
    then obtain k v t c1 where "split_at_char CHR ''='' (trim l) = Some (k, v)" and t: "find_by_key (trim k) = Some t" "\<not> st_env_only t"
      and c1: "apply_value cfg t (trim v) = Inr c1" "load_lines path (n + 1) ls c1 = Inr cfg'"
      using Cons.prems by (auto simp: Let_def split: option.splits if_splits sum.splits)
    have "st_key t \<noteq> st_key s" using key_inj [of t s] find_by_key_Some [OF t(1)] t(2) assms(2,3) by auto
    then show ?thesis using Cons.IH [OF c1(2)] apply_value_Inr [OF c1(1)] by auto
  qed
qed simp

lemma load_file_env_only:
  "load_file cfg path f = Inr cfg' \<Longrightarrow> s \<in> set SETTINGS \<Longrightarrow> st_env_only s \<Longrightarrow> cfg' (st_key s) = cfg (st_key s)"
  by (auto simp: load_file_def split: config_file.splits sum.splits option.splits dest: load_lines_env_only)


subsection \<open>The two scans of the origin list agree\<close>

lemma wildcard_sep: "cors_origins_contains_wildcard (c # s) = cors_origins_contains_wildcard s" if "cors_sep c"
  using that by (subst (1 2) cors_origins_contains_wildcard.simps) simp

lemma wildcard_tl: "cors_origins_contains_wildcard (dropWhile (\<lambda>c. c \<noteq> CHR '','') p) =
    cors_origins_contains_wildcard (tl (dropWhile (\<lambda>c. c \<noteq> CHR '','') p))"
proof (cases "dropWhile (\<lambda>c. c \<noteq> CHR '','') p")
  case (Cons c q)
  then have "c = CHR '',''" using hd_dropWhile [of "\<lambda>c. c \<noteq> CHR '',''" p] by auto
  then show ?thesis using Cons wildcard_sep [of c q] by (simp add: cors_sep_def)
qed (simp only: list.sel)

lemma cors_scan_wildcard:
  assumes "\<not> cors_origins_contains_wildcard cursor"
  shows "cors_scan creds os cursor = Inl e \<Longrightarrow> e = ''too many CORS origins (max 16)''"
  using assms
proof (induction creds os cursor rule: cors_scan.induct)
  case (1 creds os cursor)
  define c1 where "c1 = dropWhile cors_sep cursor"
  define start where "start = rtrim_blank (takeWhile (\<lambda>c. c \<noteq> CHR '','') c1)"
  define c2 where "c2 = tl (dropWhile (\<lambda>c. c \<noteq> CHR '','') c1)"
  note eq = cors_scan.simps [of creds os cursor, unfolded Let_def, folded c1_def, folded start_def, folded c2_def]
  show ?case
  proof (cases "c1 = []")
    case True
    then show ?thesis using 1(3) eq by simp
  next
    case False
    have w: "start \<noteq> ''*''" "\<not> cors_origins_contains_wildcard c2"
      using 1(4) False wildcard_tl [of c1, folded c2_def]
        cors_origins_contains_wildcard.simps [of cursor, unfolded Let_def, folded c1_def, folded start_def] by simp_all
    show ?thesis
      using 1(1) [OF c1_def False start_def c2_def] 1(2) [OF c1_def False start_def c2_def] 1(3) w False eq
      by (auto split: if_splits)
  qed
qed


subsection \<open>Properties\<close>

definition example_secret :: bytes where
  "example_secret = ''0123456789abcdef0123456789abcdef''"

definition example_env :: "bytes \<Rightarrow> bytes option" where
  "example_env k = (if k = ''PS_JWT_SECRET'' then Some example_secret else if k = ''PS_PORT'' then Some ''9000'' else None)"

definition jwt_secret_setting :: ps_setting_t where
  "jwt_secret_setting = setting ''auth.jwt_secret'' ''PS_JWT_SECRET'' T_STR 512 [] True True"

text \<open>The configuration without a file, setting by setting.\<close>

definition effective :: "(bytes \<Rightarrow> bytes option) \<Rightarrow> ps_setting_t \<Rightarrow> bytes" where
  "effective env s = (case env_value env s of Some v \<Rightarrow> v | None \<Rightarrow> st_dflt s)"

definition parses :: "ps_setting_t \<Rightarrow> bytes \<Rightarrow> bool" where
  "parses s v = (case parse_setting s v of Inl e \<Rightarrow> False | Inr x \<Rightarrow> True)"

definition effective_config :: "(bytes \<Rightarrow> bytes option) \<Rightarrow> ps_config_t" where
  "effective_config env k = (case find_by_key k of None \<Rightarrow> None
     | Some s \<Rightarrow> (case parse_setting s (effective env s) of Inl e \<Rightarrow> None | Inr x \<Rightarrow> Some x))"

lemma apply_all_succeeds:
  "(\<And>s v. s \<in> set ss \<Longrightarrow> val s = Some v \<Longrightarrow> parses s v) \<Longrightarrow> \<exists>c. apply_all val ss cfg = Inr c"
proof (induction ss arbitrary: cfg)
  case (Cons s ss)
  show ?case
  proof (cases "val s")
    case None
    then show ?thesis using Cons.IH [of cfg] Cons.prems by simp
  next
    case (Some v)
    then obtain x where "parse_setting s v = Inr x" using Cons.prems [of s v] by (auto simp: parses_def split: sum.splits)
    then show ?thesis using Cons.IH [of "cfg(st_key s \<mapsto> x)"] Cons.prems Some
      by (auto simp: apply_value_def simp del: fun_upd_apply)
  qed
qed simp

lemma effective_config_loaded:
  assumes c0: "apply_all (\<lambda>s. Some (st_dflt s)) SETTINGS Map.empty = Inr c0"
    and c2: "apply_all (env_value env) SETTINGS c0 = Inr cfg"
  shows "cfg = effective_config env"
proof
  fix k
  show "cfg k = effective_config env k"
  proof (cases "find_by_key k")
    case None
    then have no: "s \<in> set SETTINGS \<Longrightarrow> st_key s \<noteq> k" for s by (auto simp: find_by_key_def find_None_iff)
    then have "cfg k = Map.empty k" using apply_all_other [OF c2, of k] apply_all_other [OF c0, of k] by metis
    then show ?thesis using None by (simp add: effective_config_def)
  next
    case (Some s)
    then have s: "s \<in> set SETTINGS" "st_key s = k" by (auto dest: find_by_key_Some)
    show ?thesis
    proof (cases "env_value env s")
      case None
      have "cfg k = c0 k" using apply_all_other [OF c2, of k] None key_inj s by metis
      then show ?thesis using apply_all_value [OF c0 distinct_keys s(1) refl] s(2) Some None
        by (auto simp: effective_config_def effective_def)
    next
      case (Some v)
      then show ?thesis using apply_all_value [OF c2 distinct_keys s(1) Some] s(2) \<open>find_by_key k = Some s\<close>
        by (auto simp: effective_config_def effective_def)
    qed
  qed
qed

lemma load_without_file:
  assumes "list_all (\<lambda>s. parses s (st_dflt s)) SETTINGS" and "list_all (\<lambda>s. parses s (effective env s)) SETTINGS"
    and "ps_config_validate (effective_config env) = None"
  shows "ps_config_load None env = Inr (effective_config env)"
proof -
  obtain c0 where c0: "apply_all (\<lambda>s. Some (st_dflt s)) SETTINGS Map.empty = Inr c0"
    using apply_all_succeeds [of SETTINGS "\<lambda>s. Some (st_dflt s)" Map.empty] assms(1) by (auto simp: list_all_iff)
  obtain c2 where c2: "apply_all (env_value env) SETTINGS c0 = Inr c2"
    using apply_all_succeeds [of SETTINGS "env_value env" c0] assms(2) by (fastforce simp: list_all_iff effective_def)
  show ?thesis using c0 c2 effective_config_loaded [OF c0 c2] assms(3) by (simp add: ps_config_load_def)
qed

lemmas parse_defs = SETTINGS_def setting_def parses_def parse_setting_def parse_long_def parse_bool_def strcasecmp_eq_def
  c_strtoll_def Let_def c_isspace_def c_isdigit_def c_tolower_def digits_val_def digit_val_def in_int64_def
  ps_log_level_from_string_def LEVELS_def

lemma example_defaults: "list_all (\<lambda>s. parses s (st_dflt s)) SETTINGS"
  by (simp add: parse_defs)

lemmas effective_defs = parse_defs effective_config_def find_by_key_def effective_def env_value_def example_env_def

lemma example_secret: "effective_config example_env ''auth.jwt_secret'' = Some (V_str example_secret)"
  by (simp add: effective_defs example_secret_def)

lemma example_ints:
  "effective_config example_env ''auth.access_token_ttl_s'' = Some (V_int 900)"
  "effective_config example_env ''auth.refresh_idle_ttl_s'' = Some (V_int 2592000)"
  "effective_config example_env ''auth.refresh_absolute_ttl_s'' = Some (V_int 7776000)"
  "effective_config example_env ''auth.kdf_iterations'' = Some (V_int 600000)"
  "effective_config example_env ''auth.password_min_length'' = Some (V_int 12)"
  "effective_config example_env ''auth.password_max_length'' = Some (V_int 128)"
  "effective_config example_env ''auth.lockout_threshold'' = Some (V_int 10)"
  "effective_config example_env ''maintenance.batch_size'' = Some (V_int 1000)"
  "effective_config example_env ''ratelimit.max_entries'' = Some (V_int 100000)"
  "effective_config example_env ''http.max_body_bytes'' = Some (V_int 1048576)"
  "effective_config example_env ''http.max_header_bytes'' = Some (V_int 16384)"
  "effective_config example_env ''http.max_request_line'' = Some (V_int 8192)"
  "effective_config example_env ''http.max_header_count'' = Some (V_int 64)"
  by (simp_all add: effective_defs)

lemma example_credentials: "effective_config example_env ''cors.allow_credentials'' = Some (V_bool False)"
  by (simp add: effective_defs)

lemma example_effective: "list_all (\<lambda>s. parses s (effective example_env s)) SETTINGS"
proof -
  have "parses s (effective example_env s)" if s: "s \<in> set SETTINGS" for s
  proof -
    consider (secret) "st_env s = ''PS_JWT_SECRET''" | (port) "st_env s = ''PS_PORT''" | (other) "example_env (st_env s) = None"
      unfolding example_env_def by presburger
    then show ?thesis
    proof cases
      case secret
      then have "st_type s = T_STR" "st_size s = 512" using s by (auto simp: SETTINGS_def setting_def)
      then show ?thesis using secret
        by (simp add: effective_def env_value_def example_env_def parses_def parse_setting_def example_secret_def)
    next
      case port
      then have "st_type s = T_U16" using s by (auto simp: SETTINGS_def setting_def)
      then show ?thesis using port by (simp add: effective_def env_value_def example_env_def parse_defs)
    next
      case other
      then show ?thesis using example_defaults s by (simp add: list_all_iff effective_def env_value_def)
    qed
  qed
  then show ?thesis by (simp add: list_all_iff)
qed

lemma example_valid: "ps_config_validate (effective_config example_env) = None"
  by (simp add: ps_config_validate_def cfg_str_def cfg_int_def cfg_bool_def example_secret example_ints example_credentials
      example_secret_def)

lemmas example_load = load_without_file [OF example_defaults example_effective example_valid]

text \<open>Precedence: in a configuration that is accepted, a setting whose environment variable is set
  has the value of that variable, whatever the file says; and a setting that must come from the
  environment (the signing secret and the bootstrap credentials) has its default when the variable is
  not set, so no file can supply it.\<close>

theorem config_environment_wins:
  assumes "ps_config_load file env = Inr cfg" and "s \<in> set SETTINGS"
  shows "case env_value env s of
      Some v \<Rightarrow> \<exists>x. parse_setting s v = Inr x \<and> cfg (st_key s) = Some x
    | None \<Rightarrow> st_env_only s \<longrightarrow> (\<exists>x. parse_setting s (st_dflt s) = Inr x \<and> cfg (st_key s) = Some x)"
proof -
  from assms(1) obtain c0 c1 where c0: "apply_all (\<lambda>s. Some (st_dflt s)) SETTINGS Map.empty = Inr c0"
    and c1: "(case file of None \<Rightarrow> Inr c0 | Some (path, f) \<Rightarrow> load_file c0 path f) = Inr c1"
    and c2: "apply_all (env_value env) SETTINGS c1 = Inr cfg"
    by (auto simp: ps_config_load_def split: sum.splits option.splits)
  show ?thesis
  proof (cases "env_value env s")
    case None
    have "cfg (st_key s) = c1 (st_key s)"
      using apply_all_other [OF c2, of "st_key s"] None key_inj assms(2) by metis
    moreover have "st_env_only s \<Longrightarrow> c1 (st_key s) = c0 (st_key s)"
      using c1 load_file_env_only assms(2) by (auto split: option.splits)
    ultimately show ?thesis using None apply_all_value [OF c0 distinct_keys assms(2) refl] by simp
  next
    case (Some v)
    then show ?thesis using apply_all_value [OF c2 distinct_keys assms(2) Some] by simp
  qed
qed

theorem config_environment_wins_witness:
  "\<exists>cfg x. ps_config_load None example_env = Inr cfg \<and> cfg ''auth.jwt_secret'' = Some x \<and>
    parse_setting jwt_secret_setting example_secret = Inr x"
proof -
  note cfg = example_load
  have s: "jwt_secret_setting \<in> set SETTINGS" by (simp add: SETTINGS_def jwt_secret_setting_def)
  have "env_value example_env jwt_secret_setting = Some example_secret" by code_simp
  with config_environment_wins [OF cfg s] cfg show ?thesis by (auto simp: jwt_secret_setting_def setting_def)
qed

text \<open>Printing the configuration reveals nothing of a secret but its length: two configurations
  that agree on all other settings and on the lengths of the secrets print the same lines.\<close>

theorem config_print_redacts:
  assumes "\<forall>s \<in> set SETTINGS. if st_secret s then length (cfg_str cfg (st_key s)) = length (cfg_str cfg' (st_key s))
      else cfg (st_key s) = cfg' (st_key s)"
  shows "ps_config_print cfg = ps_config_print cfg'"
proof -
  have "print_value cfg s = print_value cfg' s" if "s \<in> set SETTINGS" for s
  proof (cases "st_secret s")
    case True
    then show ?thesis using assms that by (simp add: print_value_def)
  next
    case False
    then have "cfg (st_key s) = cfg' (st_key s)" using assms that by (meson)
    then have "cfg_str cfg (st_key s) = cfg_str cfg' (st_key s)" "cfg_int cfg (st_key s) = cfg_int cfg' (st_key s)"
      "cfg_bool cfg (st_key s) = cfg_bool cfg' (st_key s)" "cfg_level cfg (st_key s) = cfg_level cfg' (st_key s)"
      by (simp_all add: cfg_str_def cfg_int_def cfg_bool_def cfg_level_def)
    then show ?thesis by (cases "st_type s") (simp_all add: print_value_def False)
  qed
  then show ?thesis by (simp add: ps_config_print_def)
qed

theorem config_print_redacts_witness:
  "ps_config_print [''auth.jwt_secret'' \<mapsto> V_str ''abc''] = ps_config_print [''auth.jwt_secret'' \<mapsto> V_str ''xyz'']"
  by (rule config_print_redacts) (simp add: SETTINGS_def setting_def cfg_str_def)

text \<open>The two checks of the CORS settings agree: with a configuration that passed validation,
  setting up the CORS policy can fail for having too many origins but never for a wildcard origin
  with credentials, which validation has already refused.\<close>

theorem config_cors_consistent:
  assumes "ps_config_validate cfg = None"
    and "ps_cors_policy_init (cfg_str cfg ''cors.allowed_origins'') (cfg_bool cfg ''cors.allow_credentials'') = Inl e"
  shows "e = ''too many CORS origins (max 16)''"
proof (cases "cfg_bool cfg ''cors.allow_credentials''")
  case True
  from assms(1) have "\<not> cors_origins_contains_wildcard (cstr (cfg_str cfg ''cors.allowed_origins''))"
    using True by (auto simp: ps_config_validate_def Let_def split: if_splits)
  then show ?thesis
    using assms(2) by (auto simp: ps_cors_policy_init_def split: sum.splits dest: cors_scan_wildcard)
next
  case False
  have "cors_scan False os c = Inl e \<Longrightarrow> e = ''too many CORS origins (max 16)''" for os c
    by (induction False os c rule: cors_scan.induct) (subst (asm) (3) cors_scan.simps, auto simp: Let_def split: if_splits)
  then show ?thesis using assms(2) False by (auto simp: ps_cors_policy_init_def split: sum.splits)
qed

definition crowded_config :: ps_config_t where
  "crowded_config = (effective_config example_env)
     (''cors.allowed_origins'' \<mapsto> V_str ''a,b,c,d,e,f,g,h,i,j,k,l,m,n,o,p,q'', ''cors.allow_credentials'' \<mapsto> V_bool True)"

theorem config_cors_consistent_witness:
  "\<exists>e. ps_cors_policy_init (cfg_str crowded_config ''cors.allowed_origins'') (cfg_bool crowded_config ''cors.allow_credentials'') = Inl e \<and>
     e = ''too many CORS origins (max 16)''"
proof -
  have f: "cfg_str crowded_config ''cors.allowed_origins'' = ''a,b,c,d,e,f,g,h,i,j,k,l,m,n,o,p,q''"
    "cfg_bool crowded_config ''cors.allow_credentials''"
    by (simp_all add: crowded_config_def cfg_str_def cfg_bool_def)
  have w: "\<not> cors_origins_contains_wildcard (cstr ''a,b,c,d,e,f,g,h,i,j,k,l,m,n,o,p,q'')" by code_simp
  have valid: "ps_config_validate crowded_config = None"
    using w by (simp add: ps_config_validate_def crowded_config_def cfg_str_def cfg_int_def cfg_bool_def
        example_secret example_ints example_secret_def)
  have "case ps_cors_policy_init ''a,b,c,d,e,f,g,h,i,j,k,l,m,n,o,p,q'' True of Inl e \<Rightarrow> True | Inr p \<Rightarrow> False" by code_simp
  then obtain e where e: "ps_cors_policy_init ''a,b,c,d,e,f,g,h,i,j,k,l,m,n,o,p,q'' True = Inl e" by (auto split: sum.splits)
  with config_cors_consistent [OF valid, of e] f show ?thesis by auto
qed

end
