(* ===== verification/Auth_Common.thy ===== *)
theory Auth_Common
  imports User_Store Session Token_Store Audit_Store Validate Conn Config
begin

text \<open>
  What the handlers of \<^verbatim>\<open>src/src/api/auth_api.c\<close> share (its first part), and the context they run in
  (\<^verbatim>\<open>routes.h\<close>). The pool, the semaphore and the rate limiter of the C context are parts of the state,
  the rest is \<open>ps_app_ctx_t\<close>. Log lines are left out, and allocation is taken to succeed.
\<close>

definition PS_RAW_FIELD_MAX :: nat where "PS_RAW_FIELD_MAX = 512"
definition PS_TOKEN_RAW_LEN :: nat where "PS_TOKEN_RAW_LEN = 32"
definition PS_JWT_CLOCK_SKEW_S :: int where "PS_JWT_CLOCK_SKEW_S = 60"
definition PS_JTI_RAW_LEN :: nat where "PS_JTI_RAW_LEN = 16"
definition PS_DEV_MODE_RATE_MULTIPLIER :: int where "PS_DEV_MODE_RATE_MULTIPLIER = 20"

record ps_app_ctx_t =
  ctx_draining :: bool
  ctx_password_denylist :: "bytes list option"
  ctx_config :: ps_config_t


subsection \<open>Results\<close>

definition error_result :: "nat \<Rightarrow> bytes \<Rightarrow> bytes \<Rightarrow> ps_handler_result_t" where
  "error_result status code message =
     \<lparr>hr_status = status, hr_body = Some (ps_error_envelope code message), hr_no_store = True\<rparr>"

definition internal_error_result :: ps_handler_result_t where
  "internal_error_result = \<lparr>hr_status = 500, hr_body = None, hr_no_store = True\<rparr>"

definition ok_result :: "nat \<Rightarrow> json option \<Rightarrow> ps_handler_result_t" where
  "ok_result status body = \<lparr>hr_status = status, hr_body = body, hr_no_store = True\<rparr>"

lemma result_simps [simp]:
  "hr_status (error_result s c m) = s" "hr_status internal_error_result = 500" "hr_status (ok_result s b) = s"
  "hr_body (error_result s c m) = Some (ps_error_envelope c m)" "hr_body internal_error_result = None" "hr_body (ok_result s b) = b"
  by (simp_all add: error_result_def internal_error_result_def ok_result_def)


subsection \<open>Strings and limits\<close>

definition trim_into :: "bytes \<Rightarrow> nat \<Rightarrow> bytes" where
  "trim_into raw out_size = take (out_size - 1) (trim_sp_tab (cstr raw))"

definition lowercase_into :: "bytes \<Rightarrow> nat \<Rightarrow> bytes" where
  "lowercase_into raw out_size = map c_tolower (take (out_size - 1) (cstr raw))"

definition before_last :: "byte \<Rightarrow> bytes \<Rightarrow> bytes" where
  "before_last c s = (if c \<in> set s then rev (tl (dropWhile (\<lambda>x. x \<noteq> c) (rev s))) else s)"

definition peer_ip :: "bytes option \<Rightarrow> bytes" where
  "peer_ip peer_addr =
     (case peer_addr of
        None \<Rightarrow> ''unknown''
      | Some p \<Rightarrow>
          let a = cstr p in
          take (PS_RATELIMIT_KEY_MAX - 1)
            (if a \<noteq> [] \<and> hd a = CHR ''['' \<and> CHR '']'' \<in> set a then takeWhile (\<lambda>c. c \<noteq> CHR '']'') (tl a)
             else before_last CHR '':'' a))"

definition namespaced_ip_key :: "bytes \<Rightarrow> bytes option \<Rightarrow> bytes" where
  "namespaced_ip_key ns peer_addr = take (PS_RATELIMIT_KEY_MAX - 1) (cstr ns @ '':'' @ peer_ip peer_addr)"

definition dev_relaxed_count :: "ps_config_t \<Rightarrow> int \<Rightarrow> int" where
  "dev_relaxed_count cfg configured =
     (if cfg_bool cfg ''server.dev_mode'' then configured * PS_DEV_MODE_RATE_MULTIPLIER else configured)"

definition dev_relaxed_interval_s :: "ps_config_t \<Rightarrow> int \<Rightarrow> int" where
  "dev_relaxed_interval_s cfg configured =
     (if \<not> cfg_bool cfg ''server.dev_mode'' then configured
      else let relaxed = configured div PS_DEV_MODE_RATE_MULTIPLIER in if 0 < relaxed then relaxed else 0)"

definition obj_set_str_n :: "json \<Rightarrow> bytes \<Rightarrow> bytes \<Rightarrow> json" where
  "obj_set_str_n obj key val = ps_json_object_set obj key (JString val)"

definition hex_encode_lower :: "bytes \<Rightarrow> bytes" where
  "hex_encode_lower data = concat (map (\<lambda>b. [''0123456789abcdef'' ! (byte_val b div 16), ''0123456789abcdef'' ! (byte_val b mod 16)]) data)"

definition hex_nibble :: "byte \<Rightarrow> int" where
  "hex_nibble c =
     (if CHR ''0'' \<le> c \<and> c \<le> CHR ''9'' then int (byte_val c) - 48
      else if CHR ''a'' \<le> c \<and> c \<le> CHR ''f'' then int (byte_val c) - 97 + 10
      else - 1)"

fun hex_pairs :: "bytes \<Rightarrow> bytes option" where
  "hex_pairs (h # l # rest) =
     (let hi = hex_nibble h; lo = hex_nibble l in
      if hi < 0 \<or> lo < 0 then None else map_option ((#) (char_of (nat (hi * 16 + lo)))) (hex_pairs rest))"
| "hex_pairs _ = Some []"

text \<open>A shorter text is followed by zero bytes in its buffer.\<close>

definition hex_decode :: "bytes \<Rightarrow> nat \<Rightarrow> bytes option" where
  "hex_decode hex hex_len = (if odd hex_len then None else hex_pairs (take hex_len (hex @ replicate hex_len NUL)))"


subsection \<open>Tokens\<close>

definition access_claims :: "ps_app_ctx_t \<Rightarrow> int64 \<Rightarrow> bytes \<Rightarrow> 32 word \<Rightarrow> int64 \<Rightarrow> bytes \<Rightarrow> ps_jwt_claims_t" where
  "access_claims ctx uid family_id roles now jti_raw = \<lparr>cl_user_id = uid, cl_roles = roles, cl_iat = now, cl_nbf = now,
     cl_exp = now + cfg_int (ctx_config ctx) ''auth.access_token_ttl_s'', cl_jti = hex_encode_lower jti_raw,
     cl_family_id = hex_encode_lower family_id\<rparr>"

definition build_access_token :: "sys \<Rightarrow> ps_app_ctx_t \<Rightarrow> int64 \<Rightarrow> bytes \<Rightarrow> 32 word \<Rightarrow> int64 \<Rightarrow> bytes option io" where
  "build_access_token S ctx uid family_id roles now = do {
     jti \<leftarrow> ps_rand_bytes S PS_JTI_RAW_LEN;
     case jti of
       None \<Rightarrow> ret None
     | Some jti_raw \<Rightarrow>
         ret (ps_jwt_encode (sys_hmac S) (access_claims ctx uid family_id roles now jti_raw)
           (cfg_str (ctx_config ctx) ''auth.jwt_issuer'') (cfg_str (ctx_config ctx) ''auth.jwt_audience'')
           (cstr (cfg_str (ctx_config ctx) ''auth.jwt_secret''))) }"

definition token_pair_body :: "bytes \<Rightarrow> bytes \<Rightarrow> int \<Rightarrow> json" where
  "token_pair_body access_token raw_refresh ttl =
     obj_set_num (obj_set_str (obj_set_str_n (obj_set_str_n (JObject []) ''access_token'' access_token)
       ''refresh_token'' (b64_encode raw_refresh)) ''token_type'' ''Bearer'') ''expires_in'' (double_of_int ttl)"

datatype ps_bearer_result_t = PS_BEARER_OK ps_jwt_claims_t | PS_BEARER_MISSING | PS_BEARER_INVALID

definition ps_auth_authenticate_bearer :: "sys \<Rightarrow> ps_http_request_t \<Rightarrow> ps_app_ctx_t \<Rightarrow> int64 \<Rightarrow> ps_bearer_result_t" where
  "ps_auth_authenticate_bearer S req ctx now =
     (case ps_http_request_header req ''Authorization'' of
        None \<Rightarrow> PS_BEARER_MISSING
      | Some h \<Rightarrow>
          if length (hdr_value h) \<le> 7 \<or> take 7 (hdr_value h) \<noteq> ''Bearer '' then PS_BEARER_MISSING
          else case ps_jwt_verify (sys_hmac S) (drop 7 (hdr_value h)) (cfg_str (ctx_config ctx) ''auth.jwt_issuer'')
                  (cfg_str (ctx_config ctx) ''auth.jwt_audience'') (cstr (cfg_str (ctx_config ctx) ''auth.jwt_secret''))
                  now PS_JWT_CLOCK_SKEW_S of
            PS_JWT_OK c \<Rightarrow> PS_BEARER_OK c
          | _ \<Rightarrow> PS_BEARER_INVALID)"

definition password_hash :: "sys \<Rightarrow> bytes \<Rightarrow> int \<Rightarrow> ps_password_hash_t option io" where
  "password_hash S password iterations = do {
     salt \<leftarrow> ps_rand_bytes S PS_KDF_SALT_LEN;
     ret (ps_password_hash (sys_kdf S) salt password iterations) }"

definition run_dummy_kdf :: "sys \<Rightarrow> int \<Rightarrow> unit io" where
  "run_dummy_kdf S iterations = do { _ \<leftarrow> password_hash S ''dummy-password-for-timing-parity'' iterations; ret () }"


subsection \<open>The request body\<close>

definition string_field :: "json \<Rightarrow> bytes \<Rightarrow> bytes option" where
  "string_field obj key =
     (case ps_json_object_get (Some obj) key of
        None \<Rightarrow> None
      | Some v \<Rightarrow> if ps_json_type (Some v) \<noteq> PS_JSON_STRING then None else ps_json_get_string (Some v))"

definition read_string_field :: "json \<Rightarrow> bytes \<Rightarrow> nat \<Rightarrow> bytes option" where
  "read_string_field obj key out_size =
     (case string_field obj key of
        None \<Rightarrow> None
      | Some s \<Rightarrow> if out_size \<le> length s then None else Some s)"

definition body_object :: "ps_http_request_t \<Rightarrow> json option" where
  "body_object req =
     (case ps_json_parse (case req_body req of None \<Rightarrow> [] | Some b \<Rightarrow> b) 128 of
        Inl e \<Rightarrow> None
      | Inr v \<Rightarrow> if ps_json_type (Some v) \<noteq> PS_JSON_OBJECT then None else Some v)"

text \<open>
  The hash of a token given in base64url, if it decodes to the right number of bytes. The result of
  \<^verbatim>\<open>ps_sha256\<close> is ignored: when it fails, the array is used as it was on the stack.
\<close>

definition presented_hash :: "sys \<Rightarrow> bytes \<Rightarrow> nat \<Rightarrow> bytes option" where
  "presented_hash S raw_token_b64 raw_len =
     (case b64_decode (cstr raw_token_b64) of
        None \<Rightarrow> None
      | Some decoded \<Rightarrow>
          if length decoded \<noteq> raw_len then None
          else Some (case sys_sha256 S decoded of None \<Rightarrow> sys_stack S 32 | Some h \<Rightarrow> h))"


subsection \<open>Verification mails\<close>

definition insert_fresh_token :: "sys \<Rightarrow> ps_app_ctx_t \<Rightarrow> int64 \<Rightarrow> int64 \<Rightarrow> bytes option io" where
  "insert_fresh_token S ctx uid now = do {
     raw \<leftarrow> ps_rand_bytes S PS_TOKEN_RAW_LEN;
     case raw of
       None \<Rightarrow> ret None
     | Some raw_token \<Rightarrow>
         (case sys_sha256 S raw_token of
            None \<Rightarrow> ret None
          | Some token_hash \<Rightarrow> do {
              ok \<leftarrow> ps_token_store_insert S token_hash uid (now + cfg_int (ctx_config ctx) ''auth.verification_ttl_s'') now;
              ret (if ok then Some raw_token else None) }) }"

definition c_div :: "int \<Rightarrow> int \<Rightarrow> int" where
  "c_div a b = sgn a * sgn b * (\<bar>a\<bar> div \<bar>b\<bar>)"

definition verification_text :: "ps_app_ctx_t \<Rightarrow> bytes \<Rightarrow> bytes" where
  "verification_text ctx token_b64 = c_snprintf_s 512
     (''Welcome! To activate your account, submit this verification token to POST /v1/auth/verify:'' @ [LF, LF] @ token_b64 @
      [LF, LF] @ ''This token expires in '' @ show_int (c_div (cfg_int (ctx_config ctx) ''auth.verification_ttl_s'') 3600) @ '' hours.'')"

definition send_verification_email :: "sys \<Rightarrow> ps_app_ctx_t \<Rightarrow> bytes \<Rightarrow> bytes \<Rightarrow> int64 \<Rightarrow> unit io" where
  "send_verification_email S ctx raw_token to_email now = do {
     _ \<leftarrow> ps_mailer_send S \<lparr>mm_to_email = to_email, mm_subject = ''Verify your account'',
       mm_body = verification_text ctx (c_snprintf_s 64 (b64_encode raw_token))\<rparr> now;
     ret () }"

definition pending_verification_body :: json where
  "pending_verification_body = obj_set_str (obj_set_str (JObject []) ''status'' ''PENDING_VERIFICATION'')
     ''message'' ''If this email address is not already registered, a verification link has been sent.''"

definition reason_detail :: "bytes \<Rightarrow> bytes" where
  "reason_detail reason = ''{'' @ [DQ] @ ''reason'' @ [DQ] @ '':'' @ [DQ] @ reason @ [DQ] @ ''}''"

definition notify_duplicate_registration :: "sys \<Rightarrow> bytes \<Rightarrow> bytes option \<Rightarrow> int64 \<Rightarrow> unit io" where
  "notify_duplicate_registration S email_normalized peer_addr now = do {
     existing \<leftarrow> ps_user_store_get_by_email_normalized S email_normalized;
     _ \<leftarrow> ps_audit_store_write S (set_audit_source_ip peer_addr (set_audit_target (map_option us_user_id existing)
       (set_audit_detail (reason_detail ''duplicate_email'') (audit_entry now ''REGISTER'' ''FAILURE''))));
     case existing of
       None \<Rightarrow> ret ()
     | Some u \<Rightarrow> do {
         _ \<leftarrow> ps_mailer_send S \<lparr>mm_to_email = us_email u, mm_subject = ''Registration attempt using your email'',
           mm_body = c_snprintf_s 512 (''Someone attempted to register a new account using your email address ('' @ us_email u @
             ''). If this wasn'' @ [CHR 0x27] @ ''t you, no action is needed -- your existing account is unaffected.'')\<rparr> now;
         ret () } }"

text \<open>
  The common end of a transaction: \<^verbatim>\<open>ROLLBACK\<close> if something failed, \<^verbatim>\<open>COMMIT\<close> otherwise. The result says
  whether it was committed; a failed \<^verbatim>\<open>COMMIT\<close> is not followed by a \<^verbatim>\<open>ROLLBACK\<close>.
\<close>

definition end_tx :: "sys \<Rightarrow> bool \<Rightarrow> bool io" where
  "end_tx S ok = (if \<not> ok then do { sql_rollback; ret False } else sql_commit S)"

text \<open>\<^verbatim>\<open>ok = ok && f(...)\<close>\<close>

definition and_then :: "bool \<Rightarrow> bool io \<Rightarrow> bool io" where
  "and_then ok m = (if ok then m else ret False)"

text \<open>Releasing the connection and answering.\<close>

definition reply :: "ps_handler_result_t \<Rightarrow> ps_handler_result_t io" where
  "reply r = do { ps_db_pool_release; ret r }"


subsection \<open>Resources and transactions of the shared parts\<close>

lemmas common_defs = build_access_token_def run_dummy_kdf_def password_hash_def insert_fresh_token_def
  send_verification_email_def notify_duplicate_registration_def

lemmas token_store_defs = ps_token_store_insert_def ps_token_store_get_by_hash_def ps_token_store_consume_def
  ps_token_store_invalidate_all_for_user_def ps_token_store_count_created_since_def

lemma shift_token_store [shift_intros]:
  "shift 0 0 (ps_token_store_insert S h uid e now)" "shift 0 0 (ps_token_store_get_by_hash S h)"
  "shift 0 0 (ps_token_store_consume S h now)" "shift 0 0 (ps_token_store_invalidate_all_for_user S uid now)"
  "shift 0 0 (ps_token_store_count_created_since S uid since)"
  unfolding token_store_defs by (rule shift_intros)+

lemma shift_common [shift_intros]:
  "shift 0 0 (build_access_token S ctx uid fid roles now)" "shift 0 0 (run_dummy_kdf S n)" "shift 0 0 (password_hash S pw n)"
  "shift 0 0 (insert_fresh_token S ctx uid now)" "shift 0 0 (send_verification_email S ctx raw to now)"
  "shift 0 0 (notify_duplicate_registration S e peer now)" "shift 0 0 (end_tx S ok)"
  "shift 0 0 m \<Longrightarrow> shift 0 0 (and_then ok m)"
  unfolding common_defs end_tx_def and_then_def by (rule shift_intros | assumption)+

lemma shift_reply [shift_intros]: "c = 1 \<Longrightarrow> k = 0 \<Longrightarrow> shift c k (reply r)"
  unfolding reply_def by (rule shift_release_bind shift_done | simp)+

lemma neutral_stores [neutral_intros]:
  "neutral (row_exists S p)" "neutral (exec_ok S f)" "neutral (get_user S q)"
  "neutral (ps_user_store_get_by_id S uid)" "neutral (ps_user_store_get_by_username S name)"
  "neutral (ps_user_store_get_by_email_normalized S email)" "neutral (ps_user_store_get_roles S uid cap)"
  "neutral (ps_user_store_count S)" "neutral (ps_user_store_list_after S after limit)"
  "neutral (ps_user_store_update_status S uid st now)" "neutral (ps_user_store_set_login_failure_state S uid n l now)"
  "neutral (ps_user_store_set_password S uid h salt it now)"
  "neutral (ps_audit_store_write S e)" "neutral (ps_mailer_send S mail now)"
  "neutral (ps_token_store_insert S h uid expires now)" "neutral (ps_token_store_get_by_hash S h)"
  "neutral (ps_token_store_consume S h now)" "neutral (ps_token_store_invalidate_all_for_user S uid now)"
  "neutral (ps_token_store_count_created_since S uid since)"
  unfolding user_reads user_updates token_store_defs exec_ok_def ps_audit_store_write_def ps_mailer_send_def
  by (rule neutral_intros)+

lemma neutral_insert_roles [neutral_intros]: "neutral (insert_roles S uid names)"
  by (induction names) (simp_all, (rule neutral_intros | assumption)+)

lemma neutral_sessions [neutral_intros]:
  "neutral (ps_session_create S uid a i now)" "neutral (ps_session_refresh S h i now)"
  "neutral (ps_session_store_revoke_all_for_user S uid ex c now)" "neutral (ps_session_store_revoke_family S fid c now)"
  "neutral (ps_session_store_get_token S h)" "neutral (ps_session_store_get_family S fid)"
  "neutral (ps_user_store_insert S row names now)"
  unfolding session_defs session_ops ps_user_store_insert_def Let_def by (rule neutral_intros)+

lemma neutral_common [neutral_intros]:
  "neutral (build_access_token S ctx uid fid roles now)" "neutral (run_dummy_kdf S n)" "neutral (password_hash S pw n)"
  "neutral (insert_fresh_token S ctx uid now)" "neutral (send_verification_email S ctx raw to now)"
  "neutral (notify_duplicate_registration S e peer now)" "neutral m \<Longrightarrow> neutral (and_then ok m)"
  unfolding common_defs and_then_def by (rule neutral_intros | assumption)+

lemma tx_reply [tx_intros]: "Q r b \<Longrightarrow> tx b Q (reply r)"
  unfolding reply_def by (rule tx_neutral_bind tx_intros neutral_intros | assumption)+

text \<open>A transaction ends closed, except when the commit fails.\<close>

lemma tx_end_bind:
  assumes "\<And>b'. tx b' Q (f False)" and "b \<Longrightarrow> tx False Q (f True)"
  shows "tx b Q (State_Monad.bind (end_tx S ok) f)"
  using assms
  by (cases b) (auto simp: tx_def in_tx_def end_tx_def sql_commit_def sql_rollback_def tick_def split: prod.splits option.splits)

end
