(* ===== verification/Store_Contract.thy ===== *)
theory Store_Contract
  imports Auth_Common
begin

text \<open>
  The contract between the stores and the handlers about invariants of the database. A property of the
  database is a \<open>store_invariant\<close> when every store operation the handlers call keeps it, whatever
  statements fail and whether or not a transaction is rolled back; what the shared parts of the
  handlers do then keeps it too, and the theories of the handlers extend the list. Most properties
  satisfy the contract because every single statement keeps them (\<open>statement_invariant\<close>).
\<close>

locale store_invariant =
  fixes J :: "db \<Rightarrow> bool"
  assumes J_user_insert: "\<And>S row names now. keeps (db_inv J) (ps_user_store_insert S row names now)"
    and J_update_status: "\<And>S uid st now. keeps (db_inv J) (ps_user_store_update_status S uid st now)"
    and J_login_state: "\<And>S uid n l now. keeps (db_inv J) (ps_user_store_set_login_failure_state S uid n l now)"
    and J_set_password: "\<And>S uid h salt it now. keeps (db_inv J) (ps_user_store_set_password S uid h salt it now)"
    and J_token_insert: "\<And>S h uid e now. keeps (db_inv J) (ps_token_store_insert S h uid e now)"
    and J_token_consume: "\<And>S h now. keeps (db_inv J) (ps_token_store_consume S h now)"
    and J_token_invalidate: "\<And>S uid now. keeps (db_inv J) (ps_token_store_invalidate_all_for_user S uid now)"
    and J_audit: "\<And>S e. keeps (db_inv J) (ps_audit_store_write S e)"
    and J_mail: "\<And>S m now. keeps (db_inv J) (ps_mailer_send S m now)"
    and J_session_create: "\<And>S uid a i now. keeps (db_inv J) (ps_session_create S uid a i now)"
    and J_session_refresh: "\<And>S h i now. keeps (db_inv J) (ps_session_refresh S h i now)"
    and J_revoke_family: "\<And>S fid c now. keeps (db_inv J) (ps_session_store_revoke_family S fid c now)"
    and J_revoke_all: "\<And>S uid ex c now. keeps (db_inv J) (ps_session_store_revoke_all_for_user S uid ex c now)"
begin

lemmas laws = J_user_insert J_update_status J_login_state J_set_password J_token_insert J_token_consume J_token_invalidate
  J_audit J_mail J_session_create J_session_refresh J_revoke_family J_revoke_all

lemma token_reads:
  "keeps (db_inv J) (ps_token_store_get_by_hash S h)" "keeps (db_inv J) (ps_token_store_count_created_since S uid since)"
  unfolding token_store_defs by (rule keep_intros)+

lemma common:
  "keeps (db_inv J) (build_access_token S ctx uid fid roles now)" "keeps (db_inv J) (run_dummy_kdf S n)"
  "keeps (db_inv J) (password_hash S pw n)" "keeps (db_inv J) (insert_fresh_token S ctx uid now)"
  "keeps (db_inv J) (send_verification_email S ctx raw to now)" "keeps (db_inv J) (notify_duplicate_registration S e peer now)"
  "keeps (db_inv J) (end_tx S ok)" "keeps (db_inv J) m \<Longrightarrow> keeps (db_inv J) (and_then ok m)" "keeps (db_inv J) (reply r)"
  unfolding common_defs end_tx_def and_then_def reply_def by (rule laws keep_intros | assumption)+

lemmas rules = laws token_reads common

end

text \<open>What an update of a user row may change.\<close>

definition row_update :: "(user_rec \<Rightarrow> user_rec) \<Rightarrow> bool" where
  "row_update f \<longleftrightarrow> (\<forall>u. ur_user_id (f u) = ur_user_id u \<and> ur_username (f u) = ur_username u \<and> ur_email (f u) = ur_email u \<and>
     ur_email_normalized (f u) = ur_email_normalized u \<and> ur_created_at (f u) = ur_created_at u \<and>
     (ur_status (f u) = ur_status u \<or> (\<exists>st. ur_status (f u) = ps_user_status_to_string st)))"

locale statement_invariant =
  fixes J :: "db \<Rightarrow> bool"
  assumes insert_user_op: "\<And>S row names now. keeps (db_inv J) (ps_user_store_insert S row names now)"
    and update_user: "\<And>d uid f. J d \<Longrightarrow> row_update f \<Longrightarrow> J (update_user uid f d)"
    and insert_evt: "\<And>d h uid e now a d'. J d \<Longrightarrow> insert_evt h uid e now d = Some (a, d') \<Longrightarrow> J d'"
    and update_evts: "\<And>d p now. J d \<Longrightarrow> J (update_evts p now d)"
    and insert_audit: "\<And>d e a d'. J d \<Longrightarrow> insert_audit e d = Some (a, d') \<Longrightarrow> J d'"
    and insert_mail: "\<And>d m now a d'. J d \<Longrightarrow> insert_mail m now d = Some (a, d') \<Longrightarrow> J d'"
    and insert_family: "\<And>d fid uid now e a d'. J d \<Longrightarrow> insert_family fid uid now e d = Some (a, d') \<Longrightarrow> J d'"
    and insert_rt: "\<And>d h fid gen idle now a d'. J d \<Longrightarrow> insert_rt h fid gen idle now d = Some (a, d') \<Longrightarrow> J d'"
    and consume_rt: "\<And>d h now a d'. J d \<Longrightarrow> consume_rt h now d = Some (a, d') \<Longrightarrow> J d'"
    and revoke: "\<And>d p c now a d'. J d \<Longrightarrow> update_families p (revoke_family c now) d = Some (a, d') \<Longrightarrow>
      (\<And>f. p f \<Longrightarrow> sf_revoked_at f = None) \<Longrightarrow> J d'"
begin

lemma families:
  "keeps (db_inv J) (ps_session_store_create_family S fid uid now e)"
  "keeps (db_inv J) (ps_session_store_insert_token S h fid gen idle now)"
  "keeps (db_inv J) (ps_session_store_try_consume_token S h now)"
  unfolding session_ops by (intro keep_intros keeps_sql_exec; erule (1) insert_family insert_rt consume_rt)+

lemma revokes:
  "keeps (db_inv J) (ps_session_store_revoke_family S fid c now)"
  "keeps (db_inv J) (ps_session_store_revoke_all_for_user S uid ex c now)"
  unfolding session_ops by (intro keep_intros keeps_sql_exec; erule (1) revoke; simp)+

end

sublocale statement_invariant \<subseteq> store_invariant J
proof
  fix S :: sys
  fix row and names :: "bytes list" and now uid l e :: int64 and st and n it a i :: int and h salt fid c :: bytes and en m ex
  show "keeps (db_inv J) (ps_user_store_insert S row names now)" by (rule insert_user_op)
  show "keeps (db_inv J) (ps_user_store_update_status S uid st now)"
    "keeps (db_inv J) (ps_user_store_set_login_failure_state S uid n l now)"
    "keeps (db_inv J) (ps_user_store_set_password S uid h salt it now)"
    unfolding user_updates by (rule exec_ok_keeps, erule update_user, auto simp: row_update_def)+
  show "keeps (db_inv J) (ps_token_store_insert S h uid e now)"
    unfolding token_store_defs by (intro keep_intros keeps_sql_exec; erule (1) insert_evt)
  show "keeps (db_inv J) (ps_token_store_consume S h now)" "keeps (db_inv J) (ps_token_store_invalidate_all_for_user S uid now)"
    unfolding token_store_defs by (rule exec_ok_keeps, erule update_evts)+
  show "keeps (db_inv J) (ps_audit_store_write S en)"
    unfolding ps_audit_store_write_def by (intro keep_intros keeps_sql_exec; erule (1) insert_audit)
  show "keeps (db_inv J) (ps_mailer_send S m now)"
    unfolding ps_mailer_send_def by (intro keep_intros keeps_sql_exec; erule (1) insert_mail)
  show "keeps (db_inv J) (ps_session_create S uid a i now)" "keeps (db_inv J) (ps_session_refresh S h i now)"
    unfolding session_defs Let_def by (rule keep_intros families revokes)+
  show "keeps (db_inv J) (ps_session_store_revoke_family S fid c now)"
    "keeps (db_inv J) (ps_session_store_revoke_all_for_user S uid ex c now)"
    by (rule revokes)+
qed


subsection \<open>The invariants of the tables satisfy the contract\<close>

interpretation users: statement_invariant users_ok
proof (unfold_locales, goal_cases)
  case (1 S row names now)
  show ?case by (rule user_insert_keeps)
next
  case (2 d uid f)
  then show ?case by (intro update_user_ok) (auto simp: row_update_def, metis)
qed (auto simp: users_ok_def user_ids_def insert_evt_def update_evts_def insert_audit_def insert_mail_def insert_family_def
    insert_rt_def consume_rt_def update_families_def Let_def split: if_splits)


lemma user_insert_keepsI:
  assumes "\<And>d uid d'. J d \<Longrightarrow> insert_user row now d = Some (uid, d') \<Longrightarrow> J d'"
    and "\<And>d uid name n d'. J d \<Longrightarrow> insert_role uid name d = Some (n, d') \<Longrightarrow> J d'"
  shows "keeps (db_inv J) (ps_user_store_insert S row names now)"
proof -
  have "keeps (db_inv J) (insert_roles S uid ns)" for uid ns
  proof (induction ns)
    case (Cons n ns)
    show ?case by (simp, intro keep_intros keeps_sql_exec Cons.IH; erule (1) assms(2))
  qed (simp add: keep_intros)
  note roles = this
  show ?thesis
    unfolding ps_user_store_insert_def
    by (rule keeps_savepoint_bind)
      (simp_all, (rule keep_intros roles keeps_sql_exec | assumption | (erule (1) assms(1)))+)
qed

lemmas statement_defs = insert_user_def insert_role_def update_user_def insert_evt_def update_evts_def insert_audit_def insert_mail_def
  insert_family_def insert_rt_def consume_rt_def update_families_def Let_def

interpretation sessions: store_invariant sessions_ok
proof (unfold_locales, goal_cases)
  case (1 S row names now)
  show ?case by (rule user_insert_keepsI) (auto simp: sessions_ok_def statement_defs split: if_splits)
next
  case (10 S uid a i now)
  show ?case by (rule create_keeps_ok)
next
  case (11 S h i now)
  show ?case by (rule refresh_keeps_ok)
next
  case (12 S fid c now)
  show ?case by (rule revoke_keeps_ok)
next
  case (13 S uid ex c now)
  show ?case by (rule revoke_keeps_ok)
qed (unfold user_updates token_store_defs ps_audit_store_write_def ps_mailer_send_def,
    (rule keep_intros exec_ok_keeps keeps_sql_exec | auto simp: sessions_ok_def statement_defs split: if_splits)+)

interpretation revoked: statement_invariant "family_revoked fid" for fid
proof (unfold_locales, goal_cases)
  case (1 S row names now)
  show ?case by (rule user_insert_keepsI) (auto simp: family_revoked_def statement_defs split: if_splits)
next
  case (7 d fid' uid now e a d')
  then show ?case by (rule revoked_insert_family)
next
  case (8 d h fid' gen idle now a d')
  then show ?case by (rule revoked_insert_rt)
next
  case (9 d h now a d')
  then show ?case by (rule revoked_consume)
next
  case (10 d p c now a d')
  then show ?case by (rule revoked_revoke)
qed (auto simp: family_revoked_def statement_defs split: if_splits)

text \<open>The audit log only grows, and a user once created keeps the id, username, addresses and creation time.\<close>

definition log_extends :: "audit_rec list \<Rightarrow> db \<Rightarrow> bool" where
  "log_extends old d \<longleftrightarrow> (\<exists>new. db_audit d = old @ new)"

definition identity :: "user_rec \<Rightarrow> int64 \<times> bytes \<times> bytes \<times> bytes \<times> int64" where
  "identity u = (ur_user_id u, ur_username u, ur_email u, ur_email_normalized u, ur_created_at u)"

definition users_persist :: "user_rec list \<Rightarrow> db \<Rightarrow> bool" where
  "users_persist us d \<longleftrightarrow> (\<exists>new. map identity (db_users d) = map identity us @ new)"

interpretation audit_log: statement_invariant "log_extends old" for old
proof (unfold_locales, goal_cases)
  case (1 S row names now)
  show ?case by (rule user_insert_keepsI) (auto simp: log_extends_def statement_defs split: if_splits)
qed (auto simp: log_extends_def statement_defs split: if_splits)

interpretation identities: statement_invariant "users_persist us" for us
proof (unfold_locales, goal_cases)
  case (1 S row names now)
  show ?case by (rule user_insert_keepsI) (auto simp: users_persist_def statement_defs split: if_splits)
next
  case (2 d uid f)
  then have "map identity (db_users (update_user uid f d)) = map identity (db_users d)"
    unfolding update_user_def by (simp add: identity_def row_update_def)
  with 2 show ?case by (simp add: users_persist_def)
qed (auto simp: users_persist_def statement_defs split: if_splits)

text \<open>The remaining primary keys: tokens, mails and audit entries.\<close>

definition keys_ok :: "db \<Rightarrow> bool" where
  "keys_ok d \<longleftrightarrow> distinct (map ev_token_hash (db_evts d)) \<and> distinct (map ml_id (db_outbox d)) \<and> distinct (map au_id (db_audit d))"

interpretation keys: statement_invariant keys_ok
proof (unfold_locales, goal_cases)
  case (1 S row names now)
  show ?case by (rule user_insert_keepsI) (auto simp: keys_ok_def statement_defs split: if_splits)
next
  case (3 d h uid e now a d')
  then show ?case by (auto simp: keys_ok_def insert_evt_def new_evt_def list_ex_iff split: if_splits)
next
  case (5 d e a d')
  then show ?case using next_rowid_fresh [of "map au_id (db_audit d)"] by (auto simp: keys_ok_def insert_audit_def)
next
  case (6 d m now a d')
  then show ?case using next_rowid_fresh [of "map ml_id (db_outbox d)"] by (auto simp: keys_ok_def insert_mail_def)
qed (auto simp: keys_ok_def statement_defs comp_def if_distrib split: if_splits cong: if_cong)

end
