(* ===== verification/Auth_Api.thy ===== *)
theory Auth_Api
  imports Store_Contract
begin

text \<open>
  The authentication handlers (\<^verbatim>\<open>src/src/api/auth_api.c\<close>): register, verify, resend, login, refresh, logout
  and password change, statement by statement in the state monad. A handler that has taken a
  connection ends in \<open>reply\<close>, which gives it back.
\<close>

abbreviation cfg_of :: "ps_app_ctx_t \<Rightarrow> bytes \<Rightarrow> int" where
  "cfg_of ctx k \<equiv> cfg_int (ctx_config ctx) k"

abbreviation too_many_logins :: ps_handler_result_t where
  "too_many_logins \<equiv> error_result 429 ''RATE_LIMITED'' ''too many login attempts; try again later''"

abbreviation not_an_object :: ps_handler_result_t where
  "not_an_object \<equiv> error_result 400 ''BAD_REQUEST'' ''request body must be a JSON object''"


subsection \<open>POST /v1/auth/register\<close>

definition register_row :: "bytes \<Rightarrow> bytes \<Rightarrow> bytes \<Rightarrow> ps_password_hash_t \<Rightarrow> ps_user_row_t" where
  "register_row username raw_email email_normalized h = \<lparr>us_user_id = 0, us_username = c_snprintf_s PS_USERNAME_MAX username,
     us_email = trim_into raw_email PS_EMAIL_MAX, us_email_normalized = c_snprintf_s PS_EMAIL_MAX email_normalized,
     us_password_hash = ph_hash h, us_password_salt = ph_salt h, us_kdf_iters = ph_iterations h,
     us_status = PS_USER_STATUS_PENDING_VERIFICATION, us_failed_logins = 0, us_locked_until = 0, us_created_at = 0,
     us_updated_at = 0\<rparr>"

text \<open>From the connection to the answer.\<close>

definition register_store :: "sys \<Rightarrow> ps_app_ctx_t \<Rightarrow> ps_user_row_t \<Rightarrow> bytes \<Rightarrow> bytes option \<Rightarrow> int64 \<Rightarrow> ps_handler_result_t io" where
  "register_store S ctx row email_normalized peer_addr now = do {
     ps_db_pool_acquire;
     began \<leftarrow> sql_begin S;
     if \<not> began then reply internal_error_result
     else do {
       (result, uid) \<leftarrow> ps_user_store_insert S row [''USER''] now;
       if result = PS_USER_INSERT_DUPLICATE_USERNAME then do {
         sql_rollback;
         reply (error_result 409 ''CONFLICT'' ''username is already taken'') }
       else if result = PS_USER_INSERT_DUPLICATE_EMAIL then do {
         sql_rollback;
         notify_duplicate_registration S email_normalized peer_addr now;
         reply (ok_result 202 (Some pending_verification_body)) }
       else if result \<noteq> PS_USER_INSERT_OK then do { sql_rollback; reply internal_error_result }
       else do {
         token \<leftarrow> insert_fresh_token S ctx uid now;
         case token of
           None \<Rightarrow> do { sql_rollback; reply internal_error_result }
         | Some raw_token \<Rightarrow> do {
             ok \<leftarrow> ps_audit_store_write S (set_audit_source_ip peer_addr (set_audit_target (Some uid)
               (audit_entry now ''REGISTER'' ''SUCCESS'')));
             committed \<leftarrow> end_tx S ok;
             if \<not> committed then reply internal_error_result
             else do {
               send_verification_email S ctx raw_token (us_email row) now;
               reply (ok_result 202 (Some pending_verification_body)) } } } } }"

text \<open>A password the policy does not accept.\<close>

definition policy_refusal :: "ps_app_ctx_t \<Rightarrow> bytes \<Rightarrow> ps_handler_result_t option" where
  "policy_refusal ctx password =
     (let policy = ps_password_policy_check password (cfg_of ctx ''auth.password_min_length'')
        (cfg_of ctx ''auth.password_max_length'') (ctx_password_denylist ctx) in
      if policy = PS_PASSWORD_POLICY_ERROR then Some internal_error_result
      else if policy \<noteq> PS_PASSWORD_POLICY_OK then
        Some (error_result 400 ''WEAK_PASSWORD'' ''password does not meet the policy requirements'')
      else None)"

definition register_checked :: "sys \<Rightarrow> ps_app_ctx_t \<Rightarrow> bytes option \<Rightarrow> bytes \<Rightarrow> bytes \<Rightarrow> bytes \<Rightarrow> ps_handler_result_t io" where
  "register_checked S ctx peer_addr raw_username raw_email password =
     (let (username_result, username) = ps_username_validate raw_username PS_USERNAME_MAX True;
          (email_result, email_normalized) = ps_email_validate raw_email PS_EMAIL_MAX in
      if username_result \<noteq> PS_USERNAME_VALID then ret (error_result 400 ''BAD_REQUEST'' ''username is invalid'')
      else if email_result \<noteq> PS_EMAIL_VALID then ret (error_result 400 ''BAD_REQUEST'' ''email is invalid'')
      else case policy_refusal ctx password of
        Some r \<Rightarrow> ret r
      | None \<Rightarrow> do {
          slot \<leftarrow> kdf_try_acquire;
          if \<not> slot then
            ret (error_result 503 ''SERVICE_UNAVAILABLE'' ''too many concurrent registrations; try again shortly'')
          else do {
            hashed \<leftarrow> password_hash S password (cfg_of ctx ''auth.kdf_iterations'');
            kdf_release;
            case hashed of
              None \<Rightarrow> ret internal_error_result
            | Some h \<Rightarrow> do {
                now \<leftarrow> time_now S;
                register_store S ctx (register_row username raw_email email_normalized h) email_normalized peer_addr now } } })"

definition ps_auth_handle_register :: "sys \<Rightarrow> ps_http_request_t \<Rightarrow> bytes option \<Rightarrow> ps_app_ctx_t \<Rightarrow> ps_handler_result_t io" where
  "ps_auth_handle_register S req peer_addr ctx = do {
     let too_many = error_result 429 ''RATE_LIMITED'' ''too many registration attempts; try again later'';
     ip_ok \<leftarrow> rl_allow S (namespaced_ip_key ''register-ip'' peer_addr)
       (dev_relaxed_count (ctx_config ctx) (cfg_of ctx ''ratelimit.register_per_minute''));
     if \<not> ip_ok then ret too_many
     else do {
       global_ok \<leftarrow> rl_allow S ''register:__global__''
         (dev_relaxed_count (ctx_config ctx) (cfg_of ctx ''ratelimit.register_global_per_minute''));
       if \<not> global_ok then ret too_many
       else case body_object req of
         None \<Rightarrow> ret not_an_object
       | Some body \<Rightarrow>
           (case (read_string_field body ''username'' PS_RAW_FIELD_MAX, read_string_field body ''email'' PS_RAW_FIELD_MAX) of
              (Some raw_username, Some raw_email) \<Rightarrow>
                (case string_field body ''password'' of
                   None \<Rightarrow> ret (error_result 400 ''BAD_REQUEST'' ''password is a required string field'')
                 | Some password \<Rightarrow> register_checked S ctx peer_addr raw_username raw_email password)
            | _ \<Rightarrow> ret (error_result 400 ''BAD_REQUEST'' ''username and email are required string fields'')) } }"


subsection \<open>POST /v1/auth/verify\<close>

abbreviation invalid_verification_token :: ps_handler_result_t where
  "invalid_verification_token \<equiv> error_result 400 ''INVALID_TOKEN'' ''invalid or expired verification token''"

definition ps_auth_handle_verify :: "sys \<Rightarrow> ps_http_request_t \<Rightarrow> bytes option \<Rightarrow> ps_app_ctx_t \<Rightarrow> ps_handler_result_t io" where
  "ps_auth_handle_verify S req peer_addr ctx =
     (case body_object req of
        None \<Rightarrow> ret not_an_object
      | Some body \<Rightarrow>
          (case read_string_field body ''token'' 128 of
             None \<Rightarrow> ret (error_result 400 ''BAD_REQUEST'' ''token is a required string field'')
           | Some raw_token_b64 \<Rightarrow>
               (case presented_hash S raw_token_b64 PS_TOKEN_RAW_LEN of
                  None \<Rightarrow> ret invalid_verification_token
                | Some token_hash \<Rightarrow> do {
                    now \<leftarrow> time_now S;
                    ps_db_pool_acquire;
                    found \<leftarrow> ps_token_store_get_by_hash S token_hash;
                    let usable = (case found of None \<Rightarrow> False | Some t \<Rightarrow> vr_consumed_at t = 0 \<and> now \<le> vr_expires_at t);
                    case (if usable then found else None) of
                      None \<Rightarrow> do {
                        _ \<leftarrow> ps_audit_store_write S (set_audit_source_ip peer_addr (set_audit_target (map_option vr_user_id found)
                          (audit_entry now ''VERIFY'' ''FAILURE'')));
                        reply invalid_verification_token }
                    | Some t \<Rightarrow> do {
                        began \<leftarrow> sql_begin S;
                        if \<not> began then reply internal_error_result
                        else do {
                          ok1 \<leftarrow> ps_token_store_consume S token_hash now;
                          ok2 \<leftarrow> and_then ok1 (ps_user_store_update_status S (vr_user_id t) PS_USER_STATUS_ACTIVE now);
                          ok3 \<leftarrow> and_then ok2 (ps_audit_store_write S (set_audit_source_ip peer_addr (set_audit_target (Some (vr_user_id t))
                            (audit_entry now ''VERIFY'' (if ok2 then ''SUCCESS'' else ''FAILURE'')))));
                          committed \<leftarrow> end_tx S ok3;
                          if \<not> committed then reply internal_error_result
                          else reply (ok_result 200 (Some (obj_set_str (JObject []) ''status'' ''ACTIVE''))) } } })))"


subsection \<open>POST /v1/auth/resend-verification\<close>

definition resend_response_body :: json where
  "resend_response_body = obj_set_str (JObject []) ''message''
     ''If this email address requires verification, a new link has been sent.''"

definition audit_resend :: "sys \<Rightarrow> int64 \<Rightarrow> bytes option \<Rightarrow> int64 option \<Rightarrow> bytes \<Rightarrow> bytes \<Rightarrow> unit io" where
  "audit_resend S now peer_addr uid outcome reason = do {
     _ \<leftarrow> ps_audit_store_write S (set_audit_source_ip peer_addr (set_audit_detail (reason_detail reason)
       (set_audit_target uid (audit_entry now ''RESEND_REQUESTED'' outcome))));
     ret () }"

definition resend_issue :: "sys \<Rightarrow> ps_app_ctx_t \<Rightarrow> ps_user_row_t \<Rightarrow> bytes option \<Rightarrow> int64 \<Rightarrow> ps_handler_result_t io" where
  "resend_issue S ctx user peer_addr now = do {
     began \<leftarrow> sql_begin S;
     if \<not> began then reply internal_error_result
     else do {
       ok1 \<leftarrow> ps_token_store_invalidate_all_for_user S (us_user_id user) now;
       token \<leftarrow> (if ok1 then insert_fresh_token S ctx (us_user_id user) now else ret None);
       let ok2 = (token \<noteq> None);
       ok3 \<leftarrow> and_then ok2 (ps_audit_store_write S (set_audit_source_ip peer_addr (set_audit_target (Some (us_user_id user))
         (audit_entry now ''RESEND_REQUESTED'' (if ok2 then ''SUCCESS'' else ''FAILURE'')))));
       committed \<leftarrow> end_tx S ok3;
       case (if committed then token else None) of
         None \<Rightarrow> reply internal_error_result
       | Some raw_token \<Rightarrow> do {
           send_verification_email S ctx raw_token (us_email user) now;
           reply (ok_result 202 (Some resend_response_body)) } } }"

definition ps_auth_handle_resend_verification ::
    "sys \<Rightarrow> ps_http_request_t \<Rightarrow> bytes option \<Rightarrow> ps_app_ctx_t \<Rightarrow> ps_handler_result_t io" where
  "ps_auth_handle_resend_verification S req peer_addr ctx =
     (case body_object req of
        None \<Rightarrow> ret not_an_object
      | Some body \<Rightarrow>
          (case read_string_field body ''email'' PS_RAW_FIELD_MAX of
             None \<Rightarrow> ret (error_result 400 ''BAD_REQUEST'' ''email is a required string field'')
           | Some raw_email \<Rightarrow>
               (let (email_result, email_normalized) = ps_email_validate raw_email PS_EMAIL_MAX in
                if email_result \<noteq> PS_EMAIL_VALID then ret (error_result 400 ''BAD_REQUEST'' ''email is invalid'')
                else do {
                    now \<leftarrow> time_now S;
                    ps_db_pool_acquire;
                    found \<leftarrow> ps_user_store_get_by_email_normalized S email_normalized;
                    case found of
                      None \<Rightarrow> do {
                        audit_resend S now peer_addr None ''FAILURE'' ''no_such_account'';
                        reply (ok_result 202 (Some resend_response_body)) }
                    | Some user \<Rightarrow>
                        if us_status user \<noteq> PS_USER_STATUS_PENDING_VERIFICATION then do {
                          audit_resend S now peer_addr (Some (us_user_id user)) ''FAILURE'' ''not_pending'';
                          reply (ok_result 202 (Some resend_response_body)) }
                        else do {
                          recent_minute \<leftarrow> ps_token_store_count_created_since S (us_user_id user)
                            (now - dev_relaxed_interval_s (ctx_config ctx) (cfg_of ctx ''ratelimit.resend_min_interval_s''));
                          case recent_minute of
                            None \<Rightarrow> reply internal_error_result
                          | Some minute \<Rightarrow> do {
                              recent_day \<leftarrow> ps_token_store_count_created_since S (us_user_id user) (now - 24 * 60 * 60);
                              case recent_day of
                                None \<Rightarrow> reply internal_error_result
                              | Some day \<Rightarrow>
                                  if 0 < minute \<or>
                                     dev_relaxed_count (ctx_config ctx) (cfg_of ctx ''ratelimit.resend_max_per_day'') \<le> int day
                                  then do {
                                    audit_resend S now peer_addr (Some (us_user_id user)) ''FAILURE'' ''throttled'';
                                    reply (ok_result 202 (Some resend_response_body)) }
                                  else resend_issue S ctx user peer_addr now } } })))"


subsection \<open>POST /v1/auth/login\<close>

definition stored_hash :: "ps_user_row_t \<Rightarrow> ps_password_hash_t" where
  "stored_hash u = \<lparr>ph_salt = us_password_salt u, ph_iterations = us_kdf_iters u, ph_hash = us_password_hash u\<rparr>"

text \<open>Checking a password against the row, or burning the same time on an unknown user.\<close>

definition check_password :: "sys \<Rightarrow> ps_app_ctx_t \<Rightarrow> ps_user_row_t option \<Rightarrow> bytes \<Rightarrow> bool io" where
  "check_password S ctx found password =
     (case found of
        Some u \<Rightarrow> ret (ps_password_verify (sys_kdf S) password (stored_hash u))
      | None \<Rightarrow> do { run_dummy_kdf S (cfg_of ctx ''auth.kdf_iterations''); ret False })"

definition is_locked :: "int64 \<Rightarrow> ps_user_row_t \<Rightarrow> bool" where
  "is_locked now u \<longleftrightarrow> us_locked_until u \<noteq> 0 \<and> now < us_locked_until u"

text \<open>The branch of a login that failed, inside the transaction.\<close>

definition login_failed :: "sys \<Rightarrow> ps_app_ctx_t \<Rightarrow> bytes option \<Rightarrow> int64 \<Rightarrow> ps_user_row_t option \<Rightarrow> bool \<Rightarrow> ps_handler_result_t io" where
  "login_failed S ctx peer_addr now found password_ok = do {
     let locked = (case found of None \<Rightarrow> False | Some u \<Rightarrow> is_locked now u);
     let reason = (if found = None then ''no_such_user'' else if locked then ''locked''
                   else if \<not> password_ok then ''wrong_password'' else ''not_active'');
     (ok1, just_locked) \<leftarrow>
       (case found of
          None \<Rightarrow> ret (True, False)
        | Some u \<Rightarrow>
            if locked \<or> password_ok then ret (True, False)
            else do {
              let failed = us_failed_logins u + 1;
              let locks = (cfg_of ctx ''auth.lockout_threshold'' \<le> failed);
              ok \<leftarrow> ps_user_store_set_login_failure_state S (us_user_id u) failed
                (if locks then now + cfg_of ctx ''auth.lockout_duration_s'' else 0) now;
              ret (ok, locks) });
     ok2 \<leftarrow> and_then ok1 (ps_audit_store_write S (set_audit_source_ip peer_addr (set_audit_detail (reason_detail reason)
       (set_audit_target (map_option us_user_id found) (audit_entry now ''LOGIN'' ''FAILURE'')))));
     ok3 \<leftarrow> (if ok2 \<and> just_locked then
               ps_audit_store_write S (set_audit_source_ip peer_addr (set_audit_target (map_option us_user_id found)
                 (audit_entry now ''ACCOUNT_LOCKED'' ''SUCCESS'')))
             else ret ok2);
     committed \<leftarrow> end_tx S ok3;
     if \<not> committed then reply internal_error_result
     else reply (error_result 401 ''UNAUTHORIZED'' ''invalid username or password'') }"

text \<open>Issuing the pair of tokens, after the commit; the end of login and of refresh.\<close>

definition issue_tokens :: "sys \<Rightarrow> ps_app_ctx_t \<Rightarrow> int64 \<Rightarrow> bytes \<Rightarrow> bytes \<Rightarrow> int64 \<Rightarrow> ps_handler_result_t io" where
  "issue_tokens S ctx uid family_id raw_refresh now = do {
     names \<leftarrow> ps_user_store_get_roles S uid 8;
     token \<leftarrow> (case names of
       None \<Rightarrow> ret None
     | Some (role_names, role_count) \<Rightarrow>
         build_access_token S ctx uid family_id (ps_claims_roles_from_names (take role_count role_names)) now);
     reply (case token of
       None \<Rightarrow> internal_error_result
     | Some access_token \<Rightarrow>
         ok_result 200 (Some (token_pair_body access_token raw_refresh (cfg_of ctx ''auth.access_token_ttl_s'')))) }"

definition login_succeeded :: "sys \<Rightarrow> ps_app_ctx_t \<Rightarrow> bytes option \<Rightarrow> int64 \<Rightarrow> ps_user_row_t \<Rightarrow> ps_handler_result_t io" where
  "login_succeeded S ctx peer_addr now u = do {
     ok1 \<leftarrow> ps_user_store_set_login_failure_state S (us_user_id u) 0 0 now;
     session \<leftarrow> (if ok1 then ps_session_create S (us_user_id u) (cfg_of ctx ''auth.refresh_absolute_ttl_s'')
                    (cfg_of ctx ''auth.refresh_idle_ttl_s'') now
                  else ret None);
     let ok2 = (session \<noteq> None);
     ok3 \<leftarrow> and_then ok2 (ps_audit_store_write S (set_audit_source_ip peer_addr (set_audit_target (Some (us_user_id u))
       (audit_entry now ''LOGIN'' (if ok2 then ''SUCCESS'' else ''FAILURE'')))));
     committed \<leftarrow> end_tx S ok3;
     case (if committed then session else None) of
       None \<Rightarrow> reply internal_error_result
     | Some s \<Rightarrow> issue_tokens S ctx (us_user_id u) (sc_family_id s) (sc_raw_refresh_token s) now }"

definition login_decided :: "sys \<Rightarrow> ps_app_ctx_t \<Rightarrow> bytes option \<Rightarrow> int64 \<Rightarrow> ps_user_row_t option \<Rightarrow> bool \<Rightarrow> ps_handler_result_t io" where
  "login_decided S ctx peer_addr now found password_ok = do {
     began \<leftarrow> sql_begin S;
     if \<not> began then reply internal_error_result
     else case found of
       None \<Rightarrow> login_failed S ctx peer_addr now None password_ok
     | Some u \<Rightarrow>
         if password_ok \<and> us_status u = PS_USER_STATUS_ACTIVE \<and> \<not> is_locked now u
         then login_succeeded S ctx peer_addr now u
         else login_failed S ctx peer_addr now (Some u) password_ok }"

definition ps_auth_handle_login :: "sys \<Rightarrow> ps_http_request_t \<Rightarrow> bytes option \<Rightarrow> ps_app_ctx_t \<Rightarrow> ps_handler_result_t io" where
  "ps_auth_handle_login S req peer_addr ctx = do {
     ip_ok \<leftarrow> rl_allow S (namespaced_ip_key ''login-ip'' peer_addr)
       (dev_relaxed_count (ctx_config ctx) (cfg_of ctx ''ratelimit.login_per_minute''));
     if \<not> ip_ok then ret too_many_logins
     else case body_object req of
       None \<Rightarrow> ret not_an_object
     | Some body \<Rightarrow>
         (case (read_string_field body ''username'' PS_RAW_FIELD_MAX, string_field body ''password'') of
            (Some raw_username, Some password) \<Rightarrow> do {
              name_ok \<leftarrow> rl_allow S (lowercase_into raw_username PS_RATELIMIT_KEY_MAX)
                (dev_relaxed_count (ctx_config ctx) (cfg_of ctx ''ratelimit.login_username_per_minute''));
              if \<not> name_ok then ret too_many_logins
              else do {
                slot \<leftarrow> kdf_try_acquire;
                if \<not> slot then ret (error_result 503 ''SERVICE_UNAVAILABLE'' ''too many concurrent logins; try again shortly'')
                else do {
                  now \<leftarrow> time_now S;
                  ps_db_pool_acquire;
                  found \<leftarrow> ps_user_store_get_by_username S raw_username;
                  password_ok \<leftarrow> check_password S ctx found password;
                  kdf_release;
                  login_decided S ctx peer_addr now found password_ok } } }
          | _ \<Rightarrow> ret (error_result 400 ''BAD_REQUEST'' ''username and password are required string fields'')) }"


subsection \<open>POST /v1/auth/refresh\<close>

abbreviation invalid_refresh_token :: ps_handler_result_t where
  "invalid_refresh_token \<equiv> error_result 401 ''UNAUTHORIZED'' ''invalid or expired refresh token''"

definition refresh_audit :: "ps_session_refresh_result_t \<Rightarrow> ps_session_refreshed_t \<Rightarrow> bytes option \<Rightarrow> int64 \<Rightarrow> ps_audit_entry_t" where
  "refresh_audit result refreshed peer_addr now =
     set_audit_source_ip peer_addr (set_audit_target (if rf_user_id refreshed \<noteq> 0 then Some (rf_user_id refreshed) else None)
       (if result = PS_SESSION_REFRESH_REUSE_DETECTED then audit_entry now ''REFRESH_REUSE_DETECTED'' ''FAILURE''
        else audit_entry now ''TOKEN_REFRESH'' (if result = PS_SESSION_REFRESH_OK then ''SUCCESS'' else ''FAILURE'')))"

definition ps_auth_handle_refresh :: "sys \<Rightarrow> ps_http_request_t \<Rightarrow> bytes option \<Rightarrow> ps_app_ctx_t \<Rightarrow> ps_handler_result_t io" where
  "ps_auth_handle_refresh S req peer_addr ctx =
     (case body_object req of
        None \<Rightarrow> ret not_an_object
      | Some body \<Rightarrow>
          (case read_string_field body ''refresh_token'' 128 of
             None \<Rightarrow> ret (error_result 400 ''BAD_REQUEST'' ''refresh_token is a required string field'')
           | Some raw_token_b64 \<Rightarrow>
               (case presented_hash S raw_token_b64 PS_REFRESH_TOKEN_HASH_LEN of
                  None \<Rightarrow> ret invalid_refresh_token
                | Some token_hash \<Rightarrow> do {
                    now \<leftarrow> time_now S;
                    ps_db_pool_acquire;
                    began \<leftarrow> sql_begin S;
                    if \<not> began then reply internal_error_result
                    else do {
                      (result, refreshed) \<leftarrow> ps_session_refresh S token_hash (cfg_of ctx ''auth.refresh_idle_ttl_s'') now;
                      if result = PS_SESSION_REFRESH_ERROR then do { sql_rollback; reply internal_error_result }
                      else do {
                        ok \<leftarrow> ps_audit_store_write S (refresh_audit result refreshed peer_addr now);
                        committed \<leftarrow> end_tx S ok;
                        if \<not> committed then reply internal_error_result
                        else if result \<noteq> PS_SESSION_REFRESH_OK then reply invalid_refresh_token
                        else issue_tokens S ctx (rf_user_id refreshed) (rf_family_id refreshed)
                               (rf_raw_refresh_token refreshed) now } } })))"


subsection \<open>POST /v1/auth/logout\<close>

text \<open>From the transaction to the answer.\<close>

definition logout_store :: "sys \<Rightarrow> bytes option \<Rightarrow> bytes \<Rightarrow> int64 \<Rightarrow> int64 \<Rightarrow> ps_handler_result_t io" where
  "logout_store S peer_addr family_id uid now = do {
     began \<leftarrow> sql_begin S;
     if \<not> began then reply internal_error_result
     else do {
       ok1 \<leftarrow> ps_session_store_revoke_family S family_id ''LOGOUT'' now;
       ok2 \<leftarrow> and_then ok1 (ps_audit_store_write S (set_audit_source_ip peer_addr
         (set_audit_target (Some uid) (audit_entry now ''LOGOUT'' (if ok1 then ''SUCCESS'' else ''FAILURE'')))));
       committed \<leftarrow> end_tx S ok2;
       if \<not> committed then reply internal_error_result
       else reply (ok_result 204 None) } }"

text \<open>What happens for a token that is stored.\<close>

definition logout_token :: "sys \<Rightarrow> bytes option \<Rightarrow> ps_jwt_claims_t \<Rightarrow> int64 \<Rightarrow> ps_refresh_token_row_t \<Rightarrow> ps_handler_result_t io" where
  "logout_token S peer_addr claims now token_row = do {
     fam \<leftarrow> ps_session_store_get_family S (tr_family_id token_row);
     case fam of
       None \<Rightarrow> reply internal_error_result
     | Some family \<Rightarrow>
         if fr_user_id family \<noteq> cl_user_id claims then
           reply (error_result 403 ''FORBIDDEN'' ''refresh token does not belong to this account'')
         else logout_store S peer_addr (tr_family_id token_row) (fr_user_id family) now }"

definition ps_auth_handle_logout ::
    "sys \<Rightarrow> ps_http_request_t \<Rightarrow> bytes option \<Rightarrow> ps_jwt_claims_t \<Rightarrow> ps_app_ctx_t \<Rightarrow> ps_handler_result_t io" where
  "ps_auth_handle_logout S req peer_addr claims ctx = do {
     now \<leftarrow> time_now S;
     case body_object req of
       None \<Rightarrow> ret not_an_object
     | Some body \<Rightarrow>
         (case read_string_field body ''refresh_token'' 128 of
            None \<Rightarrow> ret (error_result 400 ''BAD_REQUEST'' ''refresh_token is a required string field'')
          | Some raw_token_b64 \<Rightarrow>
              (case presented_hash S raw_token_b64 PS_REFRESH_TOKEN_HASH_LEN of
                 None \<Rightarrow> ret (error_result 400 ''BAD_REQUEST'' ''refresh_token is invalid'')
               | Some token_hash \<Rightarrow> do {
                   ps_db_pool_acquire;
                   found \<leftarrow> ps_session_store_get_token S token_hash;
                   case found of
                     None \<Rightarrow> reply (ok_result 204 None)
                   | Some token_row \<Rightarrow> logout_token S peer_addr claims now token_row })) }"


subsection \<open>POST /v1/auth/password\<close>

definition sessions_revoked_detail :: "nat \<Rightarrow> bytes" where
  "sessions_revoked_detail n = ''{'' @ [DQ] @ ''sessions_revoked'' @ [DQ] @ '':'' @ show_nat n @ ''}''"

definition password_store :: "sys \<Rightarrow> bytes option \<Rightarrow> ps_jwt_claims_t \<Rightarrow> ps_password_hash_t \<Rightarrow> bytes \<Rightarrow> int64 \<Rightarrow> ps_handler_result_t io" where
  "password_store S peer_addr claims new_hash surviving_family_id now = do {
     began \<leftarrow> sql_begin S;
     if \<not> began then reply internal_error_result
     else do {
       ok1 \<leftarrow> ps_user_store_set_password S (cl_user_id claims) (ph_hash new_hash) (ph_salt new_hash) (ph_iterations new_hash) now;
       revoked \<leftarrow> (if ok1 then ps_session_store_revoke_all_for_user S (cl_user_id claims) (Some surviving_family_id)
                      ''PASSWORD_CHANGE'' now
                    else ret None);
       let entry = set_audit_target (Some (cl_user_id claims))
         (audit_entry now ''PASSWORD_CHANGE'' (if revoked \<noteq> None then ''SUCCESS'' else ''FAILURE''));
       ok3 \<leftarrow> (case revoked of
         None \<Rightarrow> ret False
       | Some n \<Rightarrow> ps_audit_store_write S (set_audit_source_ip peer_addr (set_audit_detail (sessions_revoked_detail n) entry)));
       committed \<leftarrow> end_tx S ok3;
       if \<not> committed then reply internal_error_result
       else reply (ok_result 204 None) } }"

definition username_key :: "ps_user_row_t option \<Rightarrow> int64 \<Rightarrow> bytes" where
  "username_key found uid =
     (case found of
        Some u \<Rightarrow> lowercase_into (us_username u) PS_RATELIMIT_KEY_MAX
      | None \<Rightarrow> c_snprintf_s PS_RATELIMIT_KEY_MAX (''uid:'' @ show_int uid))"

text \<open>From the semaphore on: the current password is checked and the new one hashed under one slot.\<close>

definition password_replace ::
    "sys \<Rightarrow> bytes option \<Rightarrow> ps_jwt_claims_t \<Rightarrow> ps_app_ctx_t \<Rightarrow> ps_user_row_t option \<Rightarrow> bytes \<Rightarrow> bytes \<Rightarrow> int64 \<Rightarrow>
     ps_handler_result_t io" where
  "password_replace S peer_addr claims ctx found current_password new_password now = do {
     slot \<leftarrow> kdf_try_acquire;
     if \<not> slot then
       reply (error_result 503 ''SERVICE_UNAVAILABLE'' ''too many concurrent password changes; try again shortly'')
     else do {
       current_ok \<leftarrow> check_password S ctx found current_password;
       hashed \<leftarrow> (if current_ok then password_hash S new_password (cfg_of ctx ''auth.kdf_iterations'') else ret None);
       kdf_release;
       if \<not> current_ok then do {
         _ \<leftarrow> ps_audit_store_write S (set_audit_source_ip peer_addr
           (set_audit_detail (reason_detail ''wrong_current_password'')
             (set_audit_target (Some (cl_user_id claims)) (audit_entry now ''PASSWORD_CHANGE'' ''FAILURE''))));
         reply (error_result 401 ''UNAUTHORIZED'' ''current password is incorrect'') }
       else case hashed of
         None \<Rightarrow> reply internal_error_result
       | Some new_hash \<Rightarrow>
           (case hex_decode (cl_family_id claims) PS_JWT_FAMILY_ID_HEX_LEN of
              None \<Rightarrow> reply internal_error_result
            | Some surviving_family_id \<Rightarrow> password_store S peer_addr claims new_hash surviving_family_id now) } }"

definition ps_auth_handle_password_change ::
    "sys \<Rightarrow> ps_http_request_t \<Rightarrow> bytes option \<Rightarrow> ps_jwt_claims_t \<Rightarrow> ps_app_ctx_t \<Rightarrow> ps_handler_result_t io" where
  "ps_auth_handle_password_change S req peer_addr claims ctx = do {
     now \<leftarrow> time_now S;
     case body_object req of
       None \<Rightarrow> ret not_an_object
     | Some body \<Rightarrow>
         (case (string_field body ''current_password'', string_field body ''new_password'') of
            (Some current_password, Some new_password) \<Rightarrow>
              (case policy_refusal ctx new_password of
                 Some r \<Rightarrow> ret r
               | None \<Rightarrow> do {
                ps_db_pool_acquire;
                found \<leftarrow> ps_user_store_get_by_id S (cl_user_id claims);
                allowed \<leftarrow> rl_allow S (username_key found (cl_user_id claims))
                  (dev_relaxed_count (ctx_config ctx) (cfg_of ctx ''ratelimit.login_username_per_minute''));
                if \<not> allowed then reply (error_result 429 ''RATE_LIMITED'' ''too many attempts; try again later'')
                else password_replace S peer_addr claims ctx found current_password new_password now })
          | _ \<Rightarrow> ret (error_result 400 ''BAD_REQUEST'' ''current_password and new_password are required string fields'')) }"


subsection \<open>Resources\<close>

lemmas handler_parts = register_store_def register_checked_def audit_resend_def resend_issue_def check_password_def
  login_failed_def issue_tokens_def login_succeeded_def login_decided_def password_replace_def password_store_def logout_store_def logout_token_def

lemmas auth_handlers = ps_auth_handle_register_def ps_auth_handle_verify_def ps_auth_handle_resend_verification_def
  ps_auth_handle_login_def ps_auth_handle_refresh_def ps_auth_handle_logout_def ps_auth_handle_password_change_def

lemma shift_auth_handlers [shift_intros]:
  "shift 0 0 (ps_auth_handle_register S req peer ctx)" "shift 0 0 (ps_auth_handle_verify S req peer ctx)"
  "shift 0 0 (ps_auth_handle_resend_verification S req peer ctx)" "shift 0 0 (ps_auth_handle_login S req peer ctx)"
  "shift 0 0 (ps_auth_handle_refresh S req peer ctx)" "shift 0 0 (ps_auth_handle_logout S req peer claims ctx)"
  "shift 0 0 (ps_auth_handle_password_change S req peer claims ctx)"
  unfolding auth_handlers handler_parts by ((rule shift_resources shift_intros shift_done | simp only: Let_def split_beta | simp)+)


subsection \<open>Transactions\<close>

text \<open>Only an internal error leaves a transaction open.\<close>

definition tidy :: "ps_handler_result_t \<Rightarrow> bool \<Rightarrow> bool" where
  "tidy r open_tx \<longleftrightarrow> (open_tx \<longrightarrow> hr_status r = 500)"

lemma tidy_auth_handlers:
  "tx False tidy (ps_auth_handle_register S req peer ctx)" "tx False tidy (ps_auth_handle_verify S req peer ctx)"
  "tx False tidy (ps_auth_handle_resend_verification S req peer ctx)" "tx False tidy (ps_auth_handle_login S req peer ctx)"
  "tx False tidy (ps_auth_handle_refresh S req peer ctx)" "tx False tidy (ps_auth_handle_logout S req peer claims ctx)"
  "tx False tidy (ps_auth_handle_password_change S req peer claims ctx)"
  unfolding auth_handlers handler_parts
  by ((rule tx_commands tx_end_bind tx_intros neutral_intros | simp only: Let_def split_beta | simp add: tidy_def)+)


subsection \<open>Invariants of the database\<close>

context store_invariant
begin

lemma auth_handlers_keep:
  "keeps (db_inv J) (ps_auth_handle_register S req peer ctx)" "keeps (db_inv J) (ps_auth_handle_verify S req peer ctx)"
  "keeps (db_inv J) (ps_auth_handle_resend_verification S req peer ctx)" "keeps (db_inv J) (ps_auth_handle_login S req peer ctx)"
  "keeps (db_inv J) (ps_auth_handle_refresh S req peer ctx)" "keeps (db_inv J) (ps_auth_handle_logout S req peer claims ctx)"
  "keeps (db_inv J) (ps_auth_handle_password_change S req peer claims ctx)"
  unfolding auth_handlers handler_parts by ((rule rules keep_intros | simp only: Let_def split_beta)+)

end

end
