(* ===== verification/Read_Api.thy ===== *)
theory Read_Api
  imports Store_Contract
begin

text \<open>
  The read-only handlers: health (\<^verbatim>\<open>src/src/api/health_api.c\<close>), a user's own record (\<^verbatim>\<open>user_api.c\<close>) and the
  administrator's count and list of users (\<^verbatim>\<open>admin_api.c\<close>), with the parser of identifiers they take
  from \<^verbatim>\<open>routes.c\<close>.
\<close>

definition ps_parse_int64 :: "bytes option \<Rightarrow> int64 option" where
  "ps_parse_int64 text =
     (case text of
        None \<Rightarrow> None
      | Some t \<Rightarrow>
          if t = [] \<or> 32 \<le> length t then None
          else if c_isspace (hd t) then None
          else case c_strtoll (cstr t) of
            None \<Rightarrow> None
          | Some (n, rest) \<Rightarrow> if rest \<noteq> [] \<or> \<not> in_int64 n then None else Some n)"


subsection \<open>Health\<close>

definition status_body :: "nat \<Rightarrow> bytes \<Rightarrow> ps_handler_result_t" where
  "status_body status status_text = \<lparr>hr_status = status,
     hr_body = Some (ps_json_object_set (JObject []) ''status'' (JString (cstr status_text))), hr_no_store = False\<rparr>"

definition ps_health_handle_healthz :: "ps_handler_result_t" where
  "ps_health_handle_healthz = status_body 200 ''ok''"

definition ps_health_handle_readyz :: "ps_app_ctx_t \<Rightarrow> ps_handler_result_t" where
  "ps_health_handle_readyz ctx =
     (if ctx_draining ctx then status_body 503 ''draining'' else status_body 200 ''ok'')"


subsection \<open>GET /v1/users/{userId}\<close>

definition user_write_self :: "ps_user_row_t \<Rightarrow> json" where
  "user_write_self u = obj_set_str (obj_set_str (obj_set_str (JObject []) ''userId'' (show_int (us_user_id u)))
     ''username'' (us_username u)) ''email'' (us_email u)"

definition user_write_admin :: "ps_user_row_t \<Rightarrow> json" where
  "user_write_admin u = obj_set_str (obj_set_str (JObject []) ''userId'' (show_int (us_user_id u)))
     ''username'' (us_username u)"

definition set_audit_actor :: "int64 \<Rightarrow> ps_audit_entry_t \<Rightarrow> ps_audit_entry_t" where
  "set_audit_actor uid e = e\<lparr>ae_actor_user_id := Some uid\<rparr>"

definition ps_user_handle_get_user ::
    "sys \<Rightarrow> bytes option \<Rightarrow> ps_jwt_claims_t \<Rightarrow> int64 \<Rightarrow> ps_handler_result_t io" where
  "ps_user_handle_get_user S peer_addr claims target_user_id = do {
     ps_db_pool_acquire;
     found \<leftarrow> ps_user_store_get_by_id S target_user_id;
     case found of
       None \<Rightarrow> reply (error_result 404 ''NOT_FOUND'' ''no such user'')
     | Some target \<Rightarrow>
         if cl_user_id claims = target_user_id then reply (ok_result 200 (Some (user_write_self target)))
         else do {
           now \<leftarrow> time_now S;
           _ \<leftarrow> ps_audit_store_write S (set_audit_source_ip peer_addr (set_audit_target (Some target_user_id)
             (set_audit_actor (cl_user_id claims) (audit_entry now ''ADMIN_USER_READ'' ''SUCCESS''))));
           reply (ok_result 200 (Some (user_write_admin target))) } }"


subsection \<open>GET /v1/admin/users/count\<close>

definition ps_admin_handle_count_users :: "sys \<Rightarrow> ps_handler_result_t io" where
  "ps_admin_handle_count_users S = do {
     ps_db_pool_acquire;
     count \<leftarrow> ps_user_store_count S;
     reply (case count of
       None \<Rightarrow> internal_error_result
     | Some n \<Rightarrow> ok_result 200 (Some (obj_set_num (JObject []) ''count'' (double_of_int (int n))))) }"


subsection \<open>GET /v1/admin/users\<close>

function query_param_get :: "bytes \<Rightarrow> bytes \<Rightarrow> bytes option" where
  "query_param_get query key =
     (if query = [] then None
      else let pair = takeWhile (\<lambda>c. c \<noteq> CHR ''&'') query;
               this_key = takeWhile (\<lambda>c. c \<noteq> CHR ''='') pair
           in if this_key = key then Some (drop (length this_key + 1) pair)
              else query_param_get (drop (length pair + 1) query) key)"
  by pat_completeness auto
termination
  by (relation "measure (\<lambda>(query, _). length query)") auto

declare query_param_get.simps [simp del]

definition query_get :: "ps_http_request_t \<Rightarrow> bytes \<Rightarrow> bytes option" where
  "query_get req key = (case req_query req of None \<Rightarrow> None | Some q \<Rightarrow> query_param_get q key)"

definition obj_set_bool :: "json \<Rightarrow> bytes \<Rightarrow> bool \<Rightarrow> json" where
  "obj_set_bool obj key val = ps_json_object_set obj key (JBool val)"

definition user_entry :: "int64 \<times> bytes \<Rightarrow> json" where
  "user_entry row = obj_set_str (obj_set_str (JObject []) ''userId'' (show_int (fst row))) ''username'' (snd row)"

definition list_body :: "(int64 \<times> bytes) list \<Rightarrow> int64 \<Rightarrow> int \<Rightarrow> json" where
  "list_body rows after_id limit =
     (let users = foldl ps_json_array_append (JArray []) (map user_entry rows);
          next_after_id = (if rows \<noteq> [] then fst (last rows) else after_id) in
      obj_set_bool (obj_set_str (obj_set_num (ps_json_object_set (JObject []) ''users'' users)
        ''count'' (double_of_int (int (length rows)))) ''nextAfterId'' (show_int next_after_id))
        ''hasMore'' (int (length rows) = limit))"

definition list_detail :: "int64 \<Rightarrow> int \<Rightarrow> bytes" where
  "list_detail after_id limit = ''{'' @ [DQ] @ ''after_id'' @ [DQ] @ '':'' @ show_int after_id @ '','' @ [DQ] @ ''limit'' @ [DQ] @
     '':'' @ show_int limit @ ''}''"

text \<open>The page a request asks for.\<close>

definition list_range :: "ps_http_request_t \<Rightarrow> ps_handler_result_t + (int64 \<times> int)" where
  "list_range req =
     (let bad = (\<lambda>m. Inl (error_result 400 ''BAD_REQUEST'' m)) in
      case (case query_get req ''after_id'' of None \<Rightarrow> Some 0 | Some v \<Rightarrow> ps_parse_int64 (Some v)) of
        None \<Rightarrow> bad ''after_id is invalid''
      | Some after_id \<Rightarrow>
          (case query_get req ''limit'' of
             None \<Rightarrow> Inr (after_id, int PS_USER_LIST_MAX)
           | Some v \<Rightarrow>
               (case ps_parse_int64 (Some v) of
                  None \<Rightarrow> bad ''limit is invalid''
                | Some n \<Rightarrow>
                    if n \<le> 0 then bad ''limit must be positive''
                    else Inr (after_id, if int PS_USER_LIST_MAX < n then int PS_USER_LIST_MAX else n))))"

definition ps_admin_handle_list_users ::
    "sys \<Rightarrow> ps_http_request_t \<Rightarrow> bytes option \<Rightarrow> ps_jwt_claims_t \<Rightarrow> ps_handler_result_t io" where
  "ps_admin_handle_list_users S req peer_addr claims =
     (case list_range req of
        Inl r \<Rightarrow> ret r
      | Inr (after_id, limit) \<Rightarrow> do {
          ps_db_pool_acquire;
          page \<leftarrow> ps_user_store_list_after S after_id limit;
          case page of
            None \<Rightarrow> reply internal_error_result
          | Some (rows, row_count) \<Rightarrow> do {
              now \<leftarrow> time_now S;
              _ \<leftarrow> ps_audit_store_write S (set_audit_source_ip peer_addr (set_audit_detail (list_detail after_id limit)
                (set_audit_actor (cl_user_id claims) (audit_entry now ''ADMIN_USER_LIST'' ''SUCCESS''))));
              reply (ok_result 200 (Some (list_body (take row_count rows) after_id limit))) } })"


subsection \<open>Resources, transactions and invariants\<close>

lemmas read_handlers = ps_user_handle_get_user_def ps_admin_handle_count_users_def ps_admin_handle_list_users_def

lemma shift_sum [shift_intros]: "(\<And>a. shift c k (f a)) \<Longrightarrow> (\<And>b. shift c k (g b)) \<Longrightarrow> shift c k (case x of Inl a \<Rightarrow> f a | Inr b \<Rightarrow> g b)"
  by (cases x) auto

lemma shift_read_handlers [shift_intros]:
  "shift 0 0 (ps_user_handle_get_user S peer claims target)" "shift 0 0 (ps_admin_handle_count_users S)"
  "shift 0 0 (ps_admin_handle_list_users S req peer claims)"
  unfolding read_handlers by ((rule shift_resources shift_intros shift_done | simp)+)

lemma neutral_reply [neutral_intros]: "neutral (reply r)"
  unfolding reply_def by (rule neutral_intros)+

lemma neutral_read_handlers [neutral_intros]:
  "neutral (ps_user_handle_get_user S peer claims target)" "neutral (ps_admin_handle_count_users S)"
  "neutral (ps_admin_handle_list_users S req peer claims)"
  unfolding read_handlers by (rule neutral_intros)+

context store_invariant
begin

lemma read_handlers_keep:
  "keeps (db_inv J) (ps_user_handle_get_user S peer claims target)" "keeps (db_inv J) (ps_admin_handle_count_users S)"
  "keeps (db_inv J) (ps_admin_handle_list_users S req peer claims)"
  unfolding read_handlers by (rule rules keep_intros)+

end

end
