(* ===== verification/Json_Ownership.thy ===== *)
theory Json_Ownership
  imports Json_Heap
begin

text \<open>
  Who owns which block of a JSON value: every operation of \<open>Json_Heap\<close> that fails leaves what it was given with
  its owner, and the parser builds the value \<open>Json\<close> specifies or gives everything back.
\<close>

subsection \<open>Frames\<close>

text \<open>
  \<open>m' |` (- A') = m |` (- A)\<close>: what an operation that turned the footprint \<open>A\<close> into \<open>A'\<close> did to the rest of the
  store. Other values live in the rest, and stay.
\<close>

lemma rep_keep:
  assumes "h' |` (- A') = h |` (- A)" and "rep h v b B" and "A \<inter> B = {}"
  shows "rep h' v b B \<and> A' \<inter> B = {}"
proof -
  have eq: "x \<notin> A' \<and> h' x = h x" if "x \<in> B" for x
    using fun_cong [OF assms(1), of x] that assms(3) rep_dom(1) [OF assms(2)] by (auto simp: restrict_map_def split: if_splits)
  then show ?thesis using rep_frame(1) [OF assms(2), of h'] by blast
qed

lemma restrict_diff: "h' |` (- A') = h |` (- A) \<Longrightarrow> A' \<inter> B = {} \<Longrightarrow> A \<inter> B = {} \<Longrightarrow> h' |` (- (A' \<union> B)) = h |` (- (A \<union> B))"
  by (metis Compl_Un restrict_restrict)

lemma array_parts:
  assumes "rep h (JArray xs) a A"
  obtains items cap as T B where "A = {a} \<union> T \<union> B" "h a = Some (Value (N_array items (length xs) cap))" "table h items cap as T"
    "reps h xs as B" "a \<notin> B" "a \<notin> T" "T \<inter> B = {}" "length as = length xs"
proof -
  from assms obtain items cap as T B where r: "A = {a} \<union> T \<union> B" "h a = Some (Value (N_array items (length xs) cap))"
    "table h items cap as T" "reps h xs as B" "a \<notin> B" "T \<inter> B = {}" by (auto elim: rep_arrayE)
  moreover have "a \<notin> T" using r(2,3) by (auto simp: table_def split: option.splits)
  ultimately show thesis using that reps_length [OF r(4)] by simp
qed

lemma object_parts:
  assumes "rep h (JObject ms) a A"
  obtains keys vals cap ks K as V B where "A = {a} \<union> K \<union> V \<union> set ks \<union> B" "h a = Some (Value (N_object keys vals (length ms) cap))"
    "table h keys cap ks K" "table h vals cap as V" "key_blocks h (map fst ms) ks" "reps h (map snd ms) as B"
    "a \<notin> K \<union> V \<union> set ks \<union> B" "K \<inter> V = {}" "(K \<union> V) \<inter> set ks = {}" "(K \<union> V \<union> set ks) \<inter> B = {}" "length ks = length ms" "length as = length ms"
proof -
  from assms obtain keys vals cap ks K as V B where r: "A = {a} \<union> K \<union> V \<union> set ks \<union> B" "h a = Some (Value (N_object keys vals (length ms) cap))"
    "table h keys cap ks K" "table h vals cap as V" "key_blocks h (map fst ms) ks" "reps h (map snd ms) as B"
    "a \<notin> B" "K \<inter> V = {}" "(K \<union> V \<union> set ks) \<inter> B = {}" by (auto elim: rep_objectE)
  have "\<exists>s. h k = Some (Chars s)" if "k \<in> set ks" for k
    using r(5) that by (auto simp: key_blocks_def list_all2_conv_all_nth in_set_conv_nth)
  moreover have "\<exists>ps. h t = Some (Ptrs ps)" if "t \<in> K \<union> V" for t
    using r(3,4) that by (auto simp: table_def split: option.splits)
  ultimately have "a \<notin> K \<union> V \<union> set ks \<union> B" "(K \<union> V) \<inter> set ks = {}" using r(2,7) by fastforce+
  moreover have "length ks = length ms" "length as = length ms"
    using r(5) reps_length [OF r(6)] by (auto simp: key_blocks_def dest: list_all2_lengthD)
  ultimately show thesis using that r by blast
qed


subsection \<open>Arrays grow\<close>

lemma next_capacity: "cap < next_capacity cap"
  by (simp add: next_capacity_def)

text \<open>\<open>grown m m' A v a\<close>: the value at \<open>a\<close>, whose blocks were \<open>A\<close>, is now \<open>v\<close>, and the rest of the store is as before.\<close>

definition becomes :: "json \<Rightarrow> addr \<Rightarrow> memory \<Rightarrow> addr set \<Rightarrow> memory \<Rightarrow> bool" where
  "becomes v a m A m' \<longleftrightarrow> (\<exists>A'. rep (m_blocks m') v a A' \<and> m_blocks m' |` (- A') = m_blocks m |` (- A))"

definition step_ok :: "(nat \<Rightarrow> bool) \<Rightarrow> memory \<Rightarrow> bool \<Rightarrow> memory \<Rightarrow> bool" where
  "step_ok avail m ok m' \<longleftrightarrow> fresh m' \<and> m_calls m \<le> m_calls m' \<and> (ok \<or> failed avail m m')"

lemma array_reserve_ok:
  assumes rep: "rep (m_blocks m) (JArray xs) a A" and "fresh m"
  shows "\<exists>ok m'. array_reserve avail a m = Some (ok, m') \<and> step_ok avail m ok m' \<and> (\<not> ok \<longrightarrow> m_blocks m' = m_blocks m) \<and>
    (ok \<longrightarrow> becomes (JArray xs) a m A m' \<and> (\<exists>items cap. m_blocks m' a = Some (Value (N_array items (length xs) cap)) \<and> length xs < cap))"
proof -
  from rep obtain items cap as T B where r: "A = {a} \<union> T \<union> B" "m_blocks m a = Some (Value (N_array items (length xs) cap))"
    "table (m_blocks m) items cap as T" "reps (m_blocks m) xs as B" "a \<notin> B" "a \<notin> T" "T \<inter> B = {}" "length as = length xs" by (rule array_parts)
  show ?thesis
  proof (cases "length xs = cap")
    case False
    with r(3,8) have "length xs < cap" by (auto simp: table_def)
    with False r(2) rep assms(2) show ?thesis by (auto simp: array_reserve_def step_ok_def becomes_def)
  next
    case True
    show ?thesis
      using r(3) assms(2) less_imp_le [OF next_capacity [of cap]]
    proof (cases rule: realloc_ptrs_cases [where avail = avail])
      case (1 m1)
      then show ?thesis using True r(2) by (auto simp: array_reserve_def step_ok_def)
    next
      case (2 g m1)
      let ?h = "(m_blocks m1)(a \<mapsto> Value (N_array (Some g) (length xs) (next_capacity cap)))"
      have g: "g \<noteq> a" "g \<notin> B" using 2(2) r(2) rep_dom(2) [OF r(4)] by auto
      have tab: "table ?h (Some g) (next_capacity cap) as {g}" using 2(3) by (rule table_frame) (use g in auto)
      have keep: "m_blocks m1 x = m_blocks m x" if "x \<in> insert a B" for x
        using 2(4) [of x] that g r(6,7) by (cases "x = g"; cases "x \<in> T") auto
      have "reps ?h xs as B" using r(4) by (rule rep_frame) (use keep r(5) in auto)
      then have "rep ?h (JArray xs) a ({a} \<union> {g} \<union> B)" using tab g r(5) by (intro rep_reps.rep_array) auto
      moreover have "?h |` (- ({a} \<union> {g} \<union> B)) = m_blocks m |` (- A)"
        using 2(2,4) r(1) by (auto simp: restrict_map_def fun_eq_iff)
      moreover have "fresh (put_block a (Value (N_array (Some g) (length xs) (next_capacity cap))) m1)"
        using 2(4) [of a] 2(5) g r(2,6) by (auto simp: fresh_def put_block_def)
      ultimately show ?thesis using 2(1,6) True r(2) next_capacity [of cap] unfolding becomes_def
        by (intro exI [of _ True] exI [of _ "put_block a (Value (N_array (Some g) (length xs) (next_capacity cap))) m1"])
          (auto simp: array_reserve_def put_block_def step_ok_def)
    qed
  qed
qed

lemma put_last:
  assumes rep: "rep (m_blocks m) (JArray xs) a A" and b: "rep (m_blocks m) x b B" and "A \<inter> B = {}" and "fresh m"
    and cap: "m_blocks m a = Some (Value (N_array items (length xs) cap))" "length xs < cap"
  shows "\<exists>m'. put_slot items (length xs) b m = Some m' \<and> fresh m' \<and> m_calls m' = m_calls m \<and>
    (let m'' = put_block a (Value (N_array items (length xs + 1) cap)) m' in fresh m'' \<and> m_calls m'' = m_calls m \<and> becomes (JArray (xs @ [x])) a m (A \<union> B) m'')"
proof -
  from rep obtain items' cap' as T C where r: "A = {a} \<union> T \<union> C" "m_blocks m a = Some (Value (N_array items' (length xs) cap'))"
    "table (m_blocks m) items' cap' as T" "reps (m_blocks m) xs as C" "a \<notin> C" "a \<notin> T" "T \<inter> C = {}" "length as = length xs" by (rule array_parts)
  from r(2) cap(1) have same: "items' = items" "cap' = cap" by simp_all
  from table_append [OF r(3), of b] cap(2) r(8) same obtain m1 where m1: "put_slot items (length xs) b m = Some m1"
    "table (m_blocks m1) items cap (as @ [b]) T" "\<And>y. y \<notin> T \<Longrightarrow> m_blocks m1 y = m_blocks m y"
    "dom (m_blocks m1) = dom (m_blocks m)" "m_calls m1 = m_calls m" by auto
  let ?h = "(m_blocks m1)(a \<mapsto> Value (N_array items (length (xs @ [x])) cap))"
  have "table ?h items cap (as @ [b]) T" using m1(2) by (rule table_frame) (use r(6) in auto)
  moreover have "reps ?h (xs @ [x]) (as @ [b]) (C \<union> B)"
  proof (rule reps_append)
    show "reps ?h xs as C" using r(4) by (rule rep_frame) (use m1(3) r(5,7) in auto)
    show "rep ?h x b B" using b by (rule rep_frame) (use m1(3) r(1) assms(3) in auto)
  qed (use r(1) assms(3) in auto)
  ultimately have "rep ?h (JArray (xs @ [x])) a ({a} \<union> T \<union> (C \<union> B))"
    using r(1,5,7) assms(3) by (intro rep_reps.rep_array) auto
  moreover have "?h |` (- ({a} \<union> T \<union> (C \<union> B))) = m_blocks m |` (- (A \<union> B))" using m1(3) r(1) by (auto simp: restrict_map_def fun_eq_iff)
  moreover have "fresh m1" "fresh (put_block a (Value (N_array items (length (xs @ [x])) cap)) m1)"
    using m1(4,5) assms(4) r(2) by (auto simp: fresh_def put_block_def)
  ultimately show ?thesis using m1(1,5) unfolding becomes_def Let_def by (auto simp: put_block_def)
qed

text \<open>An append hands the element to the array, or leaves both as they are.\<close>

lemma array_append_ok:
  assumes rep: "rep (m_blocks m) (JArray xs) a A" and b: "rep (m_blocks m) x b B" and AB: "A \<inter> B = {}" and "fresh m"
  shows "\<exists>ok m'. ps_json_array_append_mem avail a b m = Some (ok, m') \<and> step_ok avail m ok m' \<and> (\<not> ok \<longrightarrow> m_blocks m' = m_blocks m) \<and>
    (ok \<longrightarrow> becomes (JArray (xs @ [x])) a m (A \<union> B) m')"
proof -
  from array_reserve_ok [OF rep assms(4), of avail] obtain ok m1 where 1: "array_reserve avail a m = Some (ok, m1)" "step_ok avail m ok m1"
    "\<not> ok \<Longrightarrow> m_blocks m1 = m_blocks m"
    "ok \<Longrightarrow> becomes (JArray xs) a m A m1 \<and> (\<exists>items cap. m_blocks m1 a = Some (Value (N_array items (length xs) cap)) \<and> length xs < cap)" by blast
  show ?thesis
  proof (cases ok)
    case False
    with 1 show ?thesis by (auto simp: ps_json_array_append_mem_def)
  next
    case True
    with 1(4) obtain A1 items cap where 2: "rep (m_blocks m1) (JArray xs) a A1" "m_blocks m1 |` (- A1) = m_blocks m |` (- A)"
      "m_blocks m1 a = Some (Value (N_array items (length xs) cap))" "length xs < cap" by (auto simp: becomes_def)
    from rep_keep [OF 2(2) b AB] have 3: "rep (m_blocks m1) x b B" "A1 \<inter> B = {}" by simp_all
    have "fresh m1" using 1(2) by (simp add: step_ok_def)
    from put_last [OF 2(1) 3 this 2(3,4)] obtain m2 where 4: "put_slot items (length xs) b m1 = Some m2"
      "fresh (put_block a (Value (N_array items (length xs + 1) cap)) m2)"
      "m_calls (put_block a (Value (N_array items (length xs + 1) cap)) m2) = m_calls m1"
      "becomes (JArray (xs @ [x])) a m1 (A1 \<union> B) (put_block a (Value (N_array items (length xs + 1) cap)) m2)" unfolding Let_def by blast
    from restrict_diff [OF 2(2) 3(2) AB] 4(4) have "becomes (JArray (xs @ [x])) a m (A \<union> B) (put_block a (Value (N_array items (length xs + 1) cap)) m2)"
      by (simp add: becomes_def)
    then show ?thesis using 1(1,2) True 2(3) 4(1-3) by (auto simp: ps_json_array_append_mem_def step_ok_def)
  qed
qed


subsection \<open>Objects grow\<close>

text \<open>The parts of an object but for its own block; the two tables may have different sizes for a while.\<close>

definition obj_parts :: "store \<Rightarrow> (bytes \<times> json) list \<Rightarrow> addr \<Rightarrow> addr option \<Rightarrow> addr option \<Rightarrow> nat \<Rightarrow> nat \<Rightarrow>
    addr list \<Rightarrow> addr set \<Rightarrow> addr list \<Rightarrow> addr set \<Rightarrow> addr set \<Rightarrow> bool" where
  "obj_parts h ms a keys vals kcap vcap ks K as V B \<longleftrightarrow> table h keys kcap ks K \<and> table h vals vcap as V \<and>
     key_blocks h (map fst ms) ks \<and> reps h (map snd ms) as B \<and> a \<notin> K \<union> V \<union> set ks \<union> B \<and> K \<inter> V = {} \<and> (K \<union> V) \<inter> set ks = {} \<and>
     (K \<union> V \<union> set ks) \<inter> B = {} \<and> length ks = length ms \<and> length as = length ms"

lemma rep_obj_parts:
  assumes "rep h (JObject ms) a A"
  obtains keys vals cap ks K as V B where "A = {a} \<union> K \<union> V \<union> set ks \<union> B" "h a = Some (Value (N_object keys vals (length ms) cap))"
    "obj_parts h ms a keys vals cap cap ks K as V B"
  using assms by (rule object_parts) (auto simp: obj_parts_def intro!: that)

lemma table_cap: "table h t n xs T \<Longrightarrow> length xs \<le> cap \<Longrightarrow> cap \<le> n \<Longrightarrow> table h t cap xs T"
  by (cases t) (auto simp: table_def)

lemma obj_parts_rep:
  assumes "obj_parts h ms a keys vals kcap vcap ks K as V B" and "h a = Some (Value (N_object keys vals (length ms) cap))"
    and "length ms \<le> cap" and "cap \<le> kcap" and "cap \<le> vcap"
  shows "rep h (JObject ms) a ({a} \<union> K \<union> V \<union> set ks \<union> B)"
  using assms unfolding obj_parts_def
  by (intro rep_reps.rep_object [where keys = keys and vals = vals and cap = cap and as = as]) (auto intro: table_cap)

lemma obj_parts_frame:
  assumes "obj_parts h ms a keys vals kcap vcap ks K as V B" and "\<And>x. x \<in> K \<union> V \<union> set ks \<union> B \<Longrightarrow> h' x = h x"
  shows "obj_parts h' ms a keys vals kcap vcap ks K as V B"
  using assms unfolding obj_parts_def by (auto elim!: table_frame key_blocks_frame rep_frame)

lemma obj_parts_dom: "obj_parts h ms a keys vals kcap vcap ks K as V B \<Longrightarrow> K \<union> V \<union> set ks \<union> B \<subseteq> dom h"
  by (auto simp: obj_parts_def dest: table_dom key_blocks_dom rep_dom)

lemma obj_parts_keys:
  assumes p: "obj_parts (m_blocks m) ms a keys vals kcap vcap ks K as V B" and "m_blocks m a \<noteq> None"
    and g: "m_blocks m g = None" "table (m_blocks m1) (Some g) n ks {g}" and keep: "\<And>x. x \<noteq> g \<Longrightarrow> m_blocks m1 x = (m_blocks m |` (- K)) x"
  shows "obj_parts (m_blocks m1) ms a (Some g) vals n vcap ks {g} as V B"
proof -
  have new: "g \<notin> V \<union> set ks \<union> B" "g \<noteq> a" using obj_parts_dom [OF p] g(1) assms(2) by auto
  have same: "m_blocks m1 x = m_blocks m x" if "x \<in> V \<union> set ks \<union> B" for x
    using keep [of x] that new(1) p by (cases "x = g"; cases "x \<in> K") (auto simp: obj_parts_def)
  show ?thesis using p g(2) new same unfolding obj_parts_def by (auto elim!: table_frame key_blocks_frame rep_frame)
qed

lemma obj_parts_vals:
  assumes p: "obj_parts (m_blocks m) ms a keys vals kcap vcap ks K as V B" and "m_blocks m a \<noteq> None"
    and g: "m_blocks m g = None" "table (m_blocks m1) (Some g) n as {g}" and keep: "\<And>x. x \<noteq> g \<Longrightarrow> m_blocks m1 x = (m_blocks m |` (- V)) x"
  shows "obj_parts (m_blocks m1) ms a keys (Some g) kcap n ks K as {g} B"
proof -
  have new: "g \<notin> K \<union> set ks \<union> B" "g \<noteq> a" using obj_parts_dom [OF p] g(1) assms(2) by auto
  have same: "m_blocks m1 x = m_blocks m x" if "x \<in> K \<union> set ks \<union> B" for x
    using keep [of x] that new(1) p by (cases "x = g"; cases "x \<in> V") (auto simp: obj_parts_def)
  show ?thesis using p g(2) new same unfolding obj_parts_def by (auto elim!: table_frame key_blocks_frame rep_frame)
qed


lemma obj_parts_node: "obj_parts h ms a keys vals kcap vcap ks K as V B \<Longrightarrow> obj_parts (h(a \<mapsto> b)) ms a keys vals kcap vcap ks K as V B"
  by (frule obj_parts_frame [where h' = "h(a \<mapsto> b)"]) (auto simp: obj_parts_def)

lemma becomes_refl: "rep (m_blocks m) v a A \<Longrightarrow> m_blocks m' = m_blocks m \<Longrightarrow> becomes v a m A m'"
  by (auto simp: becomes_def)

lemma put_block_simps [simp]: "m_blocks (put_block a b m) = (m_blocks m)(a \<mapsto> b)" "m_calls (put_block a b m) = m_calls m"
  by (simp_all add: put_block_def)

lemma fresh_put_block: "fresh m \<Longrightarrow> m_blocks m a \<noteq> None \<Longrightarrow> fresh (put_block a b m)"
  by (auto simp: fresh_def)

lemma step_ok_trans: "step_ok avail m True m1 \<Longrightarrow> step_ok avail m1 ok m2 \<Longrightarrow> step_ok avail m ok m2"
  unfolding step_ok_def using failed_mono [of avail m1 m2 m m2] by auto

lemma becomes_from: "becomes v a m1 A1 m2 \<Longrightarrow> m_blocks m1 |` (- A1) = m_blocks m |` (- A) \<Longrightarrow> becomes v a m A m2"
  by (auto simp: becomes_def)

text \<open>The second half of the reservation: the keys have grown and the object points to them.\<close>

lemma reserve_values:
  assumes p: "obj_parts (m_blocks m) ms a (Some k) vals (next_capacity cap) cap ks {k} as V B"
    and a: "m_blocks m a = Some (Value (N_object (Some k) vals (length ms) cap))" and fr: "fresh m" and full: "length ms = cap"
  shows "\<exists>ok m'. do {
      (new_values, m3) \<leftarrow> realloc_ptrs avail (next_capacity cap) vals m;
      case new_values of
        None \<Rightarrow> Some (False, m3)
      | Some w \<Rightarrow> Some (True, put_block a (Value (N_object (Some k) new_values (length ms) (next_capacity cap))) m3) } = Some (ok, m') \<and>
    step_ok avail m ok m' \<and> becomes (JObject ms) a m ({a} \<union> {k} \<union> V \<union> set ks \<union> B) m' \<and>
    (ok \<longrightarrow> (\<exists>keys vals cap. m_blocks m' a = Some (Value (N_object keys vals (length ms) cap)) \<and> length ms < cap))"
proof -
  note tabs = p [unfolded obj_parts_def]
  have lt: "length ms < next_capacity cap" and le: "cap \<le> next_capacity cap" using next_capacity [of cap] full by simp_all
  have rep: "rep (m_blocks m) (JObject ms) a ({a} \<union> {k} \<union> V \<union> set ks \<union> B)" using full le by (intro obj_parts_rep [OF p a]) auto
  show ?thesis
    using conjunct1 [OF conjunct2 [OF tabs]] fr le
  proof (cases rule: realloc_ptrs_cases [where avail = avail])
    case (1 m3)
    with becomes_refl [OF rep] show ?thesis by (auto simp: step_ok_def)
  next
    case w: (2 w m3)
    let ?m3 = "put_block a (Value (N_object (Some k) (Some w) (length ms) (next_capacity cap))) m3"
    have wa: "a \<noteq> w" using w(2) a by auto
    have a3: "m_blocks m3 a \<noteq> None" using w(4) [OF wa] tabs a by simp
    have p3: "obj_parts (m_blocks ?m3) ms a (Some k) (Some w) (next_capacity cap) (next_capacity cap) ks {k} as {w} B"
      using obj_parts_node [OF obj_parts_vals [OF p _ w(2,3,4)]] a by simp
    have "rep (m_blocks ?m3) (JObject ms) a ({a} \<union> {k} \<union> {w} \<union> set ks \<union> B)"
      using lt by (intro obj_parts_rep [OF p3]) auto
    moreover have "m_blocks ?m3 |` (- ({a} \<union> {k} \<union> {w} \<union> set ks \<union> B)) = m_blocks m |` (- ({a} \<union> {k} \<union> V \<union> set ks \<union> B))"
      using w(2,4) by (auto simp: restrict_map_def fun_eq_iff)
    ultimately have "becomes (JObject ms) a m ({a} \<union> {k} \<union> V \<union> set ks \<union> B) ?m3" unfolding becomes_def by blast
    moreover have "step_ok avail m True ?m3" using w(5,6) a3 by (auto simp: step_ok_def intro: fresh_put_block)
    ultimately show ?thesis using w(1) lt by auto
  qed
qed

lemma object_reserve_ok:
  assumes rep: "rep (m_blocks m) (JObject ms) a A" and fr: "fresh m"
  shows "\<exists>ok m'. object_reserve avail a m = Some (ok, m') \<and> step_ok avail m ok m' \<and> becomes (JObject ms) a m A m' \<and>
    (ok \<longrightarrow> (\<exists>keys vals cap. m_blocks m' a = Some (Value (N_object keys vals (length ms) cap)) \<and> length ms < cap))"
proof -
  from rep obtain keys vals cap ks K as V B where A: "A = {a} \<union> K \<union> V \<union> set ks \<union> B"
    and a: "m_blocks m a = Some (Value (N_object keys vals (length ms) cap))" and p: "obj_parts (m_blocks m) ms a keys vals cap cap ks K as V B"
    by (rule rep_obj_parts)
  note tabs = p [unfolded obj_parts_def]
  have len: "length ms \<le> cap" using tabs by (auto simp: table_def)
  have le: "cap \<le> next_capacity cap" using next_capacity [of cap] by simp
  show ?thesis
  proof (cases "length ms = cap")
    case False
    with a len fr becomes_refl [OF rep] show ?thesis by (auto simp: object_reserve_def step_ok_def)
  next
    case True
    show ?thesis
      using conjunct1 [OF tabs] fr le
    proof (cases rule: realloc_ptrs_cases [where avail = avail])
      case (1 m1)
      with True a becomes_refl [OF rep] show ?thesis by (auto simp: object_reserve_def step_ok_def)
    next
      case (2 k m1)
      have ka: "a \<noteq> k" using 2(2) a by auto
      have a1: "m_blocks m1 a = m_blocks m a" using 2(4) [OF ka] tabs by simp
      let ?m1 = "put_block a (Value (N_object (Some k) vals (length ms) cap)) m1"
      have p1: "obj_parts (m_blocks ?m1) ms a (Some k) vals (next_capacity cap) cap ks {k} as V B"
        using obj_parts_node [OF obj_parts_keys [OF p _ 2(2,3,4)]] a by simp
      have st: "step_ok avail m True ?m1" using 2(5,6) a1 a by (auto simp: step_ok_def intro: fresh_put_block)
      have rest1: "m_blocks ?m1 |` (- ({a} \<union> {k} \<union> V \<union> set ks \<union> B)) = m_blocks m |` (- A)"
        using 2(2,4) A by (auto simp: restrict_map_def fun_eq_iff)
      have call: "object_reserve avail a m = do {
          (new_values, m3) \<leftarrow> realloc_ptrs avail (next_capacity cap) vals ?m1;
          case new_values of
            None \<Rightarrow> Some (False, m3)
          | Some w \<Rightarrow> Some (True, put_block a (Value (N_object (Some k) new_values (length ms) (next_capacity cap))) m3) }"
        using a 2(1) unfolding True [symmetric] by (simp add: object_reserve_def)
      from reserve_values [OF p1 _ _ True, of avail] st show ?thesis
        unfolding call using becomes_from [OF _ rest1] step_ok_trans [OF st] by (auto simp: step_ok_def)
    qed
  qed
qed

lemma cstr_NUL: "NUL \<notin> set k \<Longrightarrow> cstr (k @ [NUL]) = k"
  by (induction k) auto

lemma find_key_ok:
  assumes "key_blocks (m_blocks m) ks as" and "\<And>j. j < length ks \<Longrightarrow> slot m keys (i + j) = Some (as ! j)"
  shows "\<exists>r. find_key m keys key i (length ks) = Some r \<and> (case r of
      None \<Rightarrow> cstr key \<notin> set ks
    | Some l \<Rightarrow> i \<le> l \<and> l - i < length ks \<and> ks ! (l - i) = cstr key \<and> cstr key \<notin> set (take (l - i) ks))"
  using assms
proof (induction ks arbitrary: as i)
  case (Cons k ks)
  then obtain a as' where k: "as = a # as'" "m_blocks m a = Some (Chars (k @ [NUL]))" "NUL \<notin> set k" "key_blocks (m_blocks m) ks as'"
    by (auto simp: key_blocks_def list_all2_Cons1)
  have s: "slot m keys i = Some a" using Cons.prems(2) [of 0] k(1) by simp
  show ?case
  proof (cases "k = cstr key")
    case True
    then show ?thesis using s k by (auto simp: cstr_NUL)
  next
    case False
    have "slot m keys (Suc i + j) = Some (as' ! j)" if "j < length ks" for j using Cons.prems(2) [of "Suc j"] that k(1) by simp
    from Cons.IH [OF k(4) this] obtain r where r: "find_key m keys key (Suc i) (length ks) = Some r"
      "case r of None \<Rightarrow> cstr key \<notin> set ks
       | Some l \<Rightarrow> Suc i \<le> l \<and> l - Suc i < length ks \<and> ks ! (l - Suc i) = cstr key \<and> cstr key \<notin> set (take (l - Suc i) ks)" by blast
    have "l - i = Suc (l - Suc i)" if "Suc i \<le> l" for l using that by simp
    with r False s k(2,3) show ?thesis by (auto simp: cstr_NUL split: option.splits)
  qed
qed auto


lemma key_blocks_append:
  "key_blocks h ks as \<Longrightarrow> h c = Some (Chars (k @ [NUL])) \<Longrightarrow> NUL \<notin> set k \<Longrightarrow> c \<notin> set as \<Longrightarrow> key_blocks h (ks @ [k]) (as @ [c])"
  by (auto simp: key_blocks_def intro!: list_all2_appendI)

lemma obj_parts_append:
  assumes p: "obj_parts (m_blocks m) ms a keys vals cap cap ks K as V B" and len: "length ms < cap"
    and c: "m_blocks m c = Some (Chars (k @ [NUL]))" "NUL \<notin> set k" "c \<notin> insert a (K \<union> V \<union> set ks \<union> B)"
    and x: "rep (m_blocks m) x b D" and D: "D \<inter> insert a (insert c (K \<union> V \<union> set ks \<union> B)) = {}"
  shows "\<exists>m2 m3. put_slot keys (length ms) c m = Some m2 \<and> put_slot vals (length ms) b m2 = Some m3 \<and>
    obj_parts (m_blocks m3) (ms @ [(k, x)]) a keys vals cap cap (ks @ [c]) K (as @ [b]) V (B \<union> D) \<and>
    (\<forall>y. y \<notin> K \<union> V \<longrightarrow> m_blocks m3 y = m_blocks m y) \<and> dom (m_blocks m3) = dom (m_blocks m) \<and> m_calls m3 = m_calls m"
proof -
  note P = p [unfolded obj_parts_def]
  from P have tk: "table (m_blocks m) keys cap ks K" and tv: "table (m_blocks m) vals cap as V" and lens: "length ks = length ms" "length as = length ms"
    and kb: "key_blocks (m_blocks m) (map fst ms) ks" and rs: "reps (m_blocks m) (map snd ms) as B"
    and sep: "K \<inter> V = {}" "(K \<union> V) \<inter> set ks = {}" "(K \<union> V \<union> set ks) \<inter> B = {}" "a \<notin> K \<union> V \<union> set ks \<union> B" by blast+
  from table_append [OF tk, of c] len lens(1) obtain m2 where 2: "put_slot keys (length ms) c m = Some m2" "table (m_blocks m2) keys cap (ks @ [c]) K"
    "\<And>y. y \<notin> K \<Longrightarrow> m_blocks m2 y = m_blocks m y" "dom (m_blocks m2) = dom (m_blocks m)" "m_calls m2 = m_calls m" by auto
  have "table (m_blocks m2) vals cap as V" using tv by (rule table_frame) (use 2(3) sep(1) in auto)
  from table_append [OF this, of b] len lens(2) obtain m3 where 3: "put_slot vals (length ms) b m2 = Some m3" "table (m_blocks m3) vals cap (as @ [b]) V"
    "\<And>y. y \<notin> V \<Longrightarrow> m_blocks m3 y = m_blocks m2 y" "dom (m_blocks m3) = dom (m_blocks m2)" "m_calls m3 = m_calls m2" by auto
  have keep: "m_blocks m3 y = m_blocks m y" if "y \<notin> K \<union> V" for y using 2(3) 3(3) that by simp
  have "table (m_blocks m3) keys cap (ks @ [c]) K" using 2(2) by (rule table_frame) (use 3(3) sep(1) in auto)
  moreover have "key_blocks (m_blocks m3) (map fst ms @ [k]) (ks @ [c])"
  proof (rule key_blocks_append)
    show "key_blocks (m_blocks m3) (map fst ms) ks" using kb by (rule key_blocks_frame) (use keep sep(2) in auto)
  qed (use c keep [of c] in auto)
  moreover have "reps (m_blocks m3) (map snd ms @ [x]) (as @ [b]) (B \<union> D)"
  proof (rule reps_append)
    show "reps (m_blocks m3) (map snd ms) as B" using rs by (rule rep_frame) (use keep sep(3) in auto)
    show "rep (m_blocks m3) x b D" using x by (rule rep_frame) (use keep D in auto)
  qed (use D in auto)
  ultimately show ?thesis using 2(1,4,5) 3(1,2,4,5) keep c(3) D sep lens unfolding obj_parts_def by auto
qed

lemma object_insert_ok:
  assumes rep: "rep (m_blocks m) (JObject ms) a A" and x: "rep (m_blocks m) x b D" and AD: "A \<inter> D = {}" and fr: "fresh m"
    and cap: "m_blocks m a = Some (Value (N_object keys vals (length ms) cap))" "length ms < cap"
  shows "\<exists>ok m'. object_insert avail a key b m = Some (ok, m') \<and> step_ok avail m ok m' \<and> (\<not> ok \<longrightarrow> m_blocks m' = m_blocks m) \<and>
    (ok \<longrightarrow> becomes (JObject (ms @ [(cstr key, x)])) a m (A \<union> D) m')"
proof -
  from rep obtain keys' vals' cap' ks K as V B where A: "A = {a} \<union> K \<union> V \<union> set ks \<union> B"
    and a: "m_blocks m a = Some (Value (N_object keys' vals' (length ms) cap'))" and p': "obj_parts (m_blocks m) ms a keys' vals' cap' cap' ks K as V B"
    by (rule rep_obj_parts)
  from a cap(1) p' have p: "obj_parts (m_blocks m) ms a keys vals cap cap ks K as V B" by simp
  show ?thesis
    using fr
  proof (cases rule: malloc_cases [where avail = avail and b = "Chars (cstr key @ [NUL])"])
    case (1 m1)
    then show ?thesis by (auto simp: object_insert_def step_ok_def)
  next
    case (2 c m1)
    have c: "c \<notin> A" "c \<notin> D" using 2(2) rep_dom(1) [OF rep] rep_dom(1) [OF x] by auto
    have p1: "obj_parts (m_blocks m1) ms a keys vals cap cap ks K as V B" using p by (rule obj_parts_frame) (use 2(3) c A in auto)
    have x1: "rep (m_blocks m1) x b D" using x by (rule rep_frame) (use 2(3) c in auto)
    from obj_parts_append [OF p1 cap(2) _ _ _ x1, of c "cstr key"] 2(3) c AD A obtain m2 m3 where 3: "put_slot keys (length ms) c m1 = Some m2"
      "put_slot vals (length ms) b m2 = Some m3" "obj_parts (m_blocks m3) (ms @ [(cstr key, x)]) a keys vals cap cap (ks @ [c]) K (as @ [b]) V (B \<union> D)"
      "\<And>y. y \<notin> K \<union> V \<Longrightarrow> m_blocks m3 y = m_blocks m1 y" "dom (m_blocks m3) = dom (m_blocks m1)" "m_calls m3 = m_calls m1" by auto
    let ?m = "put_block a (Value (N_object keys vals (length ms + 1) cap)) m3"
    have "rep (m_blocks ?m) (JObject (ms @ [(cstr key, x)])) a ({a} \<union> K \<union> V \<union> set (ks @ [c]) \<union> (B \<union> D))"
      using cap(2) obj_parts_node [OF 3(3)] by (intro obj_parts_rep [where kcap = cap and vcap = cap and cap = cap]) auto
    moreover have "m_blocks ?m |` (- ({a} \<union> K \<union> V \<union> set (ks @ [c]) \<union> (B \<union> D))) = m_blocks m |` (- (A \<union> D))"
      using 2(2,3) 3(4) A by (auto simp: restrict_map_def fun_eq_iff)
    ultimately have "becomes (JObject (ms @ [(cstr key, x)])) a m (A \<union> D) ?m" unfolding becomes_def by blast
    moreover have a1: "m_blocks m1 a = m_blocks m a" "m_blocks m1 a \<noteq> None" using 2(3) c A cap(1) by auto
    moreover have "fresh m3" using 2(4) 3(5,6) by (simp add: fresh_def)
    moreover have "m_blocks m3 a \<noteq> None" using 3(5) a1(2) by (auto simp: domIff)
    ultimately show ?thesis using 2(1,5) 3(1,2,6) cap(1) by (auto simp: object_insert_def step_ok_def intro!: fresh_put_block)
  qed
qed

text \<open>Replacing the value of a key frees the old one.\<close>

lemma object_replace_ok:
  assumes rep: "rep (m_blocks m) (JObject ms) a A" and x: "rep (m_blocks m) x b D" and AD: "A \<inter> D = {}" and fr: "fresh m"
    and cap: "m_blocks m a = Some (Value (N_object keys vals (length ms) cap))" and i: "i < length ms"
  shows "\<exists>old m1 m2. slot m vals i = Some old \<and> ps_json_free (Some old) m = Some m1 \<and> put_slot vals i b m1 = Some m2 \<and>
    fresh m2 \<and> m_calls m2 = m_calls m \<and> becomes (JObject (ms[i := (fst (ms ! i), x)])) a m (A \<union> D) m2"
proof -
  from rep obtain keys' vals' cap' ks K as V B where A: "A = {a} \<union> K \<union> V \<union> set ks \<union> B"
    and a: "m_blocks m a = Some (Value (N_object keys' vals' (length ms) cap'))" and p': "obj_parts (m_blocks m) ms a keys' vals' cap' cap' ks K as V B"
    by (rule rep_obj_parts)
  from a cap p' have p: "obj_parts (m_blocks m) ms a keys vals cap cap ks K as V B" by simp
  note P = p [unfolded obj_parts_def]
  from P have tk: "table (m_blocks m) keys cap ks K" and tv: "table (m_blocks m) vals cap as V" and lens: "length ks = length ms" "length as = length ms"
    and kb: "key_blocks (m_blocks m) (map fst ms) ks" and rs: "reps (m_blocks m) (map snd ms) as B"
    and sep: "K \<inter> V = {}" "(K \<union> V) \<inter> set ks = {}" "(K \<union> V \<union> set ks) \<inter> B = {}" "a \<notin> K \<union> V \<union> set ks \<union> B" by blast+
  from i have "i < length (map snd ms)" by simp
  with rs obtain E C where u: "rep (m_blocks m) (map snd ms ! i) (as ! i) E" "B = E \<union> C" "E \<inter> C = {}"
    "\<forall>h' x b D. (\<forall>y \<in> C. h' y = m_blocks m y) \<longrightarrow> rep h' x b D \<longrightarrow> D \<inter> C = {} \<longrightarrow> reps h' ((map snd ms)[i := x]) (as[i := b]) (D \<union> C)"
    by (rule reps_update)
  let ?m1 = "without E m"
  have tv1: "table (m_blocks ?m1) vals cap as V" using tv by (rule table_frame) (use sep u(2) in \<open>auto simp: restrict_map_def\<close>)
  from table_update [OF tv1, of i b] i lens obtain m2 where 2: "put_slot vals i b ?m1 = Some m2" "table (m_blocks m2) vals cap (as[i := b]) V"
    "\<And>y. y \<notin> V \<Longrightarrow> m_blocks m2 y = m_blocks ?m1 y" "dom (m_blocks m2) = dom (m_blocks ?m1)" "m_calls m2 = m_calls m" by auto
  have keep: "m_blocks m2 y = m_blocks m y" if "y \<notin> V \<union> E" for y using 2(3) that by simp
  have x2: "rep (m_blocks m2) x b D" using x by (rule rep_frame) (use keep AD A u(2) in auto)
  have "m_blocks m2 y = m_blocks m y" if "y \<in> C" for y using keep [of y] that u(2,3) sep by blast
  then have "reps (m_blocks m2) ((map snd ms)[i := x]) (as[i := b]) (D \<union> C)"
    using u(2) AD A by (intro u(4) [rule_format] x2) auto
  moreover have "key_blocks (m_blocks m2) (map fst ms) ks" using kb by (rule key_blocks_frame) (use keep sep u(2) in auto)
  moreover have "table (m_blocks m2) keys cap ks K" using tk by (rule table_frame) (use keep sep u(2) in auto)
  moreover have "map fst (ms[i := (fst (ms ! i), x)]) = map fst ms" "map snd (ms[i := (fst (ms ! i), x)]) = (map snd ms)[i := x]"
    using i by (simp_all add: map_update list_update_same_conv)
  ultimately have "obj_parts (m_blocks m2) (ms[i := (fst (ms ! i), x)]) a keys vals cap cap ks K (as[i := b]) V (D \<union> C)"
    using 2(2) sep lens AD A u(2) unfolding obj_parts_def by auto
  moreover have "m_blocks m2 a = m_blocks m a" using keep [of a] sep u(2) by simp
  ultimately have "rep (m_blocks m2) (JObject (ms[i := (fst (ms ! i), x)])) a ({a} \<union> K \<union> V \<union> set ks \<union> (D \<union> C))"
    using cap tv lens by (intro obj_parts_rep [where kcap = cap and vcap = cap and cap = cap]) (auto simp: table_def)
  moreover have "m_blocks m2 |` (- ({a} \<union> K \<union> V \<union> set ks \<union> (D \<union> C))) = m_blocks m |` (- (A \<union> D))"
    using 2(3) u(2,3) A by (auto simp: restrict_map_def fun_eq_iff)
  ultimately have "becomes (JObject (ms[i := (fst (ms ! i), x)])) a m (A \<union> D) m2" unfolding becomes_def by blast
  moreover have "fresh m2" using fr 2(4,5) by (auto simp: fresh_def)
  ultimately show ?thesis using table_slot [OF tv] i lens ps_json_free_rep [OF u(1)] 2(1,5) by auto
qed

lemma object_set_ok:
  assumes rep: "rep (m_blocks m) (JObject ms) a A" and x: "rep (m_blocks m) x b D" and AD: "A \<inter> D = {}" and fr: "fresh m"
  shows "\<exists>ok m'. ps_json_object_set_mem avail a key b m = Some (ok, m') \<and> step_ok avail m ok m' \<and>
    (\<not> ok \<longrightarrow> becomes (JObject ms) a m A m') \<and> (ok \<longrightarrow> becomes (ps_json_object_set (JObject ms) key x) a m (A \<union> D) m')"
proof -
  from rep obtain keys vals cap ks K as V B where a: "m_blocks m a = Some (Value (N_object keys vals (length ms) cap))"
    and p: "obj_parts (m_blocks m) ms a keys vals cap cap ks K as V B" by (rule rep_obj_parts)
  note P = p [unfolded obj_parts_def]
  from P have kb: "key_blocks (m_blocks m) (map fst ms) ks" and tk: "table (m_blocks m) keys cap ks K" and len: "length ks = length ms" by blast+
  have "slot m keys (0 + j) = Some (ks ! j)" if "j < length (map fst ms)" for j using table_slot [OF tk] that len by simp
  from find_key_ok [OF kb this] obtain r where f: "find_key m keys key 0 (length ms) = Some r"
    and r: "case r of None \<Rightarrow> cstr key \<notin> set (map fst ms)
      | Some l \<Rightarrow> 0 \<le> l \<and> l - 0 < length (map fst ms) \<and> map fst ms ! (l - 0) = cstr key \<and> cstr key \<notin> set (take (l - 0) (map fst ms))"
    by auto
  show ?thesis
  proof (cases r)
    case (Some i)
    with r have i: "i < length ms" "fst (ms ! i) = cstr key" "cstr key \<notin> fst ` set (take i ms)" by (auto simp: take_map)
    from object_replace_ok [OF rep x AD fr a i(1)] members_set_at [OF i] Some f a i(2) show ?thesis
      by (fastforce simp: ps_json_object_set_mem_def step_ok_def)
  next
    case None
    with r have new: "members_set ms (cstr key) x = ms @ [(cstr key, x)]" by (simp add: members_set_fresh)
    from object_reserve_ok [OF rep fr, of avail] obtain ok m1 where 1: "object_reserve avail a m = Some (ok, m1)" "step_ok avail m ok m1"
      "becomes (JObject ms) a m A m1"
      "ok \<Longrightarrow> \<exists>keys vals cap. m_blocks m1 a = Some (Value (N_object keys vals (length ms) cap)) \<and> length ms < cap" by blast
    show ?thesis
    proof (cases ok)
      case False
      with 1 None f a show ?thesis by (auto simp: ps_json_object_set_mem_def)
    next
      case True
      with 1(3,4) obtain A1 keys1 vals1 cap1 where 2: "rep (m_blocks m1) (JObject ms) a A1" "m_blocks m1 |` (- A1) = m_blocks m |` (- A)"
        "m_blocks m1 a = Some (Value (N_object keys1 vals1 (length ms) cap1))" "length ms < cap1" by (auto simp: becomes_def)
      from rep_keep [OF 2(2) x AD] have 3: "rep (m_blocks m1) x b D" "A1 \<inter> D = {}" by simp_all
      have "fresh m1" using 1(2) by (simp add: step_ok_def)
      from object_insert_ok [OF 2(1) 3 this 2(3,4), of avail key] obtain ok2 m2 where 4: "object_insert avail a key b m1 = Some (ok2, m2)"
        "step_ok avail m1 ok2 m2" "\<not> ok2 \<Longrightarrow> m_blocks m2 = m_blocks m1" "ok2 \<Longrightarrow> becomes (JObject (ms @ [(cstr key, x)])) a m1 (A1 \<union> D) m2" by blast
      have call: "ps_json_object_set_mem avail a key b m = Some (ok2, m2)" using None f a 1(1) True 4(1) by (simp add: ps_json_object_set_mem_def)
      have "step_ok avail m ok2 m2" using 1(2) 4(2) True by (auto intro: step_ok_trans)
      then show ?thesis using call 2(1,2) 4(3,4) restrict_diff [OF 2(2) 3(2) AD] new by (auto simp: becomes_def)
    qed
  qed
qed

end
