(* ===== verification/Json_Safety.thy ===== *)
theory Json_Safety
  imports Json_Ownership
begin

text \<open>
  The parser of \<open>Json_Heap\<close> against the one of \<open>Json\<close>, for every pattern of allocation failures.
\<close>

definition yields :: "'a option \<Rightarrow> ('a \<Rightarrow> bool) \<Rightarrow> bool" where
  "yields c P \<longleftrightarrow> (\<exists>y. c = Some y \<and> P y)"

lemma yields_Some [simp]: "yields (Some y) P \<longleftrightarrow> P y"
  by (simp add: yields_def)

lemma yields_bind: "yields c P \<Longrightarrow> (\<And>y. P y \<Longrightarrow> yields (f y) Q) \<Longrightarrow> yields (c \<bind> f) Q"
  by (auto simp: yields_def)

lemma yields_mono: "yields c P \<Longrightarrow> (\<And>y. P y \<Longrightarrow> Q y) \<Longrightarrow> yields c Q"
  by (auto simp: yields_def)

text \<open>
  What a function of the parser promises when it is called in \<open>m\<close> and \<open>h\<close> is the store without what it was
  given: on an error the store is \<open>h\<close> again, and the error is the one of the specification \<open>R\<close>, or memory ran
  out; otherwise the value of \<open>R\<close> is there, and \<open>h\<close> is the rest.
\<close>

definition parsed :: "(nat \<Rightarrow> bool) \<Rightarrow> memory \<Rightarrow> store \<Rightarrow> (perr + json \<times> bytes) \<Rightarrow> (perr + addr \<times> bytes) \<times> memory \<Rightarrow> bool" where
  "parsed avail m h R rm \<longleftrightarrow> fresh (snd rm) \<and> m_calls m \<le> m_calls (snd rm) \<and> (case fst rm of
     Inl e \<Rightarrow> m_blocks (snd rm) = h \<and> (R = Inl e \<or> fst e = ''out of memory'' \<and> failed avail m (snd rm))
   | Inr (a, q) \<Rightarrow> \<exists>v A. R = Inr (v, q) \<and> rep (m_blocks (snd rm)) v a A \<and> m_blocks (snd rm) |` (- A) = h)"

lemma parsed_later: "parsed avail m1 h R rm \<Longrightarrow> m_calls m \<le> m_calls m1 \<Longrightarrow> parsed avail m h R rm"
  unfolding parsed_def using failed_mono [of avail m1 "snd rm" m "snd rm"] by (auto split: sum.splits)

lemma parsed_error:
  "fresh m' \<Longrightarrow> m_calls m \<le> m_calls m' \<Longrightarrow> m_blocks m' = h \<Longrightarrow> R = Inl e \<or> fst e = ''out of memory'' \<and> failed avail m m' \<Longrightarrow>
     parsed avail m h R (Inl e, m')"
  by (simp add: parsed_def)

lemma parsed_value:
  "fresh m' \<Longrightarrow> m_calls m \<le> m_calls m' \<Longrightarrow> rep (m_blocks m') v a A \<Longrightarrow> m_blocks m' |` (- A) = h \<Longrightarrow> R = Inr (v, q) \<Longrightarrow>
     parsed avail m h R (Inr (a, q), m')"
  by (auto simp: parsed_def)


subsection \<open>Strings\<close>

definition buf_held :: "memory \<Rightarrow> store \<Rightarrow> mem_buf \<Rightarrow> bool" where
  "buf_held m h b \<longleftrightarrow> (\<forall>t. mb_data b = Some t \<longrightarrow> m_blocks m t = Some Storage) \<and> m_blocks m |` (- set_option (mb_data b)) = h \<and> buf_ok (mb_buf b)"

lemma free_buf: "buf_held m h b \<Longrightarrow> \<exists>m'. c_free (mb_data b) m = Some m' \<and> m_blocks m' = h \<and> m_calls m' = m_calls m"
  by (cases "mb_data b") (auto simp: buf_held_def c_free_without restrict_map_def simp del: c_free.simps(2))

lemma realloc_storage:
  assumes b: "buf_held m h b" and fr: "fresh m"
  obtains m1 where "c_realloc avail Storage grow_storage (mb_data b) m = Some (None, m1)" "m_blocks m1 = m_blocks m" "step_ok avail m False m1"
  | g m1 where "c_realloc avail Storage grow_storage (mb_data b) m = Some (Some g, m1)" "m_blocks m1 g = Some Storage" "m_blocks m1 |` (- {g}) = h"
      "step_ok avail m True m1"
  using fr
proof (cases rule: malloc_cases [where avail = avail and b = Storage])
  case (1 m1)
  with b that(1) show thesis by (cases "mb_data b") (auto simp: c_realloc_def buf_held_def step_ok_def)
next
  case (2 g m1)
  show thesis
  proof (cases "mb_data b")
    case None
    with b 2 that(2) show thesis by (auto simp: c_realloc_def buf_held_def step_ok_def restrict_map_def fun_eq_iff)
  next
    case (Some t)
    with b have t: "m_blocks m t = Some Storage" by (simp add: buf_held_def)
    with 2(2) have "t \<noteq> g" by auto
    then have "c_realloc avail Storage grow_storage (mb_data b) m = Some (Some g, without {t} m1)" "m_blocks (without {t} m1) g = Some Storage"
      using Some t 2(1,3) by (simp_all add: c_realloc_def c_free_without restrict_map_def del: c_free.simps(2))
    moreover have "h = m_blocks m |` (- {t})" using b Some by (simp add: buf_held_def)
    then have "m_blocks (without {t} m1) |` (- {g}) = h" using 2(2,3) by (auto simp: restrict_map_def fun_eq_iff)
    ultimately show thesis using that(2) 2(4,5) by (auto simp: step_ok_def)
  qed
qed

lemma ensure_capacity_mem_ok:
  assumes b: "buf_held m h b" and fr: "fresh m" and len: "length (buf_data (mb_buf b)) + additional \<le> 2 ^ 63"
  shows "yields (ensure_capacity_mem avail b additional m) (\<lambda>(ok, b', m'). step_ok avail m ok m' \<and> buf_held m' h b' \<and>
    buf_data (mb_buf b') = buf_data (mb_buf b) \<and> (ok \<longrightarrow> length (buf_data (mb_buf b)) + additional \<le> buf_cap (mb_buf b')))"
proof -
  let ?len = "length (buf_data (mb_buf b))" and ?cap = "buf_cap (mb_buf b)"
  have ok: "?len \<le> ?cap" "?cap < 2 ^ 64" using b by (auto simp: buf_held_def buf_ok_def)
  have "(?cap + (2 ^ 64 - ?len)) mod 2 ^ 64 = ?cap - ?len"
  proof -
    have "?cap + (2 ^ 64 - ?len) = (?cap - ?len) + 2 ^ 64" using ok by simp
    then show ?thesis using ok by (simp only: mod_add_self2) simp
  qed
  note room = this
  show ?thesis
  proof (cases "additional \<le> ?cap - ?len")
    case True
    with room b fr ok show ?thesis by (simp add: ensure_capacity_mem_def Let_def step_ok_def)
  next
    case False
    have need: "(?len + additional) mod 2 ^ 64 = ?len + additional" using len by simp
    have "0 < (if ?cap = 0 then 256 else ?cap)" "(if ?cap = 0 then 256 else ?cap) < 2 ^ 64" using ok by simp_all
    from grow_cap_terminates [OF this(1) len this(2)] obtain c where
      c: "grow_cap (if ?cap = 0 then 256 else ?cap) (?len + additional) = Some c" "?len + additional \<le> c" "c < 2 ^ 64" by blast
    show ?thesis
      using b fr
    proof (cases rule: realloc_storage [where avail = avail])
      case (1 m1)
      then show ?thesis using False room need c b by (simp add: ensure_capacity_mem_def Let_def buf_held_def)
    next
      case (2 g m1)
      then show ?thesis using False room need c by (simp add: ensure_capacity_mem_def Let_def buf_held_def buf_ok_def)
    qed
  qed
qed

lemma buf_append_ok:
  assumes "buf_held m h b" and "fresh m" and "length (buf_data (mb_buf b)) + length d \<le> 2 ^ 63"
  shows "yields (ps_buf_append_mem avail b d m) (\<lambda>(ok, b', m'). step_ok avail m ok m' \<and> buf_held m' h b' \<and>
    (ok \<longrightarrow> buf_data (mb_buf b') = buf_data (mb_buf b) @ d))"
proof (cases "d = []")
  case True
  with assms show ?thesis by (simp add: ps_buf_append_mem_def step_ok_def)
next
  case False
  show ?thesis unfolding ps_buf_append_mem_def if_not_P [OF False]
    by (rule yields_bind [OF ensure_capacity_mem_ok [OF assms]]) (auto simp: buf_held_def buf_ok_def)
qed

lemma string_fail_ok:
  assumes "buf_held m h b" and "fresh m"
  shows "\<exists>m'. string_fail e b m = Some (Inl e, m') \<and> m_blocks m' = h \<and> fresh m' \<and> m_calls m' = m_calls m"
proof -
  from free_buf [OF assms(1)] obtain m' where "c_free (mb_data b) m = Some m'" "m_blocks m' = h" "m_calls m' = m_calls m" by blast
  moreover have "dom h \<subseteq> dom (m_blocks m)" using assms(1) by (auto simp: buf_held_def restrict_map_def split: if_splits)
  ultimately show ?thesis using assms(2) by (auto simp: string_fail_def fresh_def)
qed

definition chars_read :: "(nat \<Rightarrow> bool) \<Rightarrow> memory \<Rightarrow> store \<Rightarrow> (perr + bytes \<times> bytes) \<Rightarrow> (perr + mem_buf \<times> bytes) \<times> memory \<Rightarrow> bool" where
  "chars_read avail m h R rm \<longleftrightarrow> fresh (snd rm) \<and> m_calls m \<le> m_calls (snd rm) \<and> (case fst rm of
     Inl e \<Rightarrow> m_blocks (snd rm) = h \<and> (R = Inl e \<or> fst e = ''out of memory'' \<and> failed avail m (snd rm))
   | Inr (b, q) \<Rightarrow> R = Inr (buf_data (mb_buf b), q) \<and> buf_held (snd rm) h b)"

lemma chars_read_later: "chars_read avail m1 h R rm \<Longrightarrow> m_calls m \<le> m_calls m1 \<Longrightarrow> chars_read avail m h R rm"
  unfolding chars_read_def using failed_mono [of avail m1 "snd rm" m "snd rm"] by (auto split: sum.splits)

lemma string_fail_read:
  assumes "buf_held m' h b" and "fresh m'" and "m_calls m \<le> m_calls m'" and "R = Inl e \<or> fst e = ''out of memory'' \<and> failed avail m m'"
  shows "yields (string_fail e b m') (chars_read avail m h R)"
proof -
  from string_fail_ok [OF assms(1,2), of e] obtain m1 where "string_fail e b m' = Some (Inl e, m1)" "m_blocks m1 = h" "fresh m1" "m_calls m1 = m_calls m'"
    by blast
  with assms(3,4) show ?thesis by (auto simp: chars_read_def failed_def)
qed

text \<open>One more character: it is appended and the loop goes on, or the buffer is given back.\<close>

lemma chars_step:
  assumes b: "buf_held m h b" and fr: "fresh m" and len: "length (buf_data (mb_buf b)) + length d \<le> 2 ^ 63"
    and go: "\<And>b' m'. buf_held m' h b' \<Longrightarrow> fresh m' \<Longrightarrow> buf_data (mb_buf b') = buf_data (mb_buf b) @ d \<Longrightarrow>
      yields (parse_chars_mem avail b' q m') (chars_read avail m' h R)"
  shows "yields (do { (ok, b', m') \<leftarrow> ps_buf_append_mem avail b d m; if \<not> ok then string_fail (oom p) b' m' else parse_chars_mem avail b' q m' })
    (chars_read avail m h R)"
proof (rule yields_bind [OF buf_append_ok [OF b fr len, of avail]], clarsimp, intro conjI impI)
  fix ok b' m'
  assume "step_ok avail m ok m'" "buf_held m' h b'"
  then have fr': "fresh m'" and le: "m_calls m \<le> m_calls m'" by (simp_all add: step_ok_def)
  {
    assume "\<not> ok"
    with \<open>step_ok avail m ok m'\<close> have "failed avail m m'" by (simp add: step_ok_def)
    with \<open>buf_held m' h b'\<close> fr' le show "yields (string_fail (oom p) b' m') (chars_read avail m h R)"
      by (intro string_fail_read) (auto simp: oom_def)
  next
    assume "ok \<longrightarrow> buf_data (mb_buf b') = buf_data (mb_buf b) @ d" "ok"
    with go [OF \<open>buf_held m' h b'\<close> fr'] le show "yields (parse_chars_mem avail b' q m') (chars_read avail m h R)"
      by (auto elim!: yields_mono chars_read_later)
  }
qed


lemma append_utf8_length: "length (append_utf8 cp) \<le> 4"
  by (simp add: append_utf8_def)

lemma unicode_escape_shortens: "unicode_escape p = Inr (cp, r) \<Longrightarrow> length (append_utf8 cp) + length r \<le> length p"
proof -
  assume "unicode_escape p = Inr (cp, r)"
  then have "length r + 4 \<le> length p"
    by (auto simp: unicode_escape_def Let_def split: option.splits prod.splits if_splits dest!: parse_hex4_length)
  then show ?thesis using append_utf8_length [of cp] by simp
qed

text \<open>One round of the loop: an error, the closing quote, or bytes to append, with the position for an error and the rest.\<close>

definition next_chars :: "bytes \<Rightarrow> perr + (bytes \<times> bytes \<times> bytes) option" where
  "next_chars p =
     (case p of
        [] \<Rightarrow> Inl (''unterminated string'', [])
      | c # r \<Rightarrow>
          if c = DQ then Inr None
          else if byte_val c < 0x20 then Inl (''control character in string'', p)
          else if c \<noteq> BSL then Inr (Some ([c], p, r))
          else
            (case r of
               [] \<Rightarrow> Inl (''unterminated escape'', [])
             | esc # r1 \<Rightarrow>
                 if esc = CHR ''u'' then
                   (case unicode_escape r1 of Inl e \<Rightarrow> Inl e | Inr (cp, r2) \<Rightarrow> Inr (Some (append_utf8 cp, r2, r2)))
                 else
                   (case simple_escape esc of
                      None \<Rightarrow> Inl (''invalid escape character'', r1)
                    | Some b \<Rightarrow> Inr (Some ([b], r1, r1)))))"

lemma parse_chars_next:
  "parse_chars out p = (case next_chars p of
     Inl e \<Rightarrow> Inl e | Inr None \<Rightarrow> Inr (out, tl p) | Inr (Some (d, pos, q)) \<Rightarrow> parse_chars (out @ d) q)"
  by (subst parse_chars.simps) (auto simp: next_chars_def split: list.split sum.split option.split)

lemma parse_chars_mem_next:
  "parse_chars_mem avail out p m = (case next_chars p of
     Inl e \<Rightarrow> string_fail e out m
   | Inr None \<Rightarrow> Some (Inr (out, tl p), m)
   | Inr (Some (d, pos, q)) \<Rightarrow> do {
       (ok, out1, m1) \<leftarrow> ps_buf_append_mem avail out d m;
       if \<not> ok then string_fail (oom pos) out1 m1 else parse_chars_mem avail out1 q m1 })"
  by (subst parse_chars_mem.simps) (auto simp: next_chars_def split: list.split sum.split option.split)

lemma next_chars_shortens: "next_chars p = Inr (Some (d, pos, q)) \<Longrightarrow> length d + length q \<le> length p \<and> length q < length p"
  by (auto simp: next_chars_def split: list.splits if_splits sum.splits option.splits dest!: unicode_escape_shortens)

lemma parse_chars_ok:
  assumes "buf_held m h b" and "fresh m" and "length (buf_data (mb_buf b)) + length p \<le> 2 ^ 63"
  shows "yields (parse_chars_mem avail b p m) (chars_read avail m h (parse_chars (buf_data (mb_buf b)) p))"
  using assms
proof (induction "length p" arbitrary: b p m rule: less_induct)
  case less
  show ?case
  proof (cases "next_chars p")
    case (Inl e)
    then show ?thesis using less.prems by (simp add: parse_chars_next [of _ p] parse_chars_mem_next [of _ _ p] string_fail_read)
  next
    case (Inr nxt)
    show ?thesis
    proof (cases nxt)
      case None
      then show ?thesis using Inr less.prems by (simp add: parse_chars_next [of _ p] parse_chars_mem_next [of _ _ p] chars_read_def)
    next
      case (Some t)
      obtain d pos q where n: "next_chars p = Inr (Some (d, pos, q))" using Inr Some by (cases t) auto
      note le = next_chars_shortens [OF n]
      have "yields (parse_chars_mem avail b' q m') (chars_read avail m' h (parse_chars (buf_data (mb_buf b) @ d) q))"
        if "buf_held m' h b'" "fresh m'" "buf_data (mb_buf b') = buf_data (mb_buf b) @ d" for b' m'
        using less.hyps [OF conjunct2 [OF le] that(1,2)] that(3) le less.prems(3) by simp
      from chars_step [OF less.prems(1,2) _ this] le less.prems(3) show ?thesis
        by (simp add: parse_chars_next [of _ p] parse_chars_mem_next [of _ _ p] n)
    qed
  qed
qed



subsection \<open>Constructors\<close>

text \<open>A constructor makes its value of new blocks, or leaves the store as it was.\<close>

definition made :: "(nat \<Rightarrow> bool) \<Rightarrow> memory \<Rightarrow> json \<Rightarrow> addr option \<times> memory \<Rightarrow> bool" where
  "made avail m v pm \<longleftrightarrow> step_ok avail m (fst pm \<noteq> None) (snd pm) \<and> (case fst pm of
     None \<Rightarrow> m_blocks (snd pm) = m_blocks m
   | Some a \<Rightarrow> \<exists>A. rep (m_blocks (snd pm)) v a A \<and> m_blocks (snd pm) |` (- A) = m_blocks m)"

lemma fresh_upd: "h g = None \<Longrightarrow> h(g \<mapsto> b) |` (- {g}) = h" "h g = None \<Longrightarrow> h |` (- {g}) = h"
  by (auto simp: restrict_map_def fun_eq_iff)

lemma alloc_value_made:
  assumes "fresh m" and "\<And>h a. h a = Some (Value n) \<Longrightarrow> rep h v a {a}"
  shows "made avail m v (alloc_value avail n m)"
  using assms(1)
proof (cases rule: malloc_cases [where avail = avail and b = "Value n"])
  case (1 m1)
  then show ?thesis by (simp add: alloc_value_def made_def step_ok_def)
next
  case (2 g m1)
  have "rep (m_blocks m1) v g {g}" using 2(3) by (intro assms(2)) simp
  moreover have "m_blocks m1 |` (- {g}) = m_blocks m" using 2(2,3) by (simp only: fresh_upd)
  ultimately have "\<exists>A. rep (m_blocks m1) v g A \<and> m_blocks m1 |` (- A) = m_blocks m" by blast
  with 2(1,4,5) show ?thesis by (simp add: alloc_value_def made_def step_ok_def)
qed

lemma empty_reps: "h a = Some (Value (N_array None 0 0)) \<Longrightarrow> rep h (JArray []) a {a}"
  "h a = Some (Value (N_object None None 0 0)) \<Longrightarrow> rep h (JObject []) a {a}"
  using rep_array [of h a None "[]" 0 "[]" "{}" "{}"] rep_object [of h a None None "[]" 0 "[]" "{}" "[]" "{}" "{}"]
  by (simp_all add: table_def key_blocks_def reps_Nil)

lemma set_value_made:
  assumes "fresh m" and "\<And>h a. h a = Some (Value n') \<Longrightarrow> rep h v a {a}"
  shows "made avail m v (case alloc_value avail n m of (None, m1) \<Rightarrow> (None, m1) | (Some a, m1) \<Rightarrow> (Some a, put_block a (Value n') m1))"
  using assms(1)
proof (cases rule: malloc_cases [where avail = avail and b = "Value n"])
  case (1 m1)
  then show ?thesis by (simp add: alloc_value_def made_def step_ok_def)
next
  case (2 g m1)
  have "rep ((m_blocks m1)(g \<mapsto> Value n')) v g {g}" by (intro assms(2)) simp
  moreover have "(m_blocks m1)(g \<mapsto> Value n') |` (- {g}) = m_blocks m" using 2(2,3) by (simp add: fresh_upd)
  ultimately have "\<exists>A. rep ((m_blocks m1)(g \<mapsto> Value n')) v g A \<and> (m_blocks m1)(g \<mapsto> Value n') |` (- A) = m_blocks m" by blast
  with 2(1,3-5) show ?thesis by (simp add: alloc_value_def made_def step_ok_def fresh_put_block)
qed

lemma new_made:
  assumes "fresh m"
  shows "made avail m JNull (ps_json_new_null avail m)" "made avail m (JBool b) (ps_json_new_bool avail b m)"
    "made avail m (JNumber x) (ps_json_new_number avail x m)" "made avail m (JArray []) (ps_json_new_array avail m)"
    "made avail m (JObject []) (ps_json_new_object avail m)"
  unfolding ps_json_new_null_def ps_json_new_bool_def ps_json_new_number_def ps_json_new_array_def ps_json_new_object_def
  using assms by (auto intro!: alloc_value_made set_value_made intro: rep_reps.intros empty_reps)

lemma new_string_made:
  assumes fr: "fresh m"
  shows "yields (ps_json_new_string_n avail s m) (made avail m (JString s))"
  using fr
proof (cases rule: malloc_cases [where avail = avail and b = "Value (N_string None 0)"])
  case (1 m1)
  then show ?thesis by (simp add: ps_json_new_string_n_def alloc_value_def made_def step_ok_def)
next
  case v: (2 v m1)
  show ?thesis
    using v(4)
  proof (cases rule: malloc_cases [where avail = avail and b = "Chars (s @ [NUL])"])
    case (1 m2)
    have "ps_json_new_string_n avail s m = Some (None, without {v} m2)"
      using v(1,3) 1(1,2) by (simp add: ps_json_new_string_n_def alloc_value_def c_free_without del: c_free.simps(2))
    moreover have "m_blocks (without {v} m2) = m_blocks m" using v(2,3) 1(2) by (simp add: fresh_upd)
    moreover have "step_ok avail m False (without {v} m2)" using 1(3-5) v(5) failed_mono [OF 1(4), of m] by (auto simp: step_ok_def failed_def)
    ultimately show ?thesis by (simp add: made_def)
  next
    case d: (2 d m2)
    let ?m = "put_block v (Value (N_string (Some d) (length s))) m2"
    have dv: "d \<noteq> v" using d(2) v(3) by auto
    have "ps_json_new_string_n avail s m = Some (Some v, ?m)" using v(1) d(1) by (simp add: ps_json_new_string_n_def alloc_value_def)
    moreover have "rep (m_blocks ?m) (JString s) v {v, d}" using d(3) dv by (intro rep_reps.rep_string) auto
    moreover have "m_blocks ?m |` (- {v, d}) = m_blocks m" using v(2,3) d(2,3) dv by (auto simp: restrict_map_def fun_eq_iff)
    moreover have "step_ok avail m True ?m" using v(3,5) d(3-5) dv by (auto simp: step_ok_def intro!: fresh_put_block)
    ultimately show ?thesis by (auto simp: made_def)
  qed
qed

lemma boxed_parsed:
  assumes "made avail m v vm" and "R = Inr (v, q)"
  shows "yields (boxed q vm) (parsed avail m (m_blocks m) R)"
  using assms by (cases vm; cases "fst vm") (auto simp: made_def boxed_def parsed_def step_ok_def oom_def)

lemma parse_string_mem_ok:
  assumes fr: "fresh m" and len: "length p \<le> 2 ^ 63"
  shows "yields (parse_string_mem avail p m) (parsed avail m (m_blocks m) (case parse_string p of Inl e \<Rightarrow> Inl e | Inr (s, r) \<Rightarrow> Inr (JString s, r)))"
proof -
  have init: "buf_held m (m_blocks m) mb_init" by (simp add: buf_held_def mb_init_def ps_buf_init_def buf_ok_def restrict_map_def)
  have "length (buf_data (mb_buf mb_init)) + length p \<le> 2 ^ 63" using len by (simp add: mb_init_def ps_buf_init_def)
  from parse_chars_ok [OF init fr this, of avail] obtain r m1 where c: "parse_chars_mem avail mb_init p m = Some (r, m1)"
    "chars_read avail m (m_blocks m) (parse_string p) (r, m1)" by (auto simp: yields_def parse_string_def mb_init_def ps_buf_init_def)
  show ?thesis
  proof (cases r)
    case (Inl e)
    with c show ?thesis by (auto simp: parse_string_mem_def chars_read_def parsed_def)
  next
    case (Inr bq)
    obtain b q where r: "r = Inr (b, q)" using Inr by (cases bq) simp
    from c(2) r have b: "buf_held m1 (m_blocks m) b" and fr1: "fresh m1" and le: "m_calls m \<le> m_calls m1"
      and s: "parse_string p = Inr (buf_data (mb_buf b), q)" by (auto simp: chars_read_def)
    from new_string_made [OF fr1, of avail "buf_data (mb_buf b)"] obtain v m2 where
      n: "ps_json_new_string_n avail (buf_data (mb_buf b)) m1 = Some (v, m2)" "made avail m1 (JString (buf_data (mb_buf b))) (v, m2)"
      by (auto simp: yields_def)
    show ?thesis
    proof (cases v)
      case None
      with n(2) have "buf_held m2 (m_blocks m) b" "fresh m2" using b by (auto simp: made_def buf_held_def step_ok_def)
      with string_fail_ok [of m2 "m_blocks m" b "oom q"] obtain m3 where "c_free (mb_data b) m2 = Some m3" "m_blocks m3 = m_blocks m" "fresh m3" "m_calls m3 = m_calls m2"
        by (auto simp: string_fail_def bind_eq_Some_conv)
      moreover from this n(2) None le have "failed avail m m3" "m_calls m \<le> m_calls m3"
        using failed_mono [of avail m1 m2 m m3] by (auto simp: made_def step_ok_def)
      ultimately show ?thesis using c(1) r n(1) None by (auto simp: parse_string_mem_def oom_def intro!: parsed_error)
    next
      case (Some a)
      with n(2) obtain A where A: "rep (m_blocks m2) (JString (buf_data (mb_buf b))) a A" "m_blocks m2 |` (- A) = m_blocks m1" "fresh m2" "m_calls m1 \<le> m_calls m2"
        by (auto simp: made_def step_ok_def)
      have st: "m_blocks m2 t = Some Storage \<and> t \<notin> A" if "mb_data b = Some t" for t
        using fun_cong [OF A(2), of t] b that by (auto simp: buf_held_def restrict_map_def split: if_splits)
      let ?m3 = "without (set_option (mb_data b)) m2"
      have "c_free (mb_data b) m2 = Some ?m3" using st by (cases "mb_data b") (auto simp: c_free_without simp del: c_free.simps(2))
      moreover have "rep (m_blocks ?m3) (JString (buf_data (mb_buf b))) a A" using A(1) by (rule rep_frame) (use st in \<open>auto simp: restrict_map_def\<close>)
      moreover have "m_blocks ?m3 |` (- A) = m_blocks m1 |` (- set_option (mb_data b))" unfolding A(2) [symmetric] by (simp add: Int_commute)
      then have "m_blocks ?m3 |` (- A) = m_blocks m" using b by (simp add: buf_held_def)
      ultimately show ?thesis using c(1) r n(1) Some s A(3,4) le by (auto simp: parse_string_mem_def intro!: parsed_value)
    qed
  qed
qed

lemma parse_number_value: "parse_number p = Inr (v, q) \<Longrightarrow> v = JNumber (ps_json_get_number (Some v))"
  by (auto simp: parse_number_def Let_def split: sum.splits if_splits)

lemma parse_scalar_mem_ok:
  assumes fr: "fresh m" and len: "length (c # q) \<le> 2 ^ 63"
  shows "yields (parse_scalar_mem avail c q m) (parsed avail m (m_blocks m) (parse_scalar c q))"
proof -
  have lit: "yields (parse_literal_mem p l new m) (parsed avail m (m_blocks m) (parse_literal p l v))" if "made avail m v (new m)" for p l new v
    using boxed_parsed [OF that] fr by (auto simp: parse_literal_mem_def parse_literal_def parsed_def [of _ _ _ _ "(Inl _, _)"] split: option.split)
  have num: "yields (parse_number_mem avail p m) (parsed avail m (m_blocks m) (parse_number p))" for p
  proof (cases "parse_number p")
    case (Inr vq)
    obtain v r where v: "parse_number p = Inr (v, r)" using Inr by (cases vq) simp
    from parse_number_value [OF v] new_made(3) [OF fr, of avail "ps_json_get_number (Some v)"] show ?thesis
      using v by (auto simp: parse_number_mem_def intro: boxed_parsed)
  qed (use fr in \<open>auto simp: parse_number_mem_def parsed_def\<close>)
  show ?thesis
    using parse_string_mem_ok [OF fr, of q avail] len num fr
      lit [where new = "ps_json_new_null avail", OF new_made(1) [OF fr]]
      lit [where new = "ps_json_new_bool avail True", OF new_made(2) [OF fr]] lit [where new = "ps_json_new_bool avail False", OF new_made(2) [OF fr]]
    unfolding parse_scalar_mem_def parse_scalar_def by (auto intro: parsed_error)
qed



subsection \<open>Arrays and objects\<close>

lemma give_up_ok:
  "rep (m_blocks m) v a A \<Longrightarrow> give_up e [a] m = Some (Inl e, without A m)"
  "rep (m_blocks m) v a A \<Longrightarrow> rep (m_blocks m) w b B \<Longrightarrow> A \<inter> B = {} \<Longrightarrow> give_up e [a, b] m = Some (Inl e, without (A \<union> B) m)"
proof -
  assume a: "rep (m_blocks m) v a A"
  then show "give_up e [a] m = Some (Inl e, without A m)" by (simp add: give_up_def ps_json_free_rep)
  assume b: "rep (m_blocks m) w b B" and AB: "A \<inter> B = {}"
  have "rep (m_blocks (without A m)) w b B" using b by (rule rep_frame) (use AB in \<open>auto simp: restrict_map_def\<close>)
  then show "give_up e [a, b] m = Some (Inl e, without (A \<union> B) m)" using a by (simp add: give_up_def ps_json_free_rep)
qed

text \<open>A value parsed while another is held: the other is still there, in different blocks.\<close>

lemma parsed_held:
  assumes held: "rep (m_blocks m) w b B" and p: "parsed avail m (m_blocks m) R (r, m1)"
  shows "r = Inl e \<Longrightarrow> rep (m_blocks m1) w b B \<and> m_blocks m1 = m_blocks m"
    and "r = Inr (a, q) \<Longrightarrow> \<exists>v A. R = Inr (v, q) \<and> rep (m_blocks m1) v a A \<and> m_blocks m1 |` (- A) = m_blocks m \<and> rep (m_blocks m1) w b B \<and> A \<inter> B = {}"
proof -
  show "r = Inl e \<Longrightarrow> rep (m_blocks m1) w b B \<and> m_blocks m1 = m_blocks m" using held p by (simp add: parsed_def)
  assume "r = Inr (a, q)"
  with p obtain v A where A: "R = Inr (v, q)" "rep (m_blocks m1) v a A" "m_blocks m1 |` (- A) = m_blocks m" by (auto simp: parsed_def)
  then have "m_blocks m1 |` (- A) = m_blocks m |` (- {})" by (simp add: restrict_map_def)
  from rep_keep [OF this held] A show "\<exists>v A. R = Inr (v, q) \<and> rep (m_blocks m1) v a A \<and> m_blocks m1 |` (- A) = m_blocks m \<and> rep (m_blocks m1) w b B \<and> A \<inter> B = {}"
    by auto
qed

text \<open>Behind an element that its container \<open>a\<close> owns: a comma and one more round, the bracket, or an error.\<close>

lemma sep_step:
  assumes A: "rep (m_blocks m2) v a A" "m_blocks m2 |` (- A) = h" and fr: "fresh m2" and le: "m_calls m \<le> m_calls m2"
    and go: "\<And>q. parse_sep close p = Inr (True, q) \<Longrightarrow> yields (more_mem q) (parsed avail m2 h (more_pure q))"
  shows "yields (case parse_sep close p of
      Inl e \<Rightarrow> give_up e [a] m2 | Inr (again, q) \<Rightarrow> if again then more_mem q else Some (Inr (a, q), m2))
    (parsed avail m h (case parse_sep close p of Inl e \<Rightarrow> Inl e | Inr (again, q) \<Rightarrow> if again then more_pure q else Inr (v, q)))"
proof (cases "parse_sep close p")
  case (Inl e)
  then show ?thesis using give_up_ok(1) [OF A(1), of e] A fr le by (auto intro!: parsed_error)
next
  case (Inr sq)
  obtain again q where "parse_sep close p = Inr (again, q)" using Inr by (cases sq) simp
  with go [of q] A fr le show ?thesis by (cases again) (auto elim!: yields_mono parsed_later intro!: parsed_value)
qed

lemma items_step:
  assumes arr: "rep (m_blocks m) (JArray xs) a A" and fr: "fresh m"
    and val: "yields (parse_mem avail (Parse_value (skip_ws p) (depth + 1)) m) (parsed avail m (m_blocks m) (parse_value (skip_ws p) (depth + 1)))"
    and go: "\<And>item p1 q m2 A2. parse_value (skip_ws p) (depth + 1) = Inr (item, p1) \<Longrightarrow> parse_sep CHR '']'' p1 = Inr (True, q) \<Longrightarrow>
      rep (m_blocks m2) (JArray (xs @ [item])) a A2 \<Longrightarrow> fresh m2 \<Longrightarrow>
      yields (parse_mem avail (Parse_items a q depth) m2) (parsed avail m2 (m_blocks m2 |` (- A2)) (parse_items (JArray (xs @ [item])) q depth))"
  shows "yields (parse_mem avail (Parse_items a p depth) m) (parsed avail m (m_blocks m |` (- A)) (parse_items (JArray xs) p depth))"
proof -
  from val obtain r m1 where v: "parse_mem avail (Parse_value (skip_ws p) (depth + 1)) m = Some (r, m1)"
    "parsed avail m (m_blocks m) (parse_value (skip_ws p) (depth + 1)) (r, m1)" by (auto simp: yields_def)
  then have fr1: "fresh m1" and le1: "m_calls m \<le> m_calls m1" by (auto simp: parsed_def)
  show ?thesis
  proof (cases r)
    case (Inl e)
    from parsed_held(1) [OF arr v(2) Inl] give_up_ok(1) have "give_up e [a] m1 = Some (Inl e, without A m1)" "m_blocks m1 = m_blocks m" by blast+
    with v Inl fr1 le1 show ?thesis
      by (subst parse_mem.simps, subst parse_items.simps) (auto simp: parsed_def failed_def)
  next
    case (Inr bq)
    obtain b p1 where r: "r = Inr (b, p1)" using Inr by (cases bq) simp
    from parsed_held(2) [OF arr v(2) r] obtain x B where x: "parse_value (skip_ws p) (depth + 1) = Inr (x, p1)" "rep (m_blocks m1) x b B"
      "m_blocks m1 |` (- B) = m_blocks m" "rep (m_blocks m1) (JArray xs) a A" "B \<inter> A = {}" by blast
    have rest: "m_blocks m1 |` (- (A \<union> B)) = m_blocks m |` (- A)" unfolding x(3) [symmetric] by (simp add: Int_commute)
    from array_append_ok [OF x(4,2) _ fr1, of avail] x(5) obtain ok m2 where ap: "ps_json_array_append_mem avail a b m1 = Some (ok, m2)" "step_ok avail m1 ok m2"
      "\<not> ok \<Longrightarrow> m_blocks m2 = m_blocks m1" "ok \<Longrightarrow> becomes (JArray (xs @ [x])) a m1 (A \<union> B) m2" by blast
    then have fr2: "fresh m2" and le2: "m_calls m \<le> m_calls m2" using le1 by (auto simp: step_ok_def)
    have call: "parse_mem avail (Parse_items a p depth) m = (if \<not> ok then give_up (oom p1) [b, a] m2
        else case parse_sep CHR '']'' p1 of
          Inl e \<Rightarrow> give_up e [a] m2
        | Inr (again, q) \<Rightarrow> if again then parse_mem avail (Parse_items a q depth) m2 else Some (Inr (a, q), m2))"
      using v(1) r ap(1) by (subst parse_mem.simps) simp
    show ?thesis
    proof (cases ok)
      case False
      have "give_up (oom p1) [b, a] m2 = Some (Inl (oom p1), without (B \<union> A) m2)" using x(2,4,5) ap(3) False by (intro give_up_ok(2)) auto
      moreover have "failed avail m (without (B \<union> A) m2)" using ap(2) False failed_mono [of avail m1 m2 m m2] le1 by (auto simp: step_ok_def failed_def)
      ultimately show ?thesis using call False fr2 le2 ap(3) rest by (auto simp: oom_def Un_commute intro!: parsed_error)
    next
      case True
      with ap(4) obtain A2 where A2: "rep (m_blocks m2) (ps_json_array_append (JArray xs) x) a A2" "m_blocks m2 |` (- A2) = m_blocks m |` (- A)"
        using rest by (auto simp: becomes_def)
      have "yields (parse_mem avail (Parse_items a q depth) m2) (parsed avail m2 (m_blocks m |` (- A)) (parse_items (ps_json_array_append (JArray xs) x) q depth))"
        if "parse_sep CHR '']'' p1 = Inr (True, q)" for q using go [OF x(1) that _ fr2, of A2] A2 by simp
      from sep_step [where more_mem = "\<lambda>q. parse_mem avail (Parse_items a q depth) m2" and close = "CHR '']''" and p = p1, OF A2 fr2 le2 this]
      show ?thesis using call True x(1) by (subst parse_items.simps) simp
    qed
  qed
qed

lemma peek_Some: "peek p = Some c \<longleftrightarrow> (\<exists>q. p = c # q)"
  by (auto simp: peek_def split: list.splits)

lemma parse_key_mem_ok:
  assumes fr: "fresh m" and len: "length p \<le> 2 ^ 63"
  shows "yields (parse_key_mem avail p m) (parsed avail m (m_blocks m) (case parse_key p of Inl e \<Rightarrow> Inl e | Inr (s, r) \<Rightarrow> Inr (JString s, r)))"
proof (cases "peek (skip_ws p) = Some DQ")
  case False
  then show ?thesis using fr by (auto simp: parse_key_mem_def parse_key_def peek_def split: list.splits intro!: parsed_error)
next
  case True
  then obtain q where q: "skip_ws p = DQ # q" by (auto simp: peek_Some)
  have "length q \<le> 2 ^ 63" using len skip_ws_length [of p] q by simp
  from parse_string_mem_ok [OF fr this, of avail] obtain r m1 where s: "parse_string_mem avail q m = Some (r, m1)"
    "parsed avail m (m_blocks m) (case parse_string q of Inl e \<Rightarrow> Inl e | Inr (s, r) \<Rightarrow> Inr (JString s, r)) (r, m1)" by (auto simp: yields_def)
  show ?thesis
  proof (cases r)
    case (Inl e)
    with s q show ?thesis by (auto simp: parse_key_mem_def parse_key_def peek_def parsed_def split: sum.splits)
  next
    case (Inr kp)
    obtain k p1 where r: "r = Inr (k, p1)" using Inr by (cases kp) simp
    with s(2) obtain t A where t: "parse_string q = Inr (t, p1)" "rep (m_blocks m1) (JString t) k A" "m_blocks m1 |` (- A) = m_blocks m"
      and fr1: "fresh m1" "m_calls m \<le> m_calls m1" by (auto simp: parsed_def split: sum.splits)
    show ?thesis
    proof (cases "peek (skip_ws p1) = Some CHR '':''")
      case True
      then obtain q1 where "skip_ws p1 = CHR '':'' # q1" by (auto simp: peek_Some)
      then show ?thesis using s(1) q r t fr1 by (auto simp: parse_key_mem_def parse_key_def peek_def intro!: parsed_value)
    next
      case False
      then show ?thesis using s(1) q r t fr1 ps_json_free_rep [OF t(2)]
        by (auto simp: parse_key_mem_def parse_key_def peek_def split: list.splits intro!: parsed_error)
    qed
  qed
qed

lemma string_of_rep: "rep (m_blocks m) (JString s) a A \<Longrightarrow> string_of m a = Some (s @ [NUL])"
  by (auto simp: string_of_def elim: rep_stringE)

lemma cstr_append_NUL: "cstr (s @ [NUL]) = cstr s"
  by (induction s) auto

lemma object_set_NUL: "ps_json_object_set (JObject ms) (s @ [NUL]) x = ps_json_object_set (JObject ms) s x"
  by (simp add: cstr_append_NUL)

text \<open>A member is set while its key and its value are held; then the key is freed.\<close>

lemma set_member:
  assumes obj: "rep (m_blocks m) (JObject ms) a A" and kv: "rep (m_blocks m) (JString t) kv K" and x: "rep (m_blocks m) x b B"
    and dj: "A \<inter> K = {}" "A \<inter> B = {}" "B \<inter> K = {}" and fr: "fresh m"
  obtains ok m3 m4 A4 where "string_of m kv = Some (t @ [NUL])" "ps_json_object_set_mem avail a (t @ [NUL]) b m = Some (ok, m3)"
    "ps_json_free (Some kv) m3 = Some m4" "step_ok avail m ok m4"
    "ok \<Longrightarrow> rep (m_blocks m4) (ps_json_object_set (JObject ms) t x) a A4 \<and> m_blocks m4 |` (- A4) = m_blocks m |` (- (A \<union> B \<union> K))"
    "\<not> ok \<Longrightarrow> rep (m_blocks m4) x b B \<and> rep (m_blocks m4) (JObject ms) a A4 \<and> B \<inter> A4 = {} \<and> m_blocks m4 |` (- (B \<union> A4)) = m_blocks m |` (- (A \<union> B \<union> K))"
proof -
  from object_set_ok [OF obj x dj(2) fr, of avail "t @ [NUL]"] obtain ok m3 where o: "ps_json_object_set_mem avail a (t @ [NUL]) b m = Some (ok, m3)"
    "step_ok avail m ok m3" "\<not> ok \<Longrightarrow> becomes (JObject ms) a m A m3" "ok \<Longrightarrow> becomes (ps_json_object_set (JObject ms) t x) a m (A \<union> B) m3"
    unfolding object_set_NUL by blast
  let ?m4 = "without K m3"
  have st: "step_ok avail m ok ?m4" using o(2) by (auto simp: step_ok_def failed_def)
  show thesis
  proof (cases ok)
    case True
    with o(4) obtain A3 where A3: "rep (m_blocks m3) (ps_json_object_set (JObject ms) t x) a A3" "m_blocks m3 |` (- A3) = m_blocks m |` (- (A \<union> B))"
      by (auto simp: becomes_def)
    have AB: "(A \<union> B) \<inter> K = {}" using dj by auto
    from rep_keep [OF A3(2) kv AB] have k: "rep (m_blocks m3) (JString t) kv K" "A3 \<inter> K = {}" by simp_all
    have "rep (m_blocks ?m4) (ps_json_object_set (JObject ms) t x) a A3" using A3(1) by (rule rep_frame) (use k(2) in \<open>auto simp: restrict_map_def\<close>)
    moreover have "m_blocks ?m4 |` (- A3) = m_blocks m |` (- (A \<union> B \<union> K))" using restrict_diff [OF A3(2) k(2) AB] by (simp add: Int_commute)
    ultimately show thesis using that [of ok m3 ?m4 A3] string_of_rep [OF kv] o(1) ps_json_free_rep [OF k(1)] st True by blast
  next
    case False
    with o(3) obtain A3 where A3: "rep (m_blocks m3) (JObject ms) a A3" "m_blocks m3 |` (- A3) = m_blocks m |` (- A)" by (auto simp: becomes_def)
    from rep_keep [OF A3(2) kv dj(1)] have k: "rep (m_blocks m3) (JString t) kv K" "A3 \<inter> K = {}" by simp_all
    from rep_keep [OF A3(2) x dj(2)] have y: "rep (m_blocks m3) x b B" "A3 \<inter> B = {}" by simp_all
    have "rep (m_blocks ?m4) (JObject ms) a A3" using A3(1) by (rule rep_frame) (use k(2) in \<open>auto simp: restrict_map_def\<close>)
    moreover have "rep (m_blocks ?m4) x b B" using y(1) by (rule rep_frame) (use dj(3) in \<open>auto simp: restrict_map_def\<close>)
    moreover have "m_blocks ?m4 |` (- (B \<union> A3)) = m_blocks m |` (- (A \<union> B \<union> K))"
      using restrict_diff [OF A3(2), of "B \<union> K"] k(2) y(2) dj by (simp add: Int_Un_distrib Un_ac Int_ac)
    ultimately show thesis using that [of ok m3 ?m4 A3] string_of_rep [OF kv] o(1) ps_json_free_rep [OF k(1)] st False y(2) by blast
  qed
qed

text \<open>A member that has been parsed: its key at \<open>kv\<close> and its value at \<open>b\<close> go into the object at \<open>a\<close>, and the loop goes on.\<close>

lemma member_finish:
  assumes o: "rep (m_blocks m2) (JObject ms) a A" and key: "rep (m_blocks m2) (JString t) kv K" and item: "rep (m_blocks m2) x b B"
    and disj: "A \<inter> K = {}" "A \<inter> B = {}" "B \<inter> K = {}" and fr2: "fresh m2" and le2: "m_calls m \<le> m_calls m2"
    and rest: "m_blocks m2 |` (- (A \<union> B \<union> K)) = R" and spec: "parse_key p = Inr (t, p1)" "parse_value p1 (depth + 1) = Inr (x, p2)"
    and go: "\<And>q m4 A4 ms2. parse_sep CHR ''}'' p2 = Inr (True, q) \<Longrightarrow> ps_json_object_set (JObject ms) t x = JObject ms2 \<Longrightarrow> rep (m_blocks m4) (JObject ms2) a A4 \<Longrightarrow>
      fresh m4 \<Longrightarrow> yields (parse_mem avail (Parse_members a q depth) m4) (parsed avail m4 (m_blocks m4 |` (- A4)) (parse_members (JObject ms2) q depth))"
  shows "yields (do {
      key \<leftarrow> string_of m2 kv;
      (ok, m3) \<leftarrow> ps_json_object_set_mem avail a key b m2;
      m4 \<leftarrow> ps_json_free (Some kv) m3;
      if \<not> ok then give_up (oom p2) [b, a] m4
      else (case parse_sep CHR ''}'' p2 of
              Inl e \<Rightarrow> give_up e [a] m4
            | Inr (again, q) \<Rightarrow> if again then parse_mem avail (Parse_members a q depth) m4 else Some (Inr (a, q), m4)) })
    (parsed avail m R (parse_members (JObject ms) p depth))" (is "yields ?run _")
proof -
  from set_member [OF o key item disj(1,2,3) fr2, of avail] obtain ok m3 m4 A4 where c: "string_of m2 kv = Some (t @ [NUL])"
    "ps_json_object_set_mem avail a (t @ [NUL]) b m2 = Some (ok, m3)" "ps_json_free (Some kv) m3 = Some m4" "step_ok avail m2 ok m4"
    "ok \<Longrightarrow> rep (m_blocks m4) (ps_json_object_set (JObject ms) t x) a A4 \<and> m_blocks m4 |` (- A4) = R"
    "\<not> ok \<Longrightarrow> rep (m_blocks m4) x b B \<and> rep (m_blocks m4) (JObject ms) a A4 \<and> B \<inter> A4 = {} \<and> m_blocks m4 |` (- (B \<union> A4)) = R"
    unfolding rest by metis
  from c(4) le2 have fr4: "fresh m4" and le4: "m_calls m \<le> m_calls m4" by (auto simp: step_ok_def)
  show ?thesis
  proof (cases ok)
    case False
    with c(6) have "give_up (oom p2) [b, a] m4 = Some (Inl (oom p2), without (B \<union> A4) m4)" by (auto intro: give_up_ok(2))
    moreover have "failed avail m (without (B \<union> A4) m4)" using c(4) False le2 failed_mono [of avail m2 m4 m m4] by (auto simp: step_ok_def failed_def)
    ultimately show ?thesis using c(1-3,6) False fr4 le4 by (auto simp: oom_def intro!: parsed_error)
  next
    case True
    with c(5) have A4: "rep (m_blocks m4) (ps_json_object_set (JObject ms) t x) a A4" "m_blocks m4 |` (- A4) = R" by blast+
    have "yields (parse_mem avail (Parse_members a q depth) m4) (parsed avail m4 R (parse_members (ps_json_object_set (JObject ms) t x) q depth))"
      if "parse_sep CHR ''}'' p2 = Inr (True, q)" for q using go [OF that _ _ fr4, of "members_set ms (cstr t) x" A4] A4 by simp
    from sep_step [where more_mem = "\<lambda>q. parse_mem avail (Parse_members a q depth) m4" and close = "CHR ''}''" and p = p2, OF A4 fr4 le4 this]
    show ?thesis using c(1-3) True spec by (subst parse_members.simps) simp
  qed
qed

text \<open>A key that has been parsed, at \<open>kv\<close>: its value is parsed next.\<close>

lemma member_value:
  assumes t: "parse_key p = Inr (t, p1)" "rep (m_blocks m1) (JString t) kv K" "rep (m_blocks m1) (JObject ms) a A" "K \<inter> A = {}"
    and le1: "m_calls m \<le> m_calls m1" and rest1: "m_blocks m1 |` (- (K \<union> A)) = R"
    and val: "yields (parse_mem avail (Parse_value p1 (depth + 1)) m1) (parsed avail m1 (m_blocks m1) (parse_value p1 (depth + 1)))"
    and go: "\<And>x p2 q m2 A2 ms2. parse_value p1 (depth + 1) = Inr (x, p2) \<Longrightarrow> parse_sep CHR ''}'' p2 = Inr (True, q) \<Longrightarrow>
      ps_json_object_set (JObject ms) t x = JObject ms2 \<Longrightarrow> rep (m_blocks m2) (JObject ms2) a A2 \<Longrightarrow> fresh m2 \<Longrightarrow>
      yields (parse_mem avail (Parse_members a q depth) m2) (parsed avail m2 (m_blocks m2 |` (- A2)) (parse_members (JObject ms2) q depth))"
    and call: "parse_key_mem avail p m = Some (Inr (kv, p1), m1)"
  shows "yields (parse_mem avail (Parse_members a p depth) m) (parsed avail m R (parse_members (JObject ms) p depth))"
proof -
  from val obtain r2 m2 where v: "parse_mem avail (Parse_value p1 (depth + 1)) m1 = Some (r2, m2)"
    "parsed avail m1 (m_blocks m1) (parse_value p1 (depth + 1)) (r2, m2)" by (auto simp: yields_def)
  then have fr2: "fresh m2" and le2: "m_calls m1 \<le> m_calls m2" by (auto simp: parsed_def)
  have first: "parse_mem avail (Parse_members a p depth) m = (case r2 of
      Inl e \<Rightarrow> give_up e [kv, a] m2
    | Inr (val, p2) \<Rightarrow> do {
        key \<leftarrow> string_of m2 kv;
        (ok, m3) \<leftarrow> ps_json_object_set_mem avail a key val m2;
        m4 \<leftarrow> ps_json_free (Some kv) m3;
        if \<not> ok then give_up (oom p2) [val, a] m4
        else (case parse_sep CHR ''}'' p2 of
                Inl e \<Rightarrow> give_up e [a] m4
              | Inr (again, q) \<Rightarrow> if again then parse_mem avail (Parse_members a q depth) m4 else Some (Inr (a, q), m4)) })"
    using call v(1) by (subst parse_mem.simps) simp
  show ?thesis
  proof (cases r2)
    case (Inl e)
    with parsed_held(1) [OF t(2) v(2)] parsed_held(1) [OF t(3) v(2)] t(4) have "give_up e [kv, a] m2 = Some (Inl e, without (K \<union> A) m2)" "m_blocks m2 = m_blocks m1"
      by (auto intro: give_up_ok(2))
    with first v(2) Inl t(1) fr2 le1 le2 rest1 failed_mono [of avail m1 m2 m m2] show ?thesis
      by (subst parse_members.simps) (auto simp: parsed_def failed_def)
  next
    case (Inr vp)
    obtain b p2 where r2: "r2 = Inr (b, p2)" using Inr by (cases vp) simp
    from parsed_held(2) [OF t(2) v(2) r2] obtain x B where x: "parse_value p1 (depth + 1) = Inr (x, p2)" "rep (m_blocks m2) x b B"
      "m_blocks m2 |` (- B) = m_blocks m1" "rep (m_blocks m2) (JString t) kv K" "B \<inter> K = {}" by blast
    have "m_blocks m2 |` (- B) = m_blocks m1 |` (- {})" using x(3) by (simp add: restrict_map_def)
    from rep_keep [OF this t(3)] have o: "rep (m_blocks m2) (JObject ms) a A" "A \<inter> B = {}" by auto
    have rest: "m_blocks m2 |` (- (A \<union> B \<union> K)) = R" unfolding rest1 [symmetric] x(3) [symmetric] by (simp add: Int_ac Un_ac)
    have "A \<inter> K = {}" using t(4) by blast
    from member_finish [OF o(1) x(4,2) this o(2) x(5) fr2 _ rest t(1) x(1) go [OF x(1)], of m] le1 le2
    show ?thesis unfolding first r2 by simp
  qed
qed

lemma members_step:
  assumes obj: "rep (m_blocks m) (JObject ms) a A" and fr: "fresh m" and len: "length p \<le> 2 ^ 63"
    and val: "\<And>k p1 m1. parse_key p = Inr (k, p1) \<Longrightarrow> fresh m1 \<Longrightarrow>
      yields (parse_mem avail (Parse_value p1 (depth + 1)) m1) (parsed avail m1 (m_blocks m1) (parse_value p1 (depth + 1)))"
    and go: "\<And>k p1 x p2 q m2 A2 ms2. parse_key p = Inr (k, p1) \<Longrightarrow> parse_value p1 (depth + 1) = Inr (x, p2) \<Longrightarrow> parse_sep CHR ''}'' p2 = Inr (True, q) \<Longrightarrow>
      ps_json_object_set (JObject ms) k x = JObject ms2 \<Longrightarrow> rep (m_blocks m2) (JObject ms2) a A2 \<Longrightarrow> fresh m2 \<Longrightarrow>
      yields (parse_mem avail (Parse_members a q depth) m2) (parsed avail m2 (m_blocks m2 |` (- A2)) (parse_members (JObject ms2) q depth))"
  shows "yields (parse_mem avail (Parse_members a p depth) m) (parsed avail m (m_blocks m |` (- A)) (parse_members (JObject ms) p depth))"
proof -
  from parse_key_mem_ok [OF fr len, of avail] obtain r m1 where k: "parse_key_mem avail p m = Some (r, m1)"
    "parsed avail m (m_blocks m) (case parse_key p of Inl e \<Rightarrow> Inl e | Inr (s, r) \<Rightarrow> Inr (JString s, r)) (r, m1)" by (auto simp: yields_def)
  then have fr1: "fresh m1" and le1: "m_calls m \<le> m_calls m1" by (auto simp: parsed_def)
  show ?thesis
  proof (cases r)
    case (Inl e)
    from parsed_held(1) [OF obj k(2) Inl] give_up_ok(1) have "give_up e [a] m1 = Some (Inl e, without A m1)" "m_blocks m1 = m_blocks m" by blast+
    with k Inl fr1 le1 show ?thesis
      by (subst parse_mem.simps, subst parse_members.simps) (auto simp: parsed_def failed_def split: sum.splits)
  next
    case (Inr kp)
    obtain kv p1 where r: "r = Inr (kv, p1)" using Inr by (cases kp) simp
    from parsed_held(2) [OF obj k(2) r] obtain t K where t: "parse_key p = Inr (t, p1)" "rep (m_blocks m1) (JString t) kv K"
      "m_blocks m1 |` (- K) = m_blocks m" "rep (m_blocks m1) (JObject ms) a A" "K \<inter> A = {}" by (auto split: sum.splits)
    have "m_blocks m1 |` (- (K \<union> A)) = m_blocks m |` (- A)" unfolding t(3) [symmetric] by (simp add: Int_commute)
    from member_value [OF t(1,2,4,5) le1 this val [OF t(1) fr1] go [OF t(1)]] k(1) r show ?thesis by simp
  qed
qed


text \<open>An allocated container, then its elements.\<close>

lemma container_step:
  assumes new: "made avail m v (new m)" and go: "\<And>a m1 A. fresh m1 \<Longrightarrow> rep (m_blocks m1) v a A \<Longrightarrow> m_blocks m1 |` (- A) = m_blocks m \<Longrightarrow>
      yields (rest a m1) (parsed avail m1 (m_blocks m) R)"
  shows "yields (case new m of (None, m1) \<Rightarrow> Some (Inl (oom p), m1) | (Some a, m1) \<Rightarrow> rest a m1) (parsed avail m (m_blocks m) R)"
proof (cases "new m")
  case (Pair r m1)
  show ?thesis
  proof (cases r)
    case None
    with Pair new show ?thesis by (auto simp: made_def step_ok_def oom_def intro!: parsed_error)
  next
    case (Some a)
    with Pair new obtain A where "fresh m1" "m_calls m \<le> m_calls m1" "rep (m_blocks m1) v a A" "m_blocks m1 |` (- A) = m_blocks m"
      by (auto simp: made_def step_ok_def)
    with go [of m1 a A] Pair Some show ?thesis by (auto elim!: yields_mono parsed_later)
  qed
qed

lemma parse_mem_ok:
  "fresh m \<Longrightarrow> length p \<le> 2 ^ 63 \<Longrightarrow> yields (parse_mem avail (Parse_value p d) m) (parsed avail m (m_blocks m) (parse_value p d))"
  "fresh m \<Longrightarrow> length p \<le> 2 ^ 63 \<Longrightarrow> yields (parse_mem avail (Parse_array p d) m) (parsed avail m (m_blocks m) (parse_array p d))"
  "v = JArray xs \<Longrightarrow> rep (m_blocks m) v a A \<Longrightarrow> fresh m \<Longrightarrow> length p \<le> 2 ^ 63 \<Longrightarrow>
     yields (parse_mem avail (Parse_items a p d) m) (parsed avail m (m_blocks m |` (- A)) (parse_items v p d))"
  "fresh m \<Longrightarrow> length p \<le> 2 ^ 63 \<Longrightarrow> yields (parse_mem avail (Parse_object p d) m) (parsed avail m (m_blocks m) (parse_object p d))"
  "v = JObject ms \<Longrightarrow> rep (m_blocks m) v a A \<Longrightarrow> fresh m \<Longrightarrow> length p \<le> 2 ^ 63 \<Longrightarrow>
     yields (parse_mem avail (Parse_members a p d) m) (parsed avail m (m_blocks m |` (- A)) (parse_members v p d))"
proof (induction p d and p d and v p d and p d and v p d arbitrary: m and m and m a A xs and m and m a A ms
    rule: parse_value_parse_array_parse_items_parse_object_parse_members.induct)
  case (1 p depth)
  show ?case
  proof (cases "PS_JSON_MAX_DEPTH < depth \<or> skip_ws p = []")
    case True
    then show ?thesis using 1(3) by (subst parse_mem.simps, subst parse_value.simps) (auto intro!: parsed_error)
  next
    case False
    then obtain c q where q: "skip_ws p = c # q" by (cases "skip_ws p") auto
    have len: "length (c # q) \<le> 2 ^ 63" using 1(4) skip_ws_length [of p] q by simp
    then show ?thesis using False q 1(1) [OF _ q] 1(2) [OF _ q] 1(3) parse_scalar_mem_ok [OF 1(3) len, of avail]
      by (subst parse_mem.simps, subst parse_value.simps) auto
  qed
next
  case (2 p depth)
  have len: "length (skip_ws p) \<le> 2 ^ 63" using 2(3) skip_ws_length [of p] by simp
  have go: "yields (parse_mem avail (Parse_items a (skip_ws p) depth) m1) (parsed avail m1 (m_blocks m) (parse_items (JArray []) (skip_ws p) depth))"
    if "peek (skip_ws p) \<noteq> Some CHR '']''" "rep (m_blocks m1) (JArray []) a A" "fresh m1" "m_blocks m1 |` (- A) = m_blocks m" for a m1 A
    using 2(1) [OF that(1) refl that(2,3) len] that(4) by simp
  show ?case
    unfolding parse_mem.simps [of avail "Parse_array p depth"] parse_array.simps [of p depth] parse_call.case
    by (intro container_step [where new = "ps_json_new_array avail", OF new_made(4) [OF 2(2)]]) (auto intro!: parsed_value intro: go)
next
  case (3 arr p depth)
  have sk: "length (skip_ws p) \<le> 2 ^ 63" using 3(6) skip_ws_length [of p] by simp
  have go: "yields (parse_mem avail (Parse_items a q depth) m2) (parsed avail m2 (m_blocks m2 |` (- A2)) (parse_items (JArray (xs @ [item])) q depth))"
    if "parse_value (skip_ws p) (depth + 1) = Inr (item, p1)" "parse_sep CHR '']'' p1 = Inr (True, q)"
      "rep (m_blocks m2) (JArray (xs @ [item])) a A2" "fresh m2" for item p1 q m2 A2
    using 3(2) [OF that(1) refl that(2) refl, of "xs @ [item]" m2 a A2] that(3,4) 3(3) sk parse_length(1) [OF that(1)] parse_sep_length [OF that(2)] by simp
  show ?case unfolding 3(3) using 3(4) unfolding 3(3) by (rule items_step [OF _ 3(5) 3(1) [OF 3(5) sk] go])
next
  case (4 p depth)
  have len: "length (skip_ws p) \<le> 2 ^ 63" using 4(3) skip_ws_length [of p] by simp
  have go: "yields (parse_mem avail (Parse_members a (skip_ws p) depth) m1) (parsed avail m1 (m_blocks m) (parse_members (JObject []) (skip_ws p) depth))"
    if "peek (skip_ws p) \<noteq> Some CHR ''}''" "rep (m_blocks m1) (JObject []) a A" "fresh m1" "m_blocks m1 |` (- A) = m_blocks m" for a m1 A
    using 4(1) [OF that(1) refl that(2,3) len] that(4) by simp
  show ?case
    unfolding parse_mem.simps [of avail "Parse_object p depth"] parse_object.simps [of p depth] parse_call.case
    by (intro container_step [where new = "ps_json_new_object avail", OF new_made(5) [OF 4(2)]]) (auto intro!: parsed_value intro: go)
next
  case (5 obj p depth)
  have val: "yields (parse_mem avail (Parse_value p1 (depth + 1)) m1) (parsed avail m1 (m_blocks m1) (parse_value p1 (depth + 1)))"
    if "parse_key p = Inr (k, p1)" "fresh m1" for k p1 m1 using 5(1) [OF that(1) refl that(2)] parse_key_length [OF that(1)] 5(6) by simp
  have go: "yields (parse_mem avail (Parse_members a q depth) m2) (parsed avail m2 (m_blocks m2 |` (- A2)) (parse_members (JObject ms2) q depth))"
    if "parse_key p = Inr (k, p1)" "parse_value p1 (depth + 1) = Inr (x, p2)" "parse_sep CHR ''}'' p2 = Inr (True, q)"
      "ps_json_object_set (JObject ms) k x = JObject ms2" "rep (m_blocks m2) (JObject ms2) a A2" "fresh m2" for k p1 x p2 q m2 A2 ms2
    using 5(2) [OF that(1) refl that(2) refl that(3) refl, of ms2 m2 a A2] that(4-6) 5(3,6) parse_key_length [OF that(1)] parse_length(1) [OF that(2)]
      parse_sep_length [OF that(3)] by simp
  show ?case unfolding 5(3) using 5(4) unfolding 5(3) by (rule members_step [OF _ 5(5,6) val go])
qed


subsection \<open>The parser never leaks\<close>

text \<open>C12. Whatever the text and whichever allocations fail, the parser returns without touching a block that is not
  live. If it returns an error, the store is exactly as before, and the error is the one of the specification
  unless an allocation failed; otherwise its result is the value of the specification in new blocks, and
  \<^verbatim>\<open>ps_json_free\<close> gives back exactly those.\<close>

theorem json_parse_memory_safe:
  assumes "dom (m_blocks m) \<subseteq> {..<m_calls m}" and "length data \<le> 2 ^ 63"
  shows "\<exists>r m'. ps_json_parse_mem avail data errlen m = Some (r, m') \<and> (case r of
      Inl e \<Rightarrow> m_blocks m' = m_blocks m \<and> (ps_json_parse data errlen = Inl e \<or> (\<exists>n. m_calls m \<le> n \<and> n < m_calls m' \<and> \<not> avail n))
    | Inr a \<Rightarrow> (\<exists>v A. ps_json_parse data errlen = Inr v \<and> rep (m_blocks m') v a A \<and> m_blocks m' |` (- A) = m_blocks m) \<and>
        (\<exists>m''. ps_json_free (Some a) m' = Some m'' \<and> m_blocks m'' = m_blocks m))"
proof -
  have fr: "fresh m" using assms(1) by (simp add: fresh_def)
  from parse_mem_ok(1) [OF fr assms(2), of avail 1] obtain r m1 where p: "parse_mem avail (Parse_value data 1) m = Some (r, m1)"
    "parsed avail m (m_blocks m) (parse_value data 1) (r, m1)" by (auto simp: yields_def)
  show ?thesis
  proof (cases r)
    case (Inl e)
    with p show ?thesis by (auto simp: ps_json_parse_mem_def ps_json_parse_def parsed_def failed_def)
  next
    case (Inr aq)
    with p(2) obtain a q v A where v: "r = Inr (a, q)" "parse_value data 1 = Inr (v, q)" "rep (m_blocks m1) v a A" "m_blocks m1 |` (- A) = m_blocks m"
      by (cases aq) (auto simp: parsed_def)
    have "ps_json_free (Some a) m1 = Some (without A m1)" "m_blocks (without A m1) = m_blocks m" using ps_json_free_rep [OF v(3)] v(4) by simp_all
    then show ?thesis using p(1) v by (auto simp: ps_json_parse_mem_def ps_json_parse_def)
  qed
qed

definition empty_memory :: memory where
  "empty_memory = \<lparr>m_blocks = Map.empty, m_calls = 0\<rparr>"

theorem json_parse_memory_safe_witness:
  "\<exists>r m'. ps_json_parse_mem (\<lambda>n. n \<noteq> 5) ''[[1],2]'' 64 empty_memory = Some (r, m') \<and> (case r of
      Inl e \<Rightarrow> m_blocks m' = m_blocks empty_memory \<and> (ps_json_parse ''[[1],2]'' 64 = Inl e \<or> (\<exists>n. m_calls empty_memory \<le> n \<and> n < m_calls m' \<and> \<not> n \<noteq> 5))
    | Inr a \<Rightarrow> (\<exists>v A. ps_json_parse ''[[1],2]'' 64 = Inr v \<and> rep (m_blocks m') v a A \<and> m_blocks m' |` (- A) = m_blocks empty_memory) \<and>
        (\<exists>m''. ps_json_free (Some a) m' = Some m'' \<and> m_blocks m'' = m_blocks empty_memory))"
  by (rule json_parse_memory_safe) (simp_all add: empty_memory_def)

end
