(* ===== verification/Body_Memory.thy ===== *)
theory Body_Memory
  imports Json_Safety Read_Api
begin

text \<open>
  The memory of response bodies: \<^verbatim>\<open>obj_set_str\<close> and its siblings (the same functions in \<^verbatim>\<open>src/src/api/auth_api.c\<close>,
  \<^verbatim>\<open>user_api.c\<close>, \<^verbatim>\<open>admin_api.c\<close>), the bodies made of them, the error envelope of \<^verbatim>\<open>src/src/http/response.c\<close> and the list of
  users, with every allocation that may fail. The handlers of \<open>Auth_Api\<close> and \<open>Read_Api\<close> use the values; here it is
  shown that each builder makes that value of new blocks or returns \<^verbatim>\<open>NULL\<close> and leaves nothing behind. The encoded
  refresh token of \<^verbatim>\<open>token_pair_body\<close> is a buffer of its own (\<open>Base64url\<close>) and an argument here.
\<close>

subsection \<open>Setting a field\<close>

definition set_new :: "(nat \<Rightarrow> bool) \<Rightarrow> (memory \<Rightarrow> (addr option \<times> memory) option) \<Rightarrow> addr \<Rightarrow> bytes \<Rightarrow> memory \<Rightarrow> (bool \<times> memory) option" where
  "set_new avail new obj key m = do {
     (v, m1) \<leftarrow> new m;
     case v of
       None \<Rightarrow> do { m2 \<leftarrow> ps_json_free v m1; Some (False, m2) }
     | Some a \<Rightarrow> do {
         (ok, m2) \<leftarrow> ps_json_object_set_mem avail obj key a m1;
         if \<not> ok then do { m3 \<leftarrow> ps_json_free v m2; Some (False, m3) }
         else Some (True, m2) } }"

definition obj_set_str_mem :: "(nat \<Rightarrow> bool) \<Rightarrow> addr \<Rightarrow> bytes \<Rightarrow> bytes \<Rightarrow> memory \<Rightarrow> (bool \<times> memory) option" where
  "obj_set_str_mem avail obj key val = set_new avail (ps_json_new_string avail val) obj key"

definition obj_set_str_n_mem :: "(nat \<Rightarrow> bool) \<Rightarrow> addr \<Rightarrow> bytes \<Rightarrow> bytes \<Rightarrow> memory \<Rightarrow> (bool \<times> memory) option" where
  "obj_set_str_n_mem avail obj key val = set_new avail (ps_json_new_string_n avail val) obj key"

definition obj_set_num_mem :: "(nat \<Rightarrow> bool) \<Rightarrow> addr \<Rightarrow> bytes \<Rightarrow> double \<Rightarrow> memory \<Rightarrow> (bool \<times> memory) option" where
  "obj_set_num_mem avail obj key val = set_new avail (\<lambda>m. Some (ps_json_new_number avail val m)) obj key"

definition obj_set_bool_mem :: "(nat \<Rightarrow> bool) \<Rightarrow> addr \<Rightarrow> bytes \<Rightarrow> bool \<Rightarrow> memory \<Rightarrow> (bool \<times> memory) option" where
  "obj_set_bool_mem avail obj key val = set_new avail (\<lambda>m. Some (ps_json_new_bool avail val m)) obj key"

text \<open>A body is an object and fields set one after the other, chained by \<^verbatim>\<open>&&\<close>.\<close>

datatype field = Str bytes bytes | Str_n bytes bytes | Num bytes double | Bool bytes bool

fun set_field_mem :: "(nat \<Rightarrow> bool) \<Rightarrow> addr \<Rightarrow> field \<Rightarrow> memory \<Rightarrow> (bool \<times> memory) option" where
  "set_field_mem avail obj (Str key val) = obj_set_str_mem avail obj key val"
| "set_field_mem avail obj (Str_n key val) = obj_set_str_n_mem avail obj key val"
| "set_field_mem avail obj (Num key val) = obj_set_num_mem avail obj key val"
| "set_field_mem avail obj (Bool key val) = obj_set_bool_mem avail obj key val"

fun set_field :: "json \<Rightarrow> field \<Rightarrow> json" where
  "set_field obj (Str key val) = obj_set_str obj key val"
| "set_field obj (Str_n key val) = obj_set_str_n obj key val"
| "set_field obj (Num key val) = obj_set_num obj key val"
| "set_field obj (Bool key val) = obj_set_bool obj key val"

fun set_fields_mem :: "(nat \<Rightarrow> bool) \<Rightarrow> addr \<Rightarrow> field list \<Rightarrow> memory \<Rightarrow> (bool \<times> memory) option" where
  "set_fields_mem avail obj [] m = Some (True, m)"
| "set_fields_mem avail obj (f # fs) m = do {
     (ok, m1) \<leftarrow> set_field_mem avail obj f m;
     if \<not> ok then Some (False, m1) else set_fields_mem avail obj fs m1 }"

definition body_mem :: "(nat \<Rightarrow> bool) \<Rightarrow> field list \<Rightarrow> memory \<Rightarrow> (addr option \<times> memory) option" where
  "body_mem avail fs m =
     (case ps_json_new_object avail m of
        (None, m1) \<Rightarrow> Some (None, m1)
      | (Some body, m1) \<Rightarrow> do {
          (ok, m2) \<leftarrow> set_fields_mem avail body fs m1;
          if \<not> ok then do { m3 \<leftarrow> ps_json_free (Some body) m2; Some (None, m3) }
          else Some (Some body, m2) })"


subsection \<open>The bodies\<close>

definition user_fields :: "ps_user_row_t \<Rightarrow> field list" where
  "user_fields u = [Str ''userId'' (show_int (us_user_id u)), Str ''username'' (us_username u)]"

definition user_write_self_mem :: "(nat \<Rightarrow> bool) \<Rightarrow> ps_user_row_t \<Rightarrow> memory \<Rightarrow> (addr option \<times> memory) option" where
  "user_write_self_mem avail u = body_mem avail (user_fields u @ [Str ''email'' (us_email u)])"

definition user_write_admin_mem :: "(nat \<Rightarrow> bool) \<Rightarrow> ps_user_row_t \<Rightarrow> memory \<Rightarrow> (addr option \<times> memory) option" where
  "user_write_admin_mem avail u = body_mem avail (user_fields u)"

definition token_pair_body_mem :: "(nat \<Rightarrow> bool) \<Rightarrow> bytes \<Rightarrow> bytes \<Rightarrow> int \<Rightarrow> memory \<Rightarrow> (addr option \<times> memory) option" where
  "token_pair_body_mem avail access_token refresh_b64 ttl = body_mem avail
     [Str_n ''access_token'' access_token, Str_n ''refresh_token'' refresh_b64, Str ''token_type'' ''Bearer'', Num ''expires_in'' (double_of_int ttl)]"

definition ps_error_envelope_mem :: "(nat \<Rightarrow> bool) \<Rightarrow> bytes \<Rightarrow> bytes \<Rightarrow> memory \<Rightarrow> (addr option \<times> memory) option" where
  "ps_error_envelope_mem avail code message m = do {
     (inner, m1) \<leftarrow> body_mem avail [Str ''code'' code, Str ''message'' message] m;
     case inner of
       None \<Rightarrow> Some (None, m1)
     | Some i \<Rightarrow>
         (case ps_json_new_object avail m1 of
            (None, m2) \<Rightarrow> do { m3 \<leftarrow> ps_json_free inner m2; Some (None, m3) }
          | (Some outer, m2) \<Rightarrow> do {
              (ok, m3) \<leftarrow> ps_json_object_set_mem avail outer ''error'' i m2;
              if \<not> ok then do { m4 \<leftarrow> free_all [i, outer] m3; Some (None, m4) }
              else Some (Some outer, m3) }) }"

text \<open>The list of users: an entry belongs to the array once it is appended, and the array to the body once it is set.\<close>

definition entry_fields :: "int64 \<times> bytes \<Rightarrow> field list" where
  "entry_fields row = [Str ''userId'' (show_int (fst row)), Str ''username'' (snd row)]"

definition add_user :: "(nat \<Rightarrow> bool) \<Rightarrow> addr \<Rightarrow> int64 \<times> bytes \<Rightarrow> memory \<Rightarrow> (bool \<times> memory) option" where
  "add_user avail users row m =
     (case ps_json_new_object avail m of
        (None, m1) \<Rightarrow> do { m2 \<leftarrow> ps_json_free None m1; Some (False, m2) }
      | (Some entry, m1) \<Rightarrow> do {
          (ok, m2) \<leftarrow> set_fields_mem avail entry (entry_fields row) m1;
          (ok, m3) \<leftarrow> (if ok then ps_json_array_append_mem avail users entry m2 else Some (False, m2));
          if \<not> ok then do { m4 \<leftarrow> ps_json_free (Some entry) m3; Some (False, m4) }
          else Some (True, m3) })"

fun add_users :: "(nat \<Rightarrow> bool) \<Rightarrow> addr \<Rightarrow> (int64 \<times> bytes) list \<Rightarrow> memory \<Rightarrow> (bool \<times> memory) option" where
  "add_users avail users [] m = Some (True, m)"
| "add_users avail users (row # rows) m = do {
     (ok, m1) \<leftarrow> add_user avail users row m;
     if \<not> ok then Some (False, m1) else add_users avail users rows m1 }"

definition page_fields :: "(int64 \<times> bytes) list \<Rightarrow> int64 \<Rightarrow> int \<Rightarrow> field list" where
  "page_fields rows after_id limit =
     [Num ''count'' (double_of_int (int (length rows))),
      Str ''nextAfterId'' (show_int (if rows \<noteq> [] then fst (last rows) else after_id)),
      Bool ''hasMore'' (int (length rows) = limit)]"

definition list_body_mem :: "(nat \<Rightarrow> bool) \<Rightarrow> (int64 \<times> bytes) list \<Rightarrow> int64 \<Rightarrow> int \<Rightarrow> memory \<Rightarrow> (addr option \<times> memory) option" where
  "list_body_mem avail rows after_id limit m =
     (let (users, m1) = ps_json_new_array avail m in do {
        (ok1, m2) \<leftarrow> (case users of None \<Rightarrow> Some (False, m1) | Some u \<Rightarrow> add_users avail u rows m1);
        let (body, m3) = ps_json_new_object avail m2;
        (ok2, m4) \<leftarrow> (case (body, users) of
           (Some b, Some u) \<Rightarrow> if ok1 then ps_json_object_set_mem avail b ''users'' u m3 else Some (False, m3)
         | _ \<Rightarrow> Some (False, m3));
        m5 \<leftarrow> (if \<not> ok2 then ps_json_free users m4 else Some m4);
        (ok3, m6) \<leftarrow> (case body of
           Some b \<Rightarrow> if ok2 then set_fields_mem avail b (page_fields rows after_id limit) m5 else Some (False, m5)
         | None \<Rightarrow> Some (False, m5));
        if \<not> ok3 then do { m7 \<leftarrow> ps_json_free body m6; Some (None, m7) }
        else Some (body, m6) })"


subsection \<open>A field is set, or the object is as it was\<close>

text \<open>An operation that grows the container at \<open>a\<close> from \<open>v\<close> to \<open>v'\<close>: on failure the container still is some \<open>v''\<close>.\<close>

definition extends :: "(nat \<Rightarrow> bool) \<Rightarrow> json \<Rightarrow> addr \<Rightarrow> memory \<Rightarrow> addr set \<Rightarrow> bool \<times> memory \<Rightarrow> bool" where
  "extends avail v' a m A = (\<lambda>(ok, m'). step_ok avail m ok m' \<and> (ok \<longrightarrow> becomes v' a m A m') \<and> (\<exists>v''. becomes v'' a m A m'))"

lemma becomes_trans:
  assumes "becomes v a m A m1" and "\<And>A1. rep (m_blocks m1) v a A1 \<Longrightarrow> becomes v' a m1 A1 m2"
  shows "becomes v' a m A m2"
  using assms unfolding becomes_def by metis

lemma set_new_ok:
  assumes obj: "rep (m_blocks m) (JObject ms) a A" and fr: "fresh m" and new: "yields (new m) (made avail m x)"
  shows "yields (set_new avail new a key m) (extends avail (ps_json_object_set (JObject ms) key x) a m A)"
proof -
  from new obtain v m1 where n: "new m = Some (v, m1)" "made avail m x (v, m1)" by (auto simp: yields_def)
  show ?thesis
  proof (cases v)
    case None
    with n obj show ?thesis by (auto simp: set_new_def ps_json_free_def json_free.simps made_def extends_def becomes_def)
  next
    case (Some b)
    with n(2) obtain B where B: "rep (m_blocks m1) x b B" "m_blocks m1 |` (- B) = m_blocks m" and st: "step_ok avail m True m1"
      by (auto simp: made_def)
    have "m_blocks m1 |` (- B) = m_blocks m |` (- {})" using B(2) by (simp add: restrict_map_def)
    from rep_keep [OF this obj] have o: "rep (m_blocks m1) (JObject ms) a A" "A \<inter> B = {}" by auto
    have fr1: "fresh m1" using st by (simp add: step_ok_def)
    have rest: "m_blocks m1 |` (- (A \<union> B)) = m_blocks m |` (- A)" unfolding B(2) [symmetric] by (simp add: Int_commute)
    from object_set_ok [OF o(1) B(1) o(2) fr1, of avail key] obtain ok m2 where s: "ps_json_object_set_mem avail a key b m1 = Some (ok, m2)"
      "step_ok avail m1 ok m2" "\<not> ok \<Longrightarrow> becomes (JObject ms) a m1 A m2" "ok \<Longrightarrow> becomes (ps_json_object_set (JObject ms) key x) a m1 (A \<union> B) m2" by blast
    have st2: "step_ok avail m ok m2" using step_ok_trans [OF st s(2)] .
    show ?thesis
    proof (cases ok)
      case True
      then have "becomes (ps_json_object_set (JObject ms) key x) a m A m2" using s(4) rest by (simp add: becomes_def)
      with n(1) Some s(1) True st2 show ?thesis by (auto simp: set_new_def extends_def)
    next
      case False
      with s(3) obtain A2 where A2: "rep (m_blocks m2) (JObject ms) a A2" "m_blocks m2 |` (- A2) = m_blocks m1 |` (- A)" by (auto simp: becomes_def)
      from rep_keep [OF A2(2) B(1) o(2)] have b: "rep (m_blocks m2) x b B" "A2 \<inter> B = {}" by simp_all
      have "rep (m_blocks (without B m2)) (JObject ms) a A2" using A2(1) by (rule rep_frame) (use b(2) in \<open>auto simp: restrict_map_def\<close>)
      moreover have "m_blocks (without B m2) |` (- A2) = m_blocks m |` (- A)" using restrict_diff [OF A2(2) b(2) o(2)] rest by (simp add: Int_commute)
      ultimately have "becomes (JObject ms) a m A (without B m2)" by (auto simp: becomes_def)
      moreover have "step_ok avail m False (without B m2)" using st2 False by (auto simp: step_ok_def failed_def)
      ultimately show ?thesis using n(1) Some s(1) False ps_json_free_rep [OF b(1)] by (auto simp: set_new_def extends_def)
    qed
  qed
qed

lemma set_field_ok:
  assumes obj: "rep (m_blocks m) (JObject ms) a A" and fr: "fresh m"
  shows "yields (set_field_mem avail a f m) (extends avail (set_field (JObject ms) f) a m A)"
proof (cases f)
  case (Str k s)
  then show ?thesis using set_new_ok [where new = "ps_json_new_string_n avail (cstr s)", OF obj fr new_string_made [OF fr]]
    by (simp add: obj_set_str_mem_def ps_json_new_string_def [abs_def] obj_set_str_def)
next
  case (Str_n k s)
  then show ?thesis using set_new_ok [where new = "ps_json_new_string_n avail s", OF obj fr new_string_made [OF fr]] by (simp add: obj_set_str_n_mem_def obj_set_str_n_def)
next
  case (Num k n)
  have "yields (Some (ps_json_new_number avail n m)) (made avail m (JNumber n))" using new_made(3) [OF fr] by simp
  from set_new_ok [where new = "\<lambda>m. Some (ps_json_new_number avail n m)", OF obj fr this] Num show ?thesis
    by (simp add: obj_set_num_mem_def obj_set_num_def)
next
  case (Bool k b)
  have "yields (Some (ps_json_new_bool avail b m)) (made avail m (JBool b))" using new_made(2) [OF fr] by simp
  from set_new_ok [where new = "\<lambda>m. Some (ps_json_new_bool avail b m)", OF obj fr this] Bool show ?thesis
    by (simp add: obj_set_bool_mem_def obj_set_bool_def)
qed

lemma set_field_object: "\<exists>ms'. set_field (JObject ms) f = JObject ms'"
  by (cases f) (simp_all add: obj_set_str_def obj_set_str_n_def obj_set_num_def obj_set_bool_def)

lemma extends_trans:
  assumes "step_ok avail m True m1" and "m_blocks m1 |` (- A1) = m_blocks m |` (- A)" and "extends avail v a m1 A1 r"
  shows "extends avail v a m A r"
  using assms step_ok_trans by (auto simp: extends_def becomes_def)

lemma set_fields_ok:
  assumes "rep (m_blocks m) (JObject ms) a A" and "fresh m"
  shows "yields (set_fields_mem avail a fs m) (extends avail (foldl set_field (JObject ms) fs) a m A)"
  using assms
proof (induction fs arbitrary: m ms A)
  case Nil
  then show ?case by (auto simp: extends_def step_ok_def becomes_def)
next
  case (Cons f fs)
  from set_field_ok [OF Cons.prems, of avail f] obtain ok m1 where f: "set_field_mem avail a f m = Some (ok, m1)"
    "extends avail (set_field (JObject ms) f) a m A (ok, m1)" by (auto simp: yields_def)
  obtain ms' where ms': "set_field (JObject ms) f = JObject ms'" using set_field_object by blast
  show ?case
  proof (cases ok)
    case False
    with f show ?thesis by (auto simp: extends_def)
  next
    case True
    with f(2) ms' obtain A1 where A1: "rep (m_blocks m1) (JObject ms') a A1" "m_blocks m1 |` (- A1) = m_blocks m |` (- A)" "step_ok avail m True m1"
      by (auto simp: extends_def becomes_def)
    then have "fresh m1" by (simp add: step_ok_def)
    from Cons.IH [OF A1(1) this] f(1) True ms' show ?thesis
      by (auto elim!: yields_mono intro: extends_trans [OF A1(3,2)])
  qed
qed



subsection \<open>A body is made, or nothing is left\<close>

lemma made_SomeD:
  assumes "made avail m v (Some a, m1)"
  obtains A where "rep (m_blocks m1) v a A" "m_blocks m1 |` (- A) = m_blocks m" "step_ok avail m True m1" "fresh m1"
  using assms by (auto simp: made_def step_ok_def)

lemma made_NoneI: "m_blocks m' = m_blocks m \<Longrightarrow> step_ok avail m False m' \<Longrightarrow> made avail m v (None, m')"
  by (simp add: made_def)

lemma made_SomeI: "rep (m_blocks m') v a A \<Longrightarrow> m_blocks m' |` (- A) = m_blocks m \<Longrightarrow> step_ok avail m True m' \<Longrightarrow> made avail m v (Some a, m')"
  by (auto simp: made_def)

lemma step_ok_without: "step_ok avail m ok m' \<Longrightarrow> step_ok avail m ok (without A m')"
  by (auto simp: step_ok_def failed_def)

text \<open>What a failed extension leaves is freed with its owner.\<close>

lemma extends_freed:
  assumes "extends avail v a m A (False, m')"
  shows "\<exists>m''. ps_json_free (Some a) m' = Some m'' \<and> m_blocks m'' = m_blocks m |` (- A) \<and> step_ok avail m False m''"
proof -
  from assms obtain w A' where "rep (m_blocks m') w a A'" "m_blocks m' |` (- A') = m_blocks m |` (- A)" "step_ok avail m False m'"
    by (auto simp: extends_def becomes_def)
  with ps_json_free_rep [of m' w a A'] step_ok_without show ?thesis by auto
qed

text \<open>The fields of an object that is owned: all are set, or it is freed.\<close>

definition fields_or_free :: "(nat \<Rightarrow> bool) \<Rightarrow> addr \<Rightarrow> field list \<Rightarrow> memory \<Rightarrow> (addr option \<times> memory) option" where
  "fields_or_free avail body fs m = do {
     (ok, m2) \<leftarrow> set_fields_mem avail body fs m;
     if \<not> ok then do { m3 \<leftarrow> ps_json_free (Some body) m2; Some (None, m3) }
     else Some (Some body, m2) }"

lemma fields_or_free_ok:
  assumes A: "rep (m_blocks m1) (JObject ms) a A" "m_blocks m1 |` (- A) = m_blocks m" and st: "step_ok avail m True m1"
  shows "yields (fields_or_free avail a fs m1) (made avail m (foldl set_field (JObject ms) fs))"
proof -
  have "fresh m1" using st by (simp add: step_ok_def)
  from set_fields_ok [OF A(1) this, of avail fs] obtain ok m2 where f: "set_fields_mem avail a fs m1 = Some (ok, m2)"
    "extends avail (foldl set_field (JObject ms) fs) a m1 A (ok, m2)" by (auto simp: yields_def)
  show ?thesis
  proof (cases ok)
    case True
    with f(2) A have "made avail m (foldl set_field (JObject ms) fs) (Some a, m2)"
      by (auto simp: extends_def becomes_def intro!: made_SomeI step_ok_trans [OF st])
    with f(1) True show ?thesis by (simp add: fields_or_free_def)
  next
    case False
    with f(2) have "extends avail (foldl set_field (JObject ms) fs) a m1 A (False, m2)" by simp
    from extends_freed [OF this] A(2) obtain m3 where "ps_json_free (Some a) m2 = Some m3" "m_blocks m3 = m_blocks m" "step_ok avail m1 False m3" by auto
    with f(1) False step_ok_trans [OF st] show ?thesis by (auto simp: fields_or_free_def intro!: made_NoneI)
  qed
qed

lemma body_ok:
  assumes fr: "fresh m"
  shows "yields (body_mem avail fs m) (made avail m (foldl set_field (JObject []) fs))"
proof (cases "ps_json_new_object avail m")
  case (Pair b m1)
  with new_made(5) [OF fr, of avail] have n: "made avail m (JObject []) (b, m1)" by simp
  show ?thesis
  proof (cases b)
    case None
    with Pair n show ?thesis by (auto simp: body_mem_def made_def)
  next
    case (Some a)
    with n obtain A where "rep (m_blocks m1) (JObject []) a A" "m_blocks m1 |` (- A) = m_blocks m" "step_ok avail m True m1"
      by (auto elim: made_SomeD)
    from fields_or_free_ok [OF this, of fs] Pair Some show ?thesis by (simp add: body_mem_def fields_or_free_def)
  qed
qed

text \<open>A value moves into a new object, or both are given back.\<close>

lemma wrapped_ok:
  assumes i: "rep (m_blocks m1) v i B" "m_blocks m1 |` (- B) = m_blocks m" "step_ok avail m True m1"
  shows "(\<exists>m2. ps_json_new_object avail m1 = (None, m2) \<and> step_ok avail m False m2 \<and> ps_json_free (Some i) m2 = Some (without B m2) \<and>
      m_blocks (without B m2) = m_blocks m) \<or>
    (\<exists>b m2 ok m3. ps_json_new_object avail m1 = (Some b, m2) \<and> ps_json_object_set_mem avail b key i m2 = Some (ok, m3) \<and> step_ok avail m ok m3 \<and>
      (ok \<longrightarrow> (\<exists>A. rep (m_blocks m3) (ps_json_object_set (JObject []) key v) b A \<and> m_blocks m3 |` (- A) = m_blocks m)) \<and>
      (\<not> ok \<longrightarrow> (\<exists>A w. rep (m_blocks m3) v i B \<and> rep (m_blocks m3) w b A \<and> A \<inter> B = {} \<and> m_blocks m3 |` (- (A \<union> B)) = m_blocks m)))"
proof -
  have fr1: "fresh m1" using i(3) by (simp add: step_ok_def)
  obtain r m2 where n: "ps_json_new_object avail m1 = (r, m2)" by (cases "ps_json_new_object avail m1")
  note md = new_made(5) [OF fr1, of avail, unfolded n]
  show ?thesis
  proof (cases r)
    case None
    with md have "m_blocks m2 = m_blocks m1" "step_ok avail m1 False m2" by (auto simp: made_def)
    with i n None ps_json_free_rep [of m2 v i B] step_ok_trans show ?thesis by auto
  next
    case (Some b)
    with md obtain A where A: "rep (m_blocks m2) (JObject []) b A" "m_blocks m2 |` (- A) = m_blocks m1" "step_ok avail m1 True m2" "fresh m2"
      by (auto elim: made_SomeD)
    have "m_blocks m2 |` (- A) = m_blocks m1 |` (- {})" using A(2) by (simp add: restrict_map_def)
    from rep_keep [OF this i(1)] have i2: "rep (m_blocks m2) v i B" "A \<inter> B = {}" by auto
    have rest: "m_blocks m2 |` (- (A \<union> B)) = m_blocks m" unfolding i(2) [symmetric] A(2) [symmetric] by simp
    from object_set_ok [OF A(1) i2 A(4), of avail key] obtain ok m3 where s: "ps_json_object_set_mem avail b key i m2 = Some (ok, m3)"
      "step_ok avail m2 ok m3" "\<not> ok \<Longrightarrow> becomes (JObject []) b m2 A m3" "ok \<Longrightarrow> becomes (ps_json_object_set (JObject []) key v) b m2 (A \<union> B) m3" by blast
    have "step_ok avail m ok m3" using step_ok_trans [OF step_ok_trans [OF i(3) A(3)] s(2)] .
    moreover have "\<exists>A' w. rep (m_blocks m3) v i B \<and> rep (m_blocks m3) w b A' \<and> A' \<inter> B = {} \<and> m_blocks m3 |` (- (A' \<union> B)) = m_blocks m" if "\<not> ok"
    proof -
      from s(3) [OF that] obtain A' where A': "rep (m_blocks m3) (JObject []) b A'" "m_blocks m3 |` (- A') = m_blocks m2 |` (- A)" by (auto simp: becomes_def)
      from rep_keep [OF A'(2) i2] restrict_diff [OF A'(2) _ i2(2)] A'(1) rest show ?thesis by auto
    qed
    ultimately show ?thesis using n Some s(1,4) rest by (auto simp: becomes_def)
  qed
qed

lemma free_all_ok:
  "rep (m_blocks m) v a A \<Longrightarrow> rep (m_blocks m) w b B \<Longrightarrow> B \<inter> A = {} \<Longrightarrow> free_all [a, b] m = Some (without (A \<union> B) m)"
  using give_up_ok(2) [of m v a A w b B] by (auto simp: give_up_def bind_eq_Some_conv)

lemma error_envelope_made:
  assumes fr: "fresh m"
  shows "yields (ps_error_envelope_mem avail code message m) (made avail m (ps_error_envelope code message))"
proof -
  let ?i = "foldl set_field (JObject []) [Str ''code'' code, Str ''message'' message]"
  have env: "ps_error_envelope code message = ps_json_object_set (JObject []) ''error'' ?i"
    by (simp add: ps_error_envelope_def Let_def obj_set_str_def)
  from body_ok [OF fr, of avail "[Str ''code'' code, Str ''message'' message]"] obtain inner m1 where
    b: "body_mem avail [Str ''code'' code, Str ''message'' message] m = Some (inner, m1)" "made avail m ?i (inner, m1)" by (auto simp: yields_def)
  show ?thesis
  proof (cases inner)
    case None
    with b show ?thesis by (auto simp: ps_error_envelope_mem_def made_def)
  next
    case (Some i)
    with b(2) obtain B where B: "rep (m_blocks m1) ?i i B" "m_blocks m1 |` (- B) = m_blocks m" "step_ok avail m True m1" by (auto elim: made_SomeD)
    from wrapped_ok [OF B, of "''error''"] b(1) Some show ?thesis unfolding env
    proof (elim disjE exE conjE, goal_cases)
      case (1 m2)
      then show ?case by (auto simp: ps_error_envelope_mem_def made_def intro: step_ok_without)
    next
      case (2 o' m2 ok m3)
      show ?case
      proof (cases ok)
        case True
        with 2 show ?thesis by (auto simp: ps_error_envelope_mem_def made_def)
      next
        case False
        with 2 obtain A w where "rep (m_blocks m3) ?i i B" "rep (m_blocks m3) w o' A" "A \<inter> B = {}" "m_blocks m3 |` (- (A \<union> B)) = m_blocks m" by auto
        with 2 False free_all_ok [of m3 ?i i B w o' A] show ?thesis
          by (auto simp: ps_error_envelope_mem_def made_def Un_commute simp del: free_all.simps intro: step_ok_without)
      qed
    qed
  qed
qed



subsection \<open>The list of users\<close>

lemma free_NULL: "ps_json_free None m = Some m"
  by (simp add: ps_json_free_def json_free.simps)

lemma extends_refl: "step_ok avail m False m' \<Longrightarrow> m_blocks m' = m_blocks m \<Longrightarrow> rep (m_blocks m) v a A \<Longrightarrow> extends avail w a m A (False, m')"
  by (auto simp: extends_def becomes_def)

lemma add_user_ok:
  assumes arr: "rep (m_blocks m) (JArray xs) a A" and fr: "fresh m"
  shows "yields (add_user avail a row m) (extends avail (JArray (xs @ [user_entry row])) a m A)"
proof -
  obtain r m1 where n: "ps_json_new_object avail m = (r, m1)" by (cases "ps_json_new_object avail m")
  note md = new_made(5) [OF fr, of avail, unfolded n]
  show ?thesis
  proof (cases r)
    case None
    with md n arr show ?thesis by (auto simp: add_user_def free_NULL made_def intro!: extends_refl)
  next
    case (Some e)
    with md obtain E where E: "rep (m_blocks m1) (JObject []) e E" "m_blocks m1 |` (- E) = m_blocks m" "step_ok avail m True m1" "fresh m1"
      by (auto elim: made_SomeD)
    from set_fields_ok [OF E(1,4), of avail "entry_fields row"] obtain ok m2 where f: "set_fields_mem avail e (entry_fields row) m1 = Some (ok, m2)"
      "extends avail (user_entry row) e m1 E (ok, m2)" by (auto simp: yields_def user_entry_def entry_fields_def)
    show ?thesis
    proof (cases ok)
      case False
      with f(2) have "extends avail (user_entry row) e m1 E (False, m2)" by simp
      from extends_freed [OF this] E(2) obtain m3 where "ps_json_free (Some e) m2 = Some m3" "m_blocks m3 = m_blocks m" "step_ok avail m1 False m3" by auto
      with n Some f(1) False step_ok_trans [OF E(3)] arr show ?thesis by (auto simp: add_user_def intro!: extends_refl)
    next
      case True
      with f(2) E(2,3) obtain E2 where E2: "rep (m_blocks m2) (user_entry row) e E2" "m_blocks m2 |` (- E2) = m_blocks m"
        and st2: "step_ok avail m True m2" by (auto simp: extends_def becomes_def intro: step_ok_trans)
      have "m_blocks m2 |` (- E2) = m_blocks m |` (- {})" using E2(2) by (simp add: restrict_map_def)
      from rep_keep [OF this arr] have arr2: "rep (m_blocks m2) (JArray xs) a A" "A \<inter> E2 = {}" by auto
      have rest: "m_blocks m2 |` (- (A \<union> E2)) = m_blocks m |` (- A)" unfolding E2(2) [symmetric] by (simp add: Int_commute)
      have "fresh m2" using st2 by (simp add: step_ok_def)
      from array_append_ok [OF arr2(1) E2(1) arr2(2) this, of avail] obtain ok3 m3 where ap: "ps_json_array_append_mem avail a e m2 = Some (ok3, m3)"
        "step_ok avail m2 ok3 m3" "\<not> ok3 \<Longrightarrow> m_blocks m3 = m_blocks m2" "ok3 \<Longrightarrow> becomes (JArray (xs @ [user_entry row])) a m2 (A \<union> E2) m3" by blast
      note st3 = step_ok_trans [OF st2 ap(2)]
      show ?thesis
      proof (cases ok3)
        case ok3: True
        with ap(4) rest have "becomes (JArray (xs @ [user_entry row])) a m A m3" by (simp add: becomes_def)
        with n Some f(1) True ap(1) ok3 st3 show ?thesis by (auto simp: add_user_def extends_def)
      next
        case ok3: False
        with ap(3) ps_json_free_rep [of m3 "user_entry row" e E2] E2 have "ps_json_free (Some e) m3 = Some (without E2 m3)" "m_blocks (without E2 m3) = m_blocks m" by simp_all
        with n Some f(1) True ap(1) ok3 step_ok_without [of avail m False m3 E2] st3 arr show ?thesis
          by (auto simp: add_user_def intro!: extends_refl)
      qed
    qed
  qed
qed

lemma add_users_ok:
  assumes "rep (m_blocks m) (JArray xs) a A" and "fresh m"
  shows "yields (add_users avail a rows m) (extends avail (JArray (xs @ map user_entry rows)) a m A)"
  using assms
proof (induction rows arbitrary: m xs A)
  case Nil
  then show ?case by (auto simp: extends_def step_ok_def becomes_def)
next
  case (Cons row rows)
  from add_user_ok [OF Cons.prems, of avail row] obtain ok m1 where f: "add_user avail a row m = Some (ok, m1)"
    "extends avail (JArray (xs @ [user_entry row])) a m A (ok, m1)" by (auto simp: yields_def)
  show ?case
  proof (cases ok)
    case False
    with f show ?thesis by (auto simp: extends_def)
  next
    case True
    with f(2) obtain A1 where A1: "rep (m_blocks m1) (JArray (xs @ [user_entry row])) a A1" "m_blocks m1 |` (- A1) = m_blocks m |` (- A)" "step_ok avail m True m1"
      by (auto simp: extends_def becomes_def)
    then have "fresh m1" by (simp add: step_ok_def)
    from Cons.IH [OF A1(1) this] f(1) True show ?thesis by (auto elim!: yields_mono intro: extends_trans [OF A1(3,2)])
  qed
qed

lemma foldl_append_array: "foldl ps_json_array_append (JArray xs) ys = JArray (xs @ ys)"
  by (induction ys arbitrary: xs) auto

lemma list_body_fields:
  "list_body rows after_id limit = foldl set_field (ps_json_object_set (JObject []) ''users'' (JArray (map user_entry rows))) (page_fields rows after_id limit)"
  by (simp add: list_body_def Let_def page_fields_def foldl_append_array)


text \<open>What has been built so far is given up: the users, if any, and a body that has been allocated meanwhile.\<close>

lemma abandon:
  assumes u: "case users of None \<Rightarrow> m_blocks m2 = m_blocks m | Some u \<Rightarrow> \<exists>w B. rep (m_blocks m2) w u B \<and> m_blocks m2 |` (- B) = m_blocks m"
    and st: "step_ok avail m False m2"
  shows "\<exists>b m3 m5 m7. ps_json_new_object avail m2 = (b, m3) \<and> ps_json_free users m3 = Some m5 \<and> ps_json_free b m5 = Some m7 \<and>
    m_blocks m7 = m_blocks m \<and> step_ok avail m False m7"
proof -
  have fr: "fresh m2" using st by (simp add: step_ok_def)
  obtain b m3 where n: "ps_json_new_object avail m2 = (b, m3)" by (cases "ps_json_new_object avail m2")
  note md = new_made(5) [OF fr, of avail, unfolded n]
  from md obtain A w where A: "case b of None \<Rightarrow> A = {} | Some c \<Rightarrow> rep (m_blocks m3) w c A" "m_blocks m3 |` (- A) = m_blocks m2"
    by (cases b) (auto simp: made_def restrict_map_def)
  have st3: "step_ok avail m False m3" using st md failed_mono [of avail m m2 m m3] by (auto simp: made_def step_ok_def)
  obtain B where B: "ps_json_free users m3 = Some (without B m3)" "A \<inter> B = {}" "m_blocks m2 |` (- B) = m_blocks m"
  proof (cases users)
    case None
    with u that [of "{}"] show thesis by (simp add: free_NULL restrict_map_def)
  next
    case (Some x)
    with u obtain w B where w: "rep (m_blocks m2) w x B" "m_blocks m2 |` (- B) = m_blocks m" by auto
    have "m_blocks m3 |` (- A) = m_blocks m2 |` (- {})" using A(2) by (simp add: restrict_map_def)
    from rep_keep [OF this w(1)] Some ps_json_free_rep [of m3 w x B] w(2) that show thesis by auto
  qed
  have "ps_json_free b (without B m3) = Some (without (B \<union> A) m3)"
  proof (cases b)
    case None
    with A(1) show ?thesis by (simp add: free_NULL)
  next
    case (Some c)
    with A(1) have "rep (m_blocks m3) w c A" by simp
    then have "rep (m_blocks (without B m3)) w c A" by (rule rep_frame) (use B(2) in \<open>auto simp: restrict_map_def\<close>)
    with Some show ?thesis by (simp add: ps_json_free_rep)
  qed
  moreover have "m_blocks (without (B \<union> A) m3) = m_blocks m" using A(2) B(3) by (simp add: Int_commute flip: restrict_restrict)
  ultimately show ?thesis using n B(1) st3 step_ok_without by blast
qed

lemma list_body_failed:
  assumes "ps_json_new_array avail m = (users, m1)"
    and "(case users of None \<Rightarrow> Some (False, m1) | Some u \<Rightarrow> add_users avail u rows m1) = Some (False, m2)"
    and "case users of None \<Rightarrow> m_blocks m2 = m_blocks m | Some u \<Rightarrow> \<exists>w B. rep (m_blocks m2) w u B \<and> m_blocks m2 |` (- B) = m_blocks m"
    and "step_ok avail m False m2"
  shows "yields (list_body_mem avail rows after_id limit m) (made avail m v)"
  using abandon [OF assms(3,4)] assms(1,2)
  by (auto simp: list_body_mem_def Let_def split: option.splits intro!: made_NoneI)

text \<open>The array is complete: it is put into the body, which gets its other fields.\<close>

lemma list_body_wrapped:
  assumes n: "ps_json_new_array avail m = (Some u, m1)" and a: "add_users avail u rows m1 = Some (True, m2)"
    and B: "rep (m_blocks m2) (JArray (map user_entry rows)) u B" "m_blocks m2 |` (- B) = m_blocks m" and st: "step_ok avail m True m2"
  shows "yields (list_body_mem avail rows after_id limit m) (made avail m (list_body rows after_id limit))"
proof -
  show ?thesis
    using wrapped_ok [OF B st, of "''users''"]
  proof (elim disjE exE conjE, goal_cases)
    case (1 m3)
    then show ?case using n a step_ok_without by (auto simp: list_body_mem_def free_NULL intro!: made_NoneI)
  next
    case (2 b m3 ok4 m4)
    show ?case
    proof (cases ok4)
      case False
      with 2 obtain C w where C: "rep (m_blocks m4) (JArray (map user_entry rows)) u B" "rep (m_blocks m4) w b C" "C \<inter> B = {}"
        "m_blocks m4 |` (- (C \<union> B)) = m_blocks m" by auto
      have "rep (m_blocks (without B m4)) w b C" using C(2) by (rule rep_frame) (use C(3) in \<open>auto simp: restrict_map_def\<close>)
      with ps_json_free_rep [OF C(1)] ps_json_free_rep [of "without B m4" w b C] 2 False n a C(4) show ?thesis
        by (auto simp: list_body_mem_def Un_commute intro!: made_NoneI step_ok_without)
    next
      case ok4: True
      let ?o = "ps_json_object_set (JObject []) ''users'' (JArray (map user_entry rows))"
      from 2 ok4 obtain C where C: "rep (m_blocks m4) ?o b C" "m_blocks m4 |` (- C) = m_blocks m" and st4: "step_ok avail m True m4" by auto
      from C(1) have "rep (m_blocks m4) (JObject [(''users'', JArray (map user_entry rows))]) b C" by (simp add: cstr_def)
      from fields_or_free_ok [OF this C(2) st4, of "page_fields rows after_id limit"]
      have "yields (fields_or_free avail b (page_fields rows after_id limit) m4) (made avail m (list_body rows after_id limit))"
        by (simp add: list_body_fields cstr_def)
      moreover have "list_body_mem avail rows after_id limit m = fields_or_free avail b (page_fields rows after_id limit) m4"
        using 2 n a ok4 by (simp add: list_body_mem_def fields_or_free_def split_beta cong: if_cong)
      ultimately show ?thesis by simp
    qed
  qed
qed

lemma list_body_ok:
  assumes fr: "fresh m"
  shows "yields (list_body_mem avail rows after_id limit m) (made avail m (list_body rows after_id limit))"
proof -
  obtain users m1 where n: "ps_json_new_array avail m = (users, m1)" by (cases "ps_json_new_array avail m")
  note md = new_made(4) [OF fr, of avail, unfolded n]
  show ?thesis
  proof (cases users)
    case None
    with md n show ?thesis by (intro list_body_failed [OF n, where ?m2.0 = m1]) (auto simp: made_def)
  next
    case (Some u)
    with md obtain A where A: "rep (m_blocks m1) (JArray []) u A" "m_blocks m1 |` (- A) = m_blocks m" "step_ok avail m True m1" "fresh m1"
      by (auto elim: made_SomeD)
    from add_users_ok [OF A(1,4), of avail rows] obtain ok m2 where a: "add_users avail u rows m1 = Some (ok, m2)"
      "extends avail (JArray (map user_entry rows)) u m1 A (ok, m2)" by (auto simp: yields_def)
    have st: "step_ok avail m ok m2" using a(2) step_ok_trans [OF A(3)] by (auto simp: extends_def)
    show ?thesis
    proof (cases ok)
      case False
      with a A(2) Some st show ?thesis by (intro list_body_failed [OF n, where ?m2.0 = m2]) (auto simp: extends_def becomes_def)
    next
      case True
      with a(2) A(2) obtain B where B: "rep (m_blocks m2) (JArray (map user_entry rows)) u B" "m_blocks m2 |` (- B) = m_blocks m"
        by (auto simp: extends_def becomes_def)
      from list_body_wrapped [OF _ _ this] n a(1) st Some True show ?thesis by simp
    qed
  qed
qed





end
