(* ===== verification/Routes.thy ===== *)
theory Routes
  imports Auth_Api Read_Api
begin

text \<open>
  The table of routes, the access policies (\<^verbatim>\<open>src/src/api/rbac.c\<close>) and the dispatcher
  (\<^verbatim>\<open>src/src/api/routes.c\<close>) that authenticates, authorizes and calls a handler.
\<close>

subsection \<open>Routes and policies\<close>

definition PS_ROUTE_ID_HEALTHZ :: nat where "PS_ROUTE_ID_HEALTHZ = 1"
definition PS_ROUTE_ID_READYZ :: nat where "PS_ROUTE_ID_READYZ = 2"
definition PS_ROUTE_ID_REGISTER :: nat where "PS_ROUTE_ID_REGISTER = 3"
definition PS_ROUTE_ID_VERIFY :: nat where "PS_ROUTE_ID_VERIFY = 4"
definition PS_ROUTE_ID_RESEND_VERIFICATION :: nat where "PS_ROUTE_ID_RESEND_VERIFICATION = 5"
definition PS_ROUTE_ID_LOGIN :: nat where "PS_ROUTE_ID_LOGIN = 6"
definition PS_ROUTE_ID_REFRESH :: nat where "PS_ROUTE_ID_REFRESH = 7"
definition PS_ROUTE_ID_LOGOUT :: nat where "PS_ROUTE_ID_LOGOUT = 8"
definition PS_ROUTE_ID_PASSWORD_CHANGE :: nat where "PS_ROUTE_ID_PASSWORD_CHANGE = 9"
definition PS_ROUTE_ID_GET_USER :: nat where "PS_ROUTE_ID_GET_USER = 10"
definition PS_ROUTE_ID_ADMIN_COUNT_USERS :: nat where "PS_ROUTE_ID_ADMIN_COUNT_USERS = 11"
definition PS_ROUTE_ID_ADMIN_LIST_USERS :: nat where "PS_ROUTE_ID_ADMIN_LIST_USERS = 12"

lemmas route_ids = PS_ROUTE_ID_HEALTHZ_def PS_ROUTE_ID_READYZ_def PS_ROUTE_ID_REGISTER_def PS_ROUTE_ID_VERIFY_def
  PS_ROUTE_ID_RESEND_VERIFICATION_def PS_ROUTE_ID_LOGIN_def PS_ROUTE_ID_REFRESH_def PS_ROUTE_ID_LOGOUT_def
  PS_ROUTE_ID_PASSWORD_CHANGE_def PS_ROUTE_ID_GET_USER_def PS_ROUTE_ID_ADMIN_COUNT_USERS_def PS_ROUTE_ID_ADMIN_LIST_USERS_def

datatype ps_policy_kind_t = PS_POLICY_PUBLIC | PS_POLICY_AUTHENTICATED | PS_POLICY_ROLE | PS_POLICY_SELF_OR_ROLE

record ps_route_policy_t =
  po_route_id :: nat
  po_method :: bytes
  po_path_pattern :: bytes
  po_kind :: ps_policy_kind_t
  po_required_role :: "32 word"

definition policy :: "nat \<Rightarrow> bytes \<Rightarrow> bytes \<Rightarrow> ps_policy_kind_t \<Rightarrow> 32 word \<Rightarrow> ps_route_policy_t" where
  "policy i m p k r = \<lparr>po_route_id = i, po_method = m, po_path_pattern = p, po_kind = k, po_required_role = r\<rparr>"

definition PS_RBAC_POLICIES :: "ps_route_policy_t list" where
  "PS_RBAC_POLICIES = [
     policy PS_ROUTE_ID_HEALTHZ ''GET'' ''/healthz'' PS_POLICY_PUBLIC 0,
     policy PS_ROUTE_ID_READYZ ''GET'' ''/readyz'' PS_POLICY_PUBLIC 0,
     policy PS_ROUTE_ID_REGISTER ''POST'' ''/v1/auth/register'' PS_POLICY_PUBLIC 0,
     policy PS_ROUTE_ID_VERIFY ''POST'' ''/v1/auth/verify'' PS_POLICY_PUBLIC 0,
     policy PS_ROUTE_ID_RESEND_VERIFICATION ''POST'' ''/v1/auth/resend-verification'' PS_POLICY_PUBLIC 0,
     policy PS_ROUTE_ID_LOGIN ''POST'' ''/v1/auth/login'' PS_POLICY_PUBLIC 0,
     policy PS_ROUTE_ID_REFRESH ''POST'' ''/v1/auth/refresh'' PS_POLICY_PUBLIC 0,
     policy PS_ROUTE_ID_LOGOUT ''POST'' ''/v1/auth/logout'' PS_POLICY_AUTHENTICATED 0,
     policy PS_ROUTE_ID_PASSWORD_CHANGE ''POST'' ''/v1/auth/password'' PS_POLICY_AUTHENTICATED 0,
     policy PS_ROUTE_ID_GET_USER ''GET'' ''/v1/users/{userId}'' PS_POLICY_SELF_OR_ROLE PS_JWT_ROLE_ADMIN,
     policy PS_ROUTE_ID_ADMIN_COUNT_USERS ''GET'' ''/v1/admin/users/count'' PS_POLICY_ROLE PS_JWT_ROLE_ADMIN,
     policy PS_ROUTE_ID_ADMIN_LIST_USERS ''GET'' ''/v1/admin/users'' PS_POLICY_ROLE PS_JWT_ROLE_ADMIN]"

definition ps_rbac_policy_for_route :: "nat \<Rightarrow> ps_route_policy_t option" where
  "ps_rbac_policy_for_route route_id = List.find (\<lambda>p. po_route_id p = route_id) PS_RBAC_POLICIES"

definition ps_rbac_check :: "ps_route_policy_t \<Rightarrow> ps_jwt_claims_t \<Rightarrow> int64 \<Rightarrow> bool" where
  "ps_rbac_check p claims target_user_id =
     (case po_kind p of
        PS_POLICY_PUBLIC \<Rightarrow> True
      | PS_POLICY_AUTHENTICATED \<Rightarrow> True
      | PS_POLICY_ROLE \<Rightarrow> and (cl_roles claims) (po_required_role p) \<noteq> 0
      | PS_POLICY_SELF_OR_ROLE \<Rightarrow>
          cl_user_id claims = target_user_id \<or> and (cl_roles claims) (po_required_role p) \<noteq> 0)"

fun add_routes :: "(bytes \<times> bytes \<times> nat) list \<Rightarrow> ps_router_t \<Rightarrow> bytes + ps_router_t" where
  "add_routes [] router = Inr router"
| "add_routes ((m, p, i) # rs) router =
     (case ps_router_add router m p i of Inl e \<Rightarrow> Inl e | Inr router' \<Rightarrow> add_routes rs router')"

definition ROUTES :: "(bytes \<times> bytes \<times> nat) list" where
  "ROUTES = [
     (''GET'', ''/healthz'', PS_ROUTE_ID_HEALTHZ),
     (''GET'', ''/readyz'', PS_ROUTE_ID_READYZ),
     (''POST'', ''/v1/auth/register'', PS_ROUTE_ID_REGISTER),
     (''POST'', ''/v1/auth/verify'', PS_ROUTE_ID_VERIFY),
     (''POST'', ''/v1/auth/resend-verification'', PS_ROUTE_ID_RESEND_VERIFICATION),
     (''POST'', ''/v1/auth/login'', PS_ROUTE_ID_LOGIN),
     (''POST'', ''/v1/auth/refresh'', PS_ROUTE_ID_REFRESH),
     (''POST'', ''/v1/auth/logout'', PS_ROUTE_ID_LOGOUT),
     (''POST'', ''/v1/auth/password'', PS_ROUTE_ID_PASSWORD_CHANGE),
     (''GET'', ''/v1/users/{userId}'', PS_ROUTE_ID_GET_USER),
     (''GET'', ''/v1/admin/users/count'', PS_ROUTE_ID_ADMIN_COUNT_USERS),
     (''GET'', ''/v1/admin/users'', PS_ROUTE_ID_ADMIN_LIST_USERS)]"

definition ps_routes_register :: "bytes + ps_router_t" where
  "ps_routes_register = add_routes ROUTES ps_router_init"


subsection \<open>Dispatch\<close>

definition zero_claims :: ps_jwt_claims_t where
  "zero_claims = \<lparr>cl_user_id = 0, cl_roles = 0, cl_iat = 0, cl_nbf = 0, cl_exp = 0, cl_jti = [], cl_family_id = []\<rparr>"

definition parse_path_user_id :: "bytes option \<Rightarrow> int64 option" where
  "parse_path_user_id param = ps_parse_int64 param"

definition call_handler :: "sys \<Rightarrow> nat \<Rightarrow> ps_http_request_t \<Rightarrow> bytes option \<Rightarrow> ps_app_ctx_t \<Rightarrow> ps_jwt_claims_t \<Rightarrow> int64 \<Rightarrow>
    ps_handler_result_t io" where
  "call_handler S route_id req peer_addr ctx claims target_user_id =
     (if route_id = PS_ROUTE_ID_HEALTHZ then ret ps_health_handle_healthz
      else if route_id = PS_ROUTE_ID_READYZ then ret (ps_health_handle_readyz ctx)
      else if route_id = PS_ROUTE_ID_REGISTER then ps_auth_handle_register S req peer_addr ctx
      else if route_id = PS_ROUTE_ID_VERIFY then ps_auth_handle_verify S req peer_addr ctx
      else if route_id = PS_ROUTE_ID_RESEND_VERIFICATION then ps_auth_handle_resend_verification S req peer_addr ctx
      else if route_id = PS_ROUTE_ID_LOGIN then ps_auth_handle_login S req peer_addr ctx
      else if route_id = PS_ROUTE_ID_REFRESH then ps_auth_handle_refresh S req peer_addr ctx
      else if route_id = PS_ROUTE_ID_LOGOUT then ps_auth_handle_logout S req peer_addr claims ctx
      else if route_id = PS_ROUTE_ID_PASSWORD_CHANGE then ps_auth_handle_password_change S req peer_addr claims ctx
      else if route_id = PS_ROUTE_ID_GET_USER then ps_user_handle_get_user S peer_addr claims target_user_id
      else if route_id = PS_ROUTE_ID_ADMIN_COUNT_USERS then ps_admin_handle_count_users S
      else if route_id = PS_ROUTE_ID_ADMIN_LIST_USERS then ps_admin_handle_list_users S req peer_addr claims
      else ret internal_error_result)"

text \<open>Authentication: the claims of the bearer, unless the route is public.\<close>

definition authenticate :: "sys \<Rightarrow> ps_route_policy_t \<Rightarrow> ps_http_request_t \<Rightarrow> ps_app_ctx_t \<Rightarrow> ps_jwt_claims_t option io" where
  "authenticate S p req ctx =
     (if po_kind p = PS_POLICY_PUBLIC then ret (Some zero_claims)
      else do {
        now \<leftarrow> time_now S;
        ret (case ps_auth_authenticate_bearer S req ctx now of PS_BEARER_OK c \<Rightarrow> Some c | _ \<Rightarrow> None) })"

definition ps_routes_dispatch ::
    "sys \<Rightarrow> ps_app_ctx_t \<Rightarrow> nat \<Rightarrow> ps_http_request_t \<Rightarrow> ps_route_params_t \<Rightarrow> bytes option \<Rightarrow> ps_handler_result_t io" where
  "ps_routes_dispatch S ctx route_id req params peer_addr =
     (case ps_rbac_policy_for_route route_id of
        None \<Rightarrow> ret (error_result 401 ''UNAUTHORIZED'' ''no access token provided'')
      | Some p \<Rightarrow> do {
          auth \<leftarrow> authenticate S p req ctx;
          case auth of
            None \<Rightarrow> ret (error_result 401 ''UNAUTHORIZED'' ''missing or invalid access token'')
          | Some claims \<Rightarrow>
              (case (if po_kind p = PS_POLICY_SELF_OR_ROLE then parse_path_user_id (ps_route_params_get params ''userId'') else Some 0) of
                 None \<Rightarrow> ret (error_result 400 ''BAD_REQUEST'' ''userId is invalid'')
               | Some target_user_id \<Rightarrow>
                   if (po_kind p = PS_POLICY_ROLE \<or> po_kind p = PS_POLICY_SELF_OR_ROLE) \<and> \<not> ps_rbac_check p claims target_user_id
                   then ret (error_result 403 ''FORBIDDEN'' ''insufficient permissions'')
                   else call_handler S route_id req peer_addr ctx claims target_user_id) })"


subsection \<open>Every request\<close>

lemma shift_dispatch: "shift 0 0 (ps_routes_dispatch S ctx i req params peer)"
  unfolding ps_routes_dispatch_def authenticate_def call_handler_def by (rule shift_intros | simp)+

lemma tidy_neutral: "neutral m \<Longrightarrow> tx False tidy m"
  by (simp add: neutral_def tx_def tidy_def in_tx_def)

lemma tidy_dispatch: "tx False tidy (ps_routes_dispatch S ctx i req params peer)"
  unfolding ps_routes_dispatch_def authenticate_def call_handler_def
  by (rule tidy_auth_handlers tx_if tx_option tx_neutral_bind tx_return neutral_intros | (rule tidy_neutral, rule neutral_intros) | simp add: tidy_def)+

context store_invariant
begin

lemma dispatch_keeps: "keeps (db_inv J) (ps_routes_dispatch S ctx i req params peer)"
  unfolding ps_routes_dispatch_def authenticate_def call_handler_def
  by (rule auth_handlers_keep read_handlers_keep keep_intros)+

end

end
