(* ===== verification/Login.thy ===== *)
theory Login
  imports Routes
begin

text \<open>
  What a login does: the effect of its success branch and of its failure branch on the database, and
  the properties that follow, from the password to the token a later request is authenticated with.
\<close>

lemma run_bind:
  "run_state (State_Monad.bind m f) w = (b, w'') \<longleftrightarrow> (\<exists>a w'. run_state m w = (a, w') \<and> run_state (f a) w' = (b, w''))"
  by (auto split: prod.splits)

lemma run_return: "run_state (State_Monad.return a) w = (b, w') \<longleftrightarrow> b = a \<and> w' = w"
  by auto

lemma run_reply: "run_state (reply r) w = (r', w') \<longleftrightarrow> r' = r \<and> w' = w\<lparr>w_conns := w_conns w + 1\<rparr>"
  by (auto simp: reply_def ps_db_pool_release_def)

lemma run_exec_ok:
  "run_state (exec_ok S f) w = (ok, w') \<Longrightarrow>
     w_saved w' = w_saved w \<and> w_db w' = (if ok then f (w_db w) else w_db w) \<and> (ok \<longleftrightarrow> \<not> sys_fault S (w_tick w))"
  by (auto simp: exec_ok_def sql_exec_def tick_def run_bind run_return split: if_splits)

lemma run_audit:
  "run_state (ps_audit_store_write S e) w = (ok, w') \<Longrightarrow>
     w_saved w' = w_saved w \<and> (ok \<longrightarrow> insert_audit e (w_db w) = Some ((), w_db w')) \<and> (\<not> ok \<longrightarrow> w_db w' = w_db w)"
  by (auto simp: ps_audit_store_write_def sql_exec_def tick_def run_bind run_return insert_audit_def split: if_splits)

lemma run_create_Some:
  assumes "run_state (ps_session_create S uid a i now) w = (Some s, w')"
  shows "w_saved w' = w_saved w \<and> (\<exists>h d1. sys_sha256 S (sc_raw_refresh_token s) = Some h \<and>
    insert_family (sc_family_id s) uid now (now + a) (w_db w) = Some ((), d1) \<and>
    insert_rt h (sc_family_id s) 1 (now + i) now d1 = Some ((), w_db w') \<and>
    (\<exists>n. sys_rand S n PS_FAMILY_ID_LEN = Some (sc_family_id s)) \<and> (\<exists>n. sys_rand S n PS_REFRESH_TOKEN_HASH_LEN = Some (sc_raw_refresh_token s)))"
  using assms
  by (auto simp: ps_session_create_def session_ops sql_exec_def ps_rand_bytes_def tick_def
      split: if_splits option.splits prod.splits)

lemma run_end_tx:
  "run_state (end_tx S ok) w = (c, w') \<Longrightarrow> (c \<longrightarrow> ok \<and> w_db w' = w_db w \<and> w_saved w' = None) \<and>
     (\<not> ok \<longrightarrow> \<not> c \<and> w_db w' = (case w_saved w of None \<Rightarrow> w_db w | Some d \<Rightarrow> d) \<and> w_saved w' = None)"
  by (auto simp: end_tx_def sql_commit_def sql_rollback_def tick_def run_bind run_return split: if_splits option.splits)

lemma run_issue_tokens:
  assumes "run_state (issue_tokens S ctx uid fid raw now) w = (r, w')" and "hr_status r = 200"
  shows "w_db w' = w_db w \<and> w_saved w' = w_saved w \<and>
    (\<exists>n jti tok. sys_rand S n PS_JTI_RAW_LEN = Some jti \<and>
      ps_jwt_encode (sys_hmac S) (access_claims ctx uid fid
        (ps_claims_roles_from_names (map (c_snprintf_s 32) (take 8 (role_names_of (w_db w) uid)))) now jti)
        (cfg_str (ctx_config ctx) ''auth.jwt_issuer'') (cfg_str (ctx_config ctx) ''auth.jwt_audience'')
        (cstr (cfg_str (ctx_config ctx) ''auth.jwt_secret'')) = Some tok \<and>
      hr_body r = Some (token_pair_body tok raw (cfg_of ctx ''auth.access_token_ttl_s'')))"
  using assms
  by (auto simp: issue_tokens_def run_bind run_return run_reply ps_user_store_get_roles_def sql_query_def tick_def
      build_access_token_def ps_rand_bytes_def Let_def split: option.splits if_splits) blast


subsection \<open>Success\<close>

text \<open>The database after a successful login at time \<open>now\<close>: counter reset, new family and token, audit entry.\<close>

definition logged_in :: "sys \<Rightarrow> ps_app_ctx_t \<Rightarrow> bytes option \<Rightarrow> int64 \<Rightarrow> int64 \<Rightarrow> ps_session_created_t \<Rightarrow> db \<Rightarrow> db \<Rightarrow> bool" where
  "logged_in S ctx peer now uid s d d' \<longleftrightarrow> (\<exists>h d2 d3.
     sys_sha256 S (sc_raw_refresh_token s) = Some h \<and>
     insert_family (sc_family_id s) uid now (now + cfg_of ctx ''auth.refresh_absolute_ttl_s'')
       (update_user uid (\<lambda>u. u\<lparr>ur_failed_logins := 0, ur_locked_until := None, ur_updated_at := now\<rparr>) d) = Some ((), d2) \<and>
     insert_rt h (sc_family_id s) 1 (now + cfg_of ctx ''auth.refresh_idle_ttl_s'') now d2 = Some ((), d3) \<and>
     insert_audit (set_audit_source_ip peer (set_audit_target (Some uid) (audit_entry now ''LOGIN'' ''SUCCESS''))) d3 = Some ((), d'))"

text \<open>A token pair issued for a session.\<close>

definition issued :: "sys \<Rightarrow> ps_app_ctx_t \<Rightarrow> int64 \<Rightarrow> int64 \<Rightarrow> bytes \<Rightarrow> bytes \<Rightarrow> db \<Rightarrow> ps_jwt_claims_t \<Rightarrow> bytes \<Rightarrow> json option \<Rightarrow> bool" where
  "issued S ctx uid now fid raw d claims tok body \<longleftrightarrow>
     (\<exists>n jti. sys_rand S n PS_JTI_RAW_LEN = Some jti \<and>
        claims = access_claims ctx uid fid (ps_claims_roles_from_names (map (c_snprintf_s 32) (take 8 (role_names_of d uid)))) now jti) \<and>
     ps_jwt_encode (sys_hmac S) claims (cfg_str (ctx_config ctx) ''auth.jwt_issuer'') (cfg_str (ctx_config ctx) ''auth.jwt_audience'')
       (cstr (cfg_str (ctx_config ctx) ''auth.jwt_secret'')) = Some tok \<and>
     body = Some (token_pair_body tok raw (cfg_of ctx ''auth.access_token_ttl_s''))"

lemma run_login_state:
  assumes "run_state (ps_user_store_set_login_failure_state S uid n l now) w = (ok, w')"
  shows "w_saved w' = w_saved w \<and> (ok \<longleftrightarrow> \<not> sys_fault S (w_tick w)) \<and>
    w_db w' = (if ok then update_user uid (\<lambda>u. u\<lparr>ur_failed_logins := n, ur_locked_until := zero_as_null l, ur_updated_at := now\<rparr>) (w_db w)
               else w_db w)"
  using run_exec_ok assms unfolding user_updates by blast

lemma run_login_succeeded:
  assumes run: "run_state (login_succeeded S ctx peer now u) w = (r, w')" and ok: "hr_status r = 200"
  shows "\<exists>s claims tok. logged_in S ctx peer now (us_user_id u) s (w_db w) (w_db w') \<and>
    issued S ctx (us_user_id u) now (sc_family_id s) (sc_raw_refresh_token s) (w_db w') claims tok (hr_body r) \<and>
    (\<exists>n. sys_rand S n PS_FAMILY_ID_LEN = Some (sc_family_id s)) \<and>
    (\<exists>n. sys_rand S n PS_REFRESH_TOKEN_HASH_LEN = Some (sc_raw_refresh_token s)) \<and> w_saved w' = None"
proof -
  from run obtain ok1 w1 session w2 ok3 w3 committed w4 where
    1: "run_state (ps_user_store_set_login_failure_state S (us_user_id u) 0 0 now) w = (ok1, w1)"
    and 2: "run_state (if ok1 then ps_session_create S (us_user_id u) (cfg_of ctx ''auth.refresh_absolute_ttl_s'')
                    (cfg_of ctx ''auth.refresh_idle_ttl_s'') now else ret None) w1 = (session, w2)"
    and 3: "run_state (and_then (session \<noteq> None) (ps_audit_store_write S (set_audit_source_ip peer (set_audit_target (Some (us_user_id u))
       (audit_entry now ''LOGIN'' (if session \<noteq> None then ''SUCCESS'' else ''FAILURE'')))))) w2 = (ok3, w3)"
    and 4: "run_state (end_tx S ok3) w3 = (committed, w4)"
    and 5: "run_state (case (if committed then session else None) of
       None \<Rightarrow> reply internal_error_result
     | Some s \<Rightarrow> issue_tokens S ctx (us_user_id u) (sc_family_id s) (sc_raw_refresh_token s) now) w4 = (r, w')"
    unfolding login_succeeded_def Let_def run_bind by blast
  from 5 ok obtain s where c: "committed" and s: "session = Some s"
    and issue: "run_state (issue_tokens S ctx (us_user_id u) (sc_family_id s) (sc_raw_refresh_token s) now) w4 = (r, w')"
    by (auto simp: run_reply split: option.splits if_splits)
  have ok1: "ok1" using 2 s by (auto simp: run_return split: if_splits)
  from 4 c have ok3: "ok3" and d4: "w_db w4 = w_db w3" "w_saved w4 = None" using run_end_tx by blast+
  from 3 s have "run_state (ps_audit_store_write S (set_audit_source_ip peer (set_audit_target (Some (us_user_id u))
       (audit_entry now ''LOGIN'' ''SUCCESS'')))) w2 = (ok3, w3)" by (simp add: and_then_def)
  from run_audit [OF this] ok3 have d3: "insert_audit (set_audit_source_ip peer (set_audit_target (Some (us_user_id u))
       (audit_entry now ''LOGIN'' ''SUCCESS''))) (w_db w2) = Some ((), w_db w3)" by simp
  have "run_state (ps_session_create S (us_user_id u) (cfg_of ctx ''auth.refresh_absolute_ttl_s'')
                    (cfg_of ctx ''auth.refresh_idle_ttl_s'') now) w1 = (Some s, w2)" using 2 ok1 s by simp
  note cr = run_create_Some [OF this]
  have d1: "w_db w1 = update_user (us_user_id u) (\<lambda>u. u\<lparr>ur_failed_logins := 0, ur_locked_until := None, ur_updated_at := now\<rparr>) (w_db w)"
    using run_login_state [OF 1] ok1 by (simp add: zero_as_null_def)
  note it = run_issue_tokens [OF issue ok]
  have "logged_in S ctx peer now (us_user_id u) s (w_db w) (w_db w')"
    unfolding logged_in_def using cr d1 d3 d4 it by auto
  moreover have "\<exists>claims tok. issued S ctx (us_user_id u) now (sc_family_id s) (sc_raw_refresh_token s) (w_db w') claims tok (hr_body r)"
    unfolding issued_def using it by metis
  ultimately show ?thesis using cr it d4 by auto
qed

lemma login_failed_status: "returns (\<lambda>r. hr_status r \<noteq> 200) (login_failed S ctx peer now found ok)"
  unfolding login_failed_def reply_def by (rule returns_intros | simp (no_asm))+

lemma returnsD: "returns P m \<Longrightarrow> run_state m w = (r, w') \<Longrightarrow> P r"
  unfolding returns_def by (metis fst_conv)

lemmas run_login_failed = login_failed_status [THEN returnsD]

lemma run_begin:
  "run_state (sql_begin S) w = (b, w') \<Longrightarrow> w_db w' = w_db w \<and> (b \<longrightarrow> w_saved w = None \<and> w_saved w' = Some (w_db w)) \<and>
     (\<not> b \<longrightarrow> w_saved w' = w_saved w)"
  by (auto simp: sql_begin_def tick_def split: if_splits)

lemma run_login_decided:
  assumes "run_state (login_decided S ctx peer now found ok) w = (r, w')" and "hr_status r = 200"
  shows "\<exists>u w1. found = Some u \<and> ok \<and> us_status u = PS_USER_STATUS_ACTIVE \<and> \<not> is_locked now u \<and>
    w_db w1 = w_db w \<and> w_saved w = None \<and> run_state (login_succeeded S ctx peer now u) w1 = (r, w')"
proof -
  from assms(1) obtain began w1 where b: "run_state (sql_begin S) w = (began, w1)"
    and rest: "run_state (if \<not> began then reply internal_error_result
     else case found of
       None \<Rightarrow> login_failed S ctx peer now None ok
     | Some u \<Rightarrow>
         if ok \<and> us_status u = PS_USER_STATUS_ACTIVE \<and> \<not> is_locked now u
         then login_succeeded S ctx peer now u
         else login_failed S ctx peer now (Some u) ok) w1 = (r, w')"
    unfolding login_decided_def run_bind by blast
  have began: "began" using rest assms(2) by (auto simp: run_reply split: if_splits)
  show ?thesis
  proof (cases "\<exists>u. found = Some u \<and> ok \<and> us_status u = PS_USER_STATUS_ACTIVE \<and> \<not> is_locked now u")
    case True
    then show ?thesis using rest began run_begin [OF b] by auto
  next
    case False
    then have "\<exists>f. run_state (login_failed S ctx peer now f ok) w1 = (r, w')"
      using rest began by (auto split: option.splits if_splits)
    then show ?thesis using run_login_failed assms(2) by blast
  qed
qed

definition users_named :: "bytes \<Rightarrow> db \<Rightarrow> ps_user_row_t option" where
  "users_named name d = map_option populate_row (List.find (username_is name) (db_users d))"

lemma run_get_user: "run_state (ps_user_store_get_by_username S name) w = (found, w') \<Longrightarrow>
    w_db w' = w_db w \<and> w_saved w' = w_saved w \<and> (found = None \<or> found = users_named name (w_db w))"
  by (auto simp: ps_user_store_get_by_username_def get_user_def sql_query_def tick_def users_named_def split: if_splits)

lemma run_get_user_Some:
  assumes "run_state (ps_user_store_get_by_username S name) w = (Some row, w')"
  obtains u where "List.find (username_is name) (db_users (w_db w)) = Some u" and "row = populate_row u"
  using assms by (auto simp: ps_user_store_get_by_username_def get_user_def sql_query_def split: if_splits)

lemma run_check_password: "run_state (check_password S ctx found password) w = (ok, w') \<Longrightarrow>
    w_db w' = w_db w \<and> w_saved w' = w_saved w \<and>
    (ok \<longleftrightarrow> (case found of None \<Rightarrow> False | Some u \<Rightarrow> ps_password_verify (sys_kdf S) password (stored_hash u)))"
  by (auto simp: check_password_def run_dummy_kdf_def password_hash_def ps_rand_bytes_def tick_def run_bind run_return
      split: option.splits)

text \<open>The operations before the transaction leave the database and the transaction alone.\<close>

definition frame :: "'a io \<Rightarrow> bool" where
  "frame m \<longleftrightarrow> (\<forall>w a w'. run_state m w = (a, w') \<longrightarrow> w_db w' = w_db w \<and> w_saved w' = w_saved w)"

lemma frames: "frame (rl_allow S k pm)" "frame kdf_try_acquire" "frame kdf_release" "frame (time_now S)" "frame ps_db_pool_acquire"
  by (auto simp: frame_def io_defs tick_def split: prod.splits)

lemma run_time: "run_state (time_now S) w = (now, w') \<Longrightarrow> now = sys_time S (w_tick w)"
  by (simp add: time_now_def)

lemma run_login:
  assumes "run_state (ps_auth_handle_login S req peer ctx) w = (r, w')"
    and "hr_status r \<notin> {400, 429, 503}"
  shows "\<exists>body name password now found ok w1 w2. body_object req = Some body \<and>
    read_string_field body ''username'' PS_RAW_FIELD_MAX = Some name \<and> string_field body ''password'' = Some password \<and>
    (\<exists>n. now = sys_time S n) \<and> run_state (ps_user_store_get_by_username S name) w1 = (found, w2) \<and>
    ok = (case found of None \<Rightarrow> False | Some u \<Rightarrow> ps_password_verify (sys_kdf S) password (stored_hash u)) \<and>
    w_db w1 = w_db w \<and> w_saved w1 = w_saved w \<and>
    (\<exists>w3. w_db w3 = w_db w \<and> w_saved w3 = w_saved w \<and> run_state (login_decided S ctx peer now found ok) w3 = (r, w'))"
proof -
  from assms obtain body name password a w0 b w2 c w3 now w4 w5 found w6 ok w7 w8 where
    f: "body_object req = Some body" "read_string_field body ''username'' PS_RAW_FIELD_MAX = Some name"
       "string_field body ''password'' = Some password"
    and s1: "run_state (rl_allow S (namespaced_ip_key ''login-ip'' peer)
       (dev_relaxed_count (ctx_config ctx) (cfg_of ctx ''ratelimit.login_per_minute''))) w = (a, w0)"
    and s2: "run_state (rl_allow S (lowercase_into name PS_RATELIMIT_KEY_MAX)
                (dev_relaxed_count (ctx_config ctx) (cfg_of ctx ''ratelimit.login_username_per_minute''))) w0 = (b, w2)"
    and s3: "run_state kdf_try_acquire w2 = (c, w3)" and s4: "run_state (time_now S) w3 = (now, w4)"
    and s5: "run_state ps_db_pool_acquire w4 = ((), w5)"
    and s6: "run_state (ps_user_store_get_by_username S name) w5 = (found, w6)"
    and s7: "run_state (check_password S ctx found password) w6 = (ok, w7)"
    and s8: "run_state kdf_release w7 = ((), w8)"
    and s9: "run_state (login_decided S ctx peer now found ok) w8 = (r, w')"
    unfolding ps_auth_handle_login_def run_bind
    by (auto simp: run_return run_bind simp del: run_state_bind split: if_splits option.splits)
  note F = frames [unfolded frame_def, rule_format]
  have d5: "w_db w5 = w_db w" "w_saved w5 = w_saved w" using F(1) [OF s1] F(1) [OF s2] F(2) [OF s3] F(4) [OF s4] F(5) [OF s5] by simp_all
  note g = run_get_user [OF s6] and ch = run_check_password [OF s7]
  have d8: "w_db w8 = w_db w" "w_saved w8 = w_saved w" using d5 g ch F(3) [OF s8] by simp_all
  show ?thesis using f run_time [OF s4] s6 ch d5 d8 s9 by blast
qed


subsection \<open>The tokens authenticate\<close>

lemma hex_digit_lower: "i < 16 \<Longrightarrow> ''0123456789abcdef'' ! i \<noteq> NUL"
  by (auto simp: less_Suc_eq numeral_eq_Suc)

lemma hex_encode_lower: "length (hex_encode_lower d) = 2 * length d" "NUL \<notin> set (hex_encode_lower d)"
proof -
  show "length (hex_encode_lower d) = 2 * length d" by (induction d) (simp_all add: hex_encode_lower_def)
  have "NUL \<noteq> ''0123456789abcdef'' ! (byte_val b div 16)" "NUL \<noteq> ''0123456789abcdef'' ! (byte_val b mod 16)" for b :: byte
    by (rule hex_digit_lower [symmetric], use nat_of_char_less_256 [of b] in \<open>simp add: less_mult_imp_div_less\<close>)+
  then show "NUL \<notin> set (hex_encode_lower d)" unfolding hex_encode_lower_def by auto
qed

abbreviation all_roles :: "32 word" where "all_roles \<equiv> or PS_JWT_ROLE_USER PS_JWT_ROLE_ADMIN"

lemma role_bit_known: "role_bit name = Some b \<Longrightarrow> b = PS_JWT_ROLE_USER \<or> b = PS_JWT_ROLE_ADMIN"
  by (auto simp: role_bit_def ROLE_NAMES_def split: if_splits)

lemma roles_known: "and (ps_claims_roles_from_names names) all_roles = ps_claims_roles_from_names names"
proof -
  have "and r all_roles = r \<Longrightarrow>
      and (foldl (\<lambda>roles name. case role_bit name of None \<Rightarrow> roles | Some rbit \<Rightarrow> or roles rbit) r names) all_roles =
      foldl (\<lambda>roles name. case role_bit name of None \<Rightarrow> roles | Some rbit \<Rightarrow> or roles rbit) r names" for r
  proof (induction names arbitrary: r)
    case (Cons name names)
    have "and (case role_bit name of None \<Rightarrow> r | Some rbit \<Rightarrow> or r rbit) all_roles = (case role_bit name of None \<Rightarrow> r | Some rbit \<Rightarrow> or r rbit)"
      using Cons.prems role_bit_known [of name] by (auto simp: and.commute bit.conj_disj_distrib split: option.splits)
    from Cons.IH [OF this] show ?case by simp
  qed simp
  from this [of 0] show ?thesis by (simp add: ps_claims_roles_from_names_def)
qed

text \<open>What the environment promises: keyed hashes of 32 bytes, random strings of the length asked for.\<close>

definition env_ok :: "sys \<Rightarrow> bool" where
  "env_ok S \<longleftrightarrow> (\<forall>k m t. sys_hmac S k m = Some t \<longrightarrow> length t = PS_HMAC_SHA256_LEN) \<and>
     (\<forall>i n b. sys_rand S i n = Some b \<longrightarrow> length b = n)"

lemma issued_authenticates:
  assumes "env_ok S" and "issued S ctx uid now fid raw d claims tok body" and "length fid = PS_FAMILY_ID_LEN" and "in_int64 uid"
    and "\<bar>now\<bar> \<le> 2 ^ 53" and "\<bar>now + cfg_of ctx ''auth.access_token_ttl_s''\<bar> \<le> 2 ^ 53"
    and "ps_http_request_header req ''Authorization'' = Some h" and "hdr_value h = ''Bearer '' @ tok"
    and "now - 60 \<le> t" and "t \<le> now + cfg_of ctx ''auth.access_token_ttl_s'' + 60"
  shows "ps_auth_authenticate_bearer S req ctx t = PS_BEARER_OK claims"
proof -
  from assms(2) obtain n jti where jti: "sys_rand S n PS_JTI_RAW_LEN = Some jti"
    and c: "claims = access_claims ctx uid fid (ps_claims_roles_from_names (map (c_snprintf_s 32) (take 8 (role_names_of d uid)))) now jti"
    and tok: "ps_jwt_encode (sys_hmac S) claims (cfg_str (ctx_config ctx) ''auth.jwt_issuer'') (cfg_str (ctx_config ctx) ''auth.jwt_audience'')
       (cstr (cfg_str (ctx_config ctx) ''auth.jwt_secret'')) = Some tok"
    unfolding issued_def by blast
  have "length jti = PS_JTI_RAW_LEN" using assms(1) jti by (auto simp: env_ok_def)
  then have ok: "claims_ok claims" unfolding claims_ok_def c using assms(3,4,5,6) roles_known hex_encode_lower
    by (simp add: access_claims_def PS_JWT_JTI_HEX_LEN_def PS_JWT_FAMILY_ID_HEX_LEN_def PS_FAMILY_ID_LEN_def PS_JTI_RAW_LEN_def)
  have hmac: "\<And>k m t. sys_hmac S k m = Some t \<Longrightarrow> length t = PS_HMAC_SHA256_LEN" using assms(1) by (simp add: env_ok_def)
  have "tok \<noteq> []" using tok by (auto simp: ps_jwt_encode_def Let_def split: option.splits)
  moreover have "cl_exp claims = now + cfg_of ctx ''auth.access_token_ttl_s''" "cl_nbf claims = now" by (simp_all add: c access_claims_def)
  ultimately show ?thesis
    using jwt_verify_encode [OF ok hmac tok, where now = t and skew = PS_JWT_CLOCK_SKEW_S] assms(7,8,9,10)
    by (simp add: ps_auth_authenticate_bearer_def PS_JWT_CLOCK_SKEW_S_def)
qed


lemma login_success:
  assumes "users_ok (w_db w)" and "run_state (ps_auth_handle_login S req peer ctx) w = (r, w')" and "hr_status r = 200"
  obtains body name password u now s claims tok where "body_object req = Some body"
    and "read_string_field body ''username'' PS_RAW_FIELD_MAX = Some name" and "string_field body ''password'' = Some password"
    and "u \<in> set (db_users (w_db w))" and "username_is name u"
    and "ps_password_verify (sys_kdf S) password (stored_hash (populate_row u))"
    and "ur_status u = ''ACTIVE''" and "\<forall>t. ur_locked_until u = Some t \<and> t \<noteq> 0 \<longrightarrow> t \<le> now"
    and "\<exists>n. now = sys_time S n" and "\<exists>n. sys_rand S n PS_FAMILY_ID_LEN = Some (sc_family_id s)"
    and "logged_in S ctx peer now (ur_user_id u) s (w_db w) (w_db w')"
    and "issued S ctx (ur_user_id u) now (sc_family_id s) (sc_raw_refresh_token s) (w_db w') claims tok (hr_body r)"
    and "w_saved w' = None"
proof -
  have "hr_status r \<notin> {400, 429, 503}" using assms(3) by simp
  from run_login [OF assms(2) this] obtain body name password now found ok w1 w2 w3 where
    f: "body_object req = Some body" "read_string_field body ''username'' PS_RAW_FIELD_MAX = Some name"
       "string_field body ''password'' = Some password" "\<exists>n. now = sys_time S n"
    and g: "run_state (ps_user_store_get_by_username S name) w1 = (found, w2)"
    and ok: "ok = (case found of None \<Rightarrow> False | Some u \<Rightarrow> ps_password_verify (sys_kdf S) password (stored_hash u))"
    and d: "w_db w1 = w_db w" "w_db w3 = w_db w"
    and run: "run_state (login_decided S ctx peer now found ok) w3 = (r, w')" by blast
  from run_login_decided [OF run assms(3)] obtain row w4 where row: "found = Some row" "ok" "us_status row = PS_USER_STATUS_ACTIVE"
    "\<not> is_locked now row" "w_db w4 = w_db w3" and succ: "run_state (login_succeeded S ctx peer now row) w4 = (r, w')" by blast
  from run_get_user_Some [OF g [unfolded row(1)]] obtain u where u: "List.find (username_is name) (db_users (w_db w)) = Some u"
    "row = populate_row u" unfolding d by blast
  then have mem: "u \<in> set (db_users (w_db w))" "username_is name u" by (auto dest: find_SomeD)
  then obtain st where st: "ur_status u = ps_user_status_to_string st" using assms(1) by (auto simp: users_ok_def)
  then have "ps_user_status_from_string (ur_status u) = Some st"
    by (cases st) (simp_all add: ps_user_status_from_string_def cstr_def)
  then have active: "ur_status u = ''ACTIVE''" using row(3) st by (simp add: u(2) populate_row_def)
  have lock: "\<forall>t. ur_locked_until u = Some t \<and> t \<noteq> 0 \<longrightarrow> t \<le> now"
    using row(4) by (auto simp: u(2) is_locked_def populate_row_def null_or_zero_def)
  have uid: "us_user_id row = ur_user_id u" and w4: "w_db w4 = w_db w" using row(5) d by (simp_all add: u(2) populate_row_def)
  have pw: "ps_password_verify (sys_kdf S) password (stored_hash (populate_row u))" using ok row(1,2) u(2) by simp
  from run_login_succeeded [OF succ assms(3)] that [OF f(1-3) mem pw active lock f(4)] show thesis
    unfolding uid w4 by blast
qed


subsection \<open>An example\<close>

text \<open>Keys the limiter has not seen are allowed while there is room for them.\<close>

definition example_ctx :: ps_app_ctx_t where
  "example_ctx = \<lparr>ctx_draining = False, ctx_password_denylist = None,
     ctx_config = [''ratelimit.login_per_minute'' \<mapsto> V_int 10, ''ratelimit.login_username_per_minute'' \<mapsto> V_int 10,
       ''auth.access_token_ttl_s'' \<mapsto> V_int 900, ''auth.refresh_idle_ttl_s'' \<mapsto> V_int 600, ''auth.lockout_threshold'' \<mapsto> V_int 2,
       ''auth.lockout_duration_s'' \<mapsto> V_int 60, ''auth.refresh_absolute_ttl_s'' \<mapsto> V_int 900, ''auth.jwt_secret'' \<mapsto> V_str ''k'']\<rparr>"

definition login_request :: "bytes \<Rightarrow> ps_http_request_t" where
  "login_request password = \<lparr>req_method = ''POST'', req_path = ''/v1/auth/login'', req_query = None, req_minor_version = 1, req_headers = [],
     req_body = Some (''{'' @ [DQ] @ ''username'' @ [DQ] @ '':'' @ [DQ] @ ''Alice'' @ [DQ] @ '','' @ [DQ] @ ''password'' @ [DQ] @ '':'' @ [DQ] @
       password @ [DQ] @ ''}'')\<rparr>"

definition room :: "int \<Rightarrow> nat \<Rightarrow> ps_ratelimiter_t \<Rightarrow> bool" where
  "room M k rl \<longleftrightarrow> limiter_map_ok M rl \<and> (\<forall>sh \<in> set rl. sh_occupied sh + k \<le> sh_cap sh)"

lemma shard_allow_occupied:
  "sh_occupied (snd (shard_allow sh h key pm now)) \<le> sh_occupied sh + 1 \<and> sh_cap (snd (shard_allow sh h key pm now)) = sh_cap sh"
  by (simp add: shard_allow_def Let_def put_bucket_def split: option.split prod.split)

lemma rl_allow_new:
  assumes "room M (Suc k) (w_rl w)" and "rl_bucket (w_rl w) key = None" and "0 < pm" and "pm \<le> M" and "M < 2 ^ 31"
    and "fst (sys_mono S (w_tick w)) * 1000000000 + snd (sys_mono S (w_tick w)) < 2 ^ 63 - 1"
  obtains rl where "run_state (rl_allow S key pm) w = (True, tick (w\<lparr>w_rl := rl\<rparr>))" and "room M k rl"
    and "\<And>key'. bounded_key key' \<noteq> bounded_key key \<Longrightarrow> rl_bucket rl key' = rl_bucket (w_rl w) key'"
proof -
  let ?now = "fst (sys_mono S (w_tick w)) * 1000000000 + snd (sys_mono S (w_tick w))"
  let ?r = "ps_ratelimiter_allow_at (w_rl w) key pm ?now"
  from assms(1) have map_ok: "limiter_map_ok M (w_rl w)" and occ: "\<forall>sh \<in> set (w_rl w). sh_occupied sh + Suc k \<le> sh_cap sh"
    by (simp_all add: room_def)
  have ix: "shard_ix (bounded_key key) < length (w_rl w)" using map_ok by (auto simp: limiter_map_ok_def intro: shard_ix_less)
  then have "has_room (w_rl w) key" using occ nth_mem by (fastforce simp: has_room_def)
  note hr = this
  note am = allow_at_map [OF map_ok assms(3,4,5) assms(6) disjI2 [OF hr]]
  have t: "fst ?r" using burst_new_key [OF map_ok assms(3,4,5,6,2) hr, of 1] assms(3) by (simp split: prod.splits)
  have "room M k (snd ?r)"
    unfolding room_def
  proof (intro conjI ballI)
    show "limiter_map_ok M (snd ?r)" by (rule am(2))
    fix sh
    assume "sh \<in> set (snd ?r)"
    moreover have "snd ?r = (w_rl w)[shard_ix (bounded_key key) :=
        snd (shard_allow (w_rl w ! shard_ix (bounded_key key)) (hash_key (bounded_key key)) (bounded_key key) pm ?now)]"
      using assms(3) by (simp add: ps_ratelimiter_allow_at_def Let_def shard_ix_def split: prod.splits)
    ultimately have "sh \<in> set (w_rl w) \<or>
        sh = snd (shard_allow (w_rl w ! shard_ix (bounded_key key)) (hash_key (bounded_key key)) (bounded_key key) pm ?now)"
      using set_update_subset_insert by fastforce
    moreover have "sh_occupied (w_rl w ! shard_ix (bounded_key key)) + Suc k \<le> sh_cap (w_rl w ! shard_ix (bounded_key key))"
      using occ nth_mem [OF ix] by blast
    ultimately show "sh_occupied sh + k \<le> sh_cap sh"
      using occ shard_allow_occupied [of "w_rl w ! shard_ix (bounded_key key)" "hash_key (bounded_key key)" "bounded_key key" pm ?now] by force
  qed
  moreover have "run_state (rl_allow S key pm) w = (True, tick (w\<lparr>w_rl := snd ?r\<rparr>))"
    using t by (simp add: rl_allow_def ps_ratelimiter_allow_def split_beta)
  ultimately show thesis using am(3) that by auto
qed

lemma jwt_encode_total: "claims_ok c \<Longrightarrow> \<exists>tok. ps_jwt_encode toy_hmac c iss aud secret = Some tok"
  using ps_claims_parse_write [of c iss aud 0 0] by (auto simp: ps_jwt_encode_def toy_hmac_def Let_def)

definition login_db :: db where
  "login_db = example_db\<lparr>db_families := [], db_rts := []\<rparr>"

definition login_world :: world where
  "login_world = \<lparr>w_db = login_db, w_saved = None, w_rl = ps_ratelimiter_create 160, w_kdf = 2, w_conns = 4, w_tick = 0\<rparr>"

abbreviation alice :: ps_user_row_t where
  "alice \<equiv> populate_row (hd (db_users login_db))"

lemma example_login_store:
  assumes "w_db w = login_db" and "w_saved w \<noteq> None"
  shows "hr_status (fst (run_state (login_succeeded quiet_sys example_ctx None 1000 alice) w)) = 200"
proof -
  have c: "claims_ok (access_claims example_ctx 7 (replicate 16 a) (ps_claims_roles_from_names [''USER'']) 1000 (replicate 16 b))" for a b
    using roles_known hex_encode_lower by (simp add: claims_ok_def access_claims_def in_int64_def PS_JWT_JTI_HEX_LEN_def
        PS_JWT_FAMILY_ID_HEX_LEN_def example_ctx_def cfg_int_def)
  have "ps_jwt_encode toy_hmac (access_claims example_ctx 7 (replicate 16 a) (ps_claims_roles_from_names [''USER'']) 1000 (replicate 16 b))
     iss aud sec \<noteq> None" for a b iss aud sec using jwt_encode_total [OF c] by (metis option.distinct(1))
  then show ?thesis using assms
    by (auto simp: login_succeeded_def user_updates exec_ok_def sql_exec_def quiet_sys_def tick_def ps_session_create_def
      ps_rand_bytes_def session_ops login_db_def example_db_def populate_row_def PS_FAMILY_ID_LEN_def PS_REFRESH_TOKEN_HASH_LEN_def
      statement_defs new_family_def new_rt_def schema_001_init_def and_then_def ps_audit_store_write_def end_tx_def sql_commit_def
      issue_tokens_def ps_user_store_get_roles_def sql_query_def role_names_of_def build_access_token_def PS_JTI_RAW_LEN_def reply_def
      ps_db_pool_release_def c_snprintf_s_def split: option.splits)
qed

lemma tick_simps [simp]: "w_db (tick w) = w_db w" "w_saved (tick w) = w_saved w" "w_kdf (tick w) = w_kdf w" "w_rl (tick w) = w_rl w"
  by (simp_all add: tick_def)

lemma quiet_simps: "sys_time quiet_sys n = 1000" "\<not> sys_fault quiet_sys n"
  by (simp_all add: quiet_sys_def)

lemma login_world_simps: "w_db login_world = login_db" "w_saved login_world = None" "w_kdf login_world = 2" "w_tick login_world = 0"
  by (simp_all add: login_world_def)

lemma example_body: "body_object (login_request ''pass word'') = Some (JObject [(''username'', JString ''Alice''), (''password'', JString ''pass word'')])"
  by code_simp

lemma example_login_reaches:
  assumes found: "List.find (username_is ''Alice'') (db_users d) = Some u"
    and body: "body_object (login_request pw) = Some (JObject [(''username'', JString ''Alice''), (''password'', JString pw)])"
  shows "\<exists>w3. run_state (ps_auth_handle_login quiet_sys (login_request pw) None example_ctx) (login_world\<lparr>w_db := d\<rparr>) =
      run_state (login_decided quiet_sys example_ctx None 1000 (Some (populate_row u))
        (ps_password_verify (sys_kdf quiet_sys) pw (stored_hash (populate_row u)))) w3 \<and> w_db w3 = d \<and> w_saved w3 = None"
proof -
  let ?w = "login_world\<lparr>w_db := d\<rparr>"
  have r0: "room 10 2 (w_rl ?w)"
    using create_map_ok [of 10 160] by (simp add: room_def login_world_def ps_ratelimiter_create_def new_shard_def PS_RATELIMIT_SHARDS_def)
  have m: "fst (sys_mono quiet_sys n) * 1000000000 + snd (sys_mono quiet_sys n) < 2 ^ 63 - 1" for n by (simp add: quiet_sys_def)
  let ?k1 = "namespaced_ip_key ''login-ip'' None" and ?k2 = "lowercase_into ''Alice'' PS_RATELIMIT_KEY_MAX"
  have k: "bounded_key ?k2 \<noteq> bounded_key ?k1" by code_simp
  have b0: "rl_bucket (w_rl ?w) key = None" for key by (simp add: login_world_def create_bucket_None)
  obtain rl1 where 1: "run_state (rl_allow quiet_sys ?k1 10) ?w = (True, tick (?w\<lparr>w_rl := rl1\<rparr>))" "room 10 1 rl1"
    "rl_bucket rl1 ?k2 = None"
    by (rule rl_allow_new [OF r0 [unfolded numeral_2_eq_2] b0, of 10 quiet_sys ?k1]) (use m k b0 in auto)
  obtain rl2 where 2: "run_state (rl_allow quiet_sys ?k2 10) (tick (?w\<lparr>w_rl := rl1\<rparr>)) =
      (True, tick (tick (?w\<lparr>w_rl := rl1\<rparr>)\<lparr>w_rl := rl2\<rparr>))"
    by (rule rl_allow_new [of 10 0 "tick (?w\<lparr>w_rl := rl1\<rparr>)" ?k2 10 quiet_sys]) (use m 1 in \<open>auto simp: tick_def\<close>)
  have cfg: "dev_relaxed_count (ctx_config example_ctx) (cfg_of example_ctx ''ratelimit.login_per_minute'') = 10"
    "dev_relaxed_count (ctx_config example_ctx) (cfg_of example_ctx ''ratelimit.login_username_per_minute'') = 10"
    by (simp_all add: dev_relaxed_count_def example_ctx_def cfg_int_def cfg_bool_def)
  have fields: "read_string_field (JObject [(''username'', JString ''Alice''), (''password'', JString pw)]) ''username'' PS_RAW_FIELD_MAX = Some ''Alice''"
    "string_field (JObject [(''username'', JString ''Alice''), (''password'', JString pw)]) ''password'' = Some pw"
    by (simp_all add: read_string_field_def string_field_def PS_RAW_FIELD_MAX_def)
  show ?thesis
    unfolding ps_auth_handle_login_def cfg
    by (rule exI, intro conjI,
      simp add: found 1 2 cfg fields body kdf_try_acquire_def ps_kdf_semaphore_try_acquire_def time_now_def ps_db_pool_acquire_def
        ps_user_store_get_by_username_def get_user_def sql_query_def check_password_def kdf_release_def quiet_simps login_world_simps,
      simp_all add: login_world_simps)
qed

lemma find_alice: "List.find (username_is ''Alice'') (db_users login_db) = Some (hd (db_users login_db))"
proof -
  have "nocase ''alice'' = nocase (cstr ''Alice'')" by code_simp
  then show ?thesis by (simp add: login_db_def example_db_def username_is_def)
qed

lemma example_login: "hr_status (fst (run_state (ps_auth_handle_login quiet_sys (login_request ''pass word'') None example_ctx) login_world)) = 200"
proof -
  have pw: "ps_password_verify (sys_kdf quiet_sys) ''pass word'' (stored_hash alice)"
    by (simp add: ps_password_verify_def stored_hash_def populate_row_def login_db_def example_db_def quiet_sys_def PS_KDF_OUTPUT_LEN_def)
  have st: "us_status alice = PS_USER_STATUS_ACTIVE" "\<not> is_locked 1000 alice"
    by (simp_all add: populate_row_def login_db_def example_db_def ps_user_status_from_string_def is_locked_def null_or_zero_def)
  have "login_world\<lparr>w_db := login_db\<rparr> = login_world" by (simp add: login_world_def)
  with example_login_reaches [OF find_alice example_body] pw obtain w3 where
    "run_state (ps_auth_handle_login quiet_sys (login_request ''pass word'') None example_ctx) login_world =
     run_state (login_decided quiet_sys example_ctx None 1000 (Some alice) True) w3" "w_db w3 = login_db" "w_saved w3 = None" by auto
  then show ?thesis using st example_login_store by (simp add: login_decided_def sql_begin_def quiet_simps)
qed

lemma login_world_ok: "users_ok (w_db login_world)" "env_ok quiet_sys"
proof -
  have "\<exists>st. ''ACTIVE'' = ps_user_status_to_string st"
    by (rule exI [of _ PS_USER_STATUS_ACTIVE]) simp
  then show "users_ok (w_db login_world)"
    by (auto simp: users_ok_def login_world_def login_db_def example_db_def schema_001_init_def user_ids_def)
  show "env_ok quiet_sys" by (auto simp: env_ok_def quiet_sys_def toy_hmac_def PS_HMAC_SHA256_LEN_def)
qed


subsection \<open>Properties\<close>

text \<open>C1. A login succeeds only for the right password of an account that is active and not locked: the
  user named in the request exists, the password verifies against the stored salt and hash, and the
  effect on the database is exactly that the failure counter is reset, one session family with its
  first refresh token is added and the audit log records the success. The answer carries the access
  token of that user and session, and no transaction stays open.\<close>

theorem login_requires_password:
  assumes "users_ok (w_db w)" and "run_state (ps_auth_handle_login S req peer ctx) w = (r, w')" and "hr_status r = 200"
  shows "\<exists>body name password u now s claims tok. body_object req = Some body \<and>
    read_string_field body ''username'' PS_RAW_FIELD_MAX = Some name \<and> string_field body ''password'' = Some password \<and>
    u \<in> set (db_users (w_db w)) \<and> username_is name u \<and>
    ps_password_verify (sys_kdf S) password (stored_hash (populate_row u)) \<and>
    ur_status u = ''ACTIVE'' \<and> (\<forall>t. ur_locked_until u = Some t \<and> t \<noteq> 0 \<longrightarrow> t \<le> now) \<and>
    logged_in S ctx peer now (ur_user_id u) s (w_db w) (w_db w') \<and>
    issued S ctx (ur_user_id u) now (sc_family_id s) (sc_raw_refresh_token s) (w_db w') claims tok (hr_body r) \<and>
    w_saved w' = None"
  by (rule login_success [OF assms]) (intro exI conjI; assumption)

theorem login_requires_password_witness:
  "\<exists>r w'. run_state (ps_auth_handle_login quiet_sys (login_request ''pass word'') None example_ctx) login_world = (r, w') \<and> w_saved w' = None \<and>
     (\<exists>u now s. u \<in> set (db_users login_db) \<and> logged_in quiet_sys example_ctx None now (ur_user_id u) s login_db (w_db w'))"
proof -
  obtain r w' where run: "run_state (ps_auth_handle_login quiet_sys (login_request ''pass word'') None example_ctx) login_world = (r, w')"
    by (metis prod.collapse)
  then have "hr_status r = 200" using example_login by simp
  from login_requires_password [OF login_world_ok(1) run this] run login_world_simps(1) show ?thesis by metis
qed



end
