(* ===== verification/Lockout.thy ===== *)
theory Lockout
  imports Login
begin

text \<open>
  The lockout: what a wrong password does to the account, and how logins that overlap count. A login
  reads the row of the user before it begins its transaction, so that the counter it writes is computed
  from what it has read.
\<close>

definition charged :: "ps_app_ctx_t \<Rightarrow> int64 \<Rightarrow> int \<Rightarrow> user_rec \<Rightarrow> user_rec" where
  "charged ctx now failed u = u\<lparr>ur_failed_logins := failed,
     ur_locked_until := (if cfg_of ctx ''auth.lockout_threshold'' \<le> failed then zero_as_null (now + cfg_of ctx ''auth.lockout_duration_s'') else None),
     ur_updated_at := now\<rparr>"

lemma insert_audit_users: "insert_audit e d = Some (a, d') \<Longrightarrow> db_users d' = db_users d"
  by (auto simp: insert_audit_def)

lemma audit_users:
  "run_state (ps_audit_store_write S e) w = (ok, w') \<Longrightarrow> db_users (w_db w') = db_users (w_db w) \<and> w_saved w' = w_saved w"
  using run_audit [of S e w ok w'] by (cases ok) (auto dest: insert_audit_users)

lemma run_decided_wrong:
  assumes "run_state (login_decided S ctx peer now (Some row) False) w = (r, w')" and "\<not> is_locked now row" and "hr_status r = 401"
  shows "db_users (w_db w') = map (\<lambda>u. if ur_user_id u = us_user_id row then charged ctx now (us_failed_logins row + 1) u else u) (db_users (w_db w)) \<and>
    w_saved w' = None"
proof -
  let ?failed = "us_failed_logins row + 1" and ?thr = "cfg_of ctx ''auth.lockout_threshold''"
  from assms(1) obtain began w1 where b: "run_state (sql_begin S) w = (began, w1)"
    and rest: "run_state (if \<not> began then reply internal_error_result else login_failed S ctx peer now (Some row) False) w1 = (r, w')"
    unfolding login_decided_def by (auto simp: run_bind simp del: run_state_bind split: if_splits)
  have began: "began" using rest assms(3) by (auto simp: run_reply split: if_splits)
  then have "run_state (login_failed S ctx peer now (Some row) False) w1 = (r, w')" using rest by simp
  then obtain ok1 w2 ok2 w3 ok3 w4 committed w5 e e' where
    1: "run_state (ps_user_store_set_login_failure_state S (us_user_id row) ?failed
          (if ?thr \<le> ?failed then now + cfg_of ctx ''auth.lockout_duration_s'' else 0) now) w1 = (ok1, w2)"
    and 2: "run_state (and_then ok1 (ps_audit_store_write S e)) w2 = (ok2, w3)"
    and 3: "run_state (if ok2 \<and> ?thr \<le> ?failed then ps_audit_store_write S e' else ret ok2) w3 = (ok3, w4)"
    and 4: "run_state (end_tx S ok3) w4 = (committed, w5)"
    and 5: "run_state (if \<not> committed then reply internal_error_result
      else reply (error_result 401 ''UNAUTHORIZED'' ''invalid username or password'')) w5 = (r, w')"
    using assms(2) by (auto simp: login_failed_def run_bind run_return Let_def simp del: run_state_bind)
  have c: "committed" and w': "w_db w' = w_db w5" "w_saved w' = w_saved w5" using 5 assms(3) by (auto simp: run_reply split: if_splits)
  from run_end_tx [OF 4] c have ok3: "ok3" and d5: "w_db w5 = w_db w4" "w_saved w5 = None" by blast+
  from 3 ok3 have d4: "db_users (w_db w4) = db_users (w_db w3)" and ok2: "ok2"
    by (auto simp: run_return dest: audit_users split: if_splits)
  from 2 ok2 have d3: "db_users (w_db w3) = db_users (w_db w2)" and ok1: "ok1"
    by (auto simp: and_then_def run_return dest: audit_users split: if_splits)
  from run_login_state [OF 1] ok1 run_begin [OF b] have
    "db_users (w_db w2) = map (\<lambda>u. if ur_user_id u = us_user_id row then charged ctx now ?failed u else u) (db_users (w_db w))"
    by (auto simp: update_user_def charged_def zero_as_null_def)
  with w' d5 d4 d3 show ?thesis by simp
qed


subsection \<open>One wrong password\<close>

text \<open>A request that names the user \<open>u\<close> of the table and has a wrong password.\<close>

definition wrong_guess :: "sys \<Rightarrow> ps_http_request_t \<Rightarrow> db \<Rightarrow> user_rec \<Rightarrow> bool" where
  "wrong_guess S req d u \<longleftrightarrow> (\<exists>body name password. body_object req = Some body \<and>
     read_string_field body ''username'' PS_RAW_FIELD_MAX = Some name \<and> string_field body ''password'' = Some password \<and>
     List.find (username_is name) (db_users d) = Some u \<and>
     \<not> ps_password_verify (sys_kdf S) password (stored_hash (populate_row u)))"

definition charge :: "ps_app_ctx_t \<Rightarrow> int64 \<Rightarrow> user_rec \<Rightarrow> user_rec list \<Rightarrow> user_rec list" where
  "charge ctx now u us = map (\<lambda>v. if ur_user_id v = ur_user_id u then charged ctx now (ur_failed_logins u + 1) v else v) us"

lemma wrong_guess_counts:
  assumes quiet: "\<forall>n. \<not> sys_fault S n" and run: "run_state (ps_auth_handle_login S req peer ctx) w = (r, w')" and "hr_status r = 401"
    and guess: "wrong_guess S req (w_db w) u" and unlocked: "ur_locked_until u = None"
  shows "\<exists>n. db_users (w_db w') = charge ctx (sys_time S n) u (db_users (w_db w)) \<and> w_saved w' = None"
proof -
  have st: "hr_status r \<notin> {400, 429, 503}" using assms(3) by simp
  from guess obtain body name password where b: "body_object req = Some body"
    "read_string_field body ''username'' PS_RAW_FIELD_MAX = Some name" "string_field body ''password'' = Some password"
    and f: "List.find (username_is name) (db_users (w_db w)) = Some u" "\<not> ps_password_verify (sys_kdf S) password (stored_hash (populate_row u))"
    unfolding wrong_guess_def by blast
  from run_login [OF run st] obtain body' name' password' now found ok w1 w2 w3 where b': "body_object req = Some body'"
    "read_string_field body' ''username'' PS_RAW_FIELD_MAX = Some name'" "string_field body' ''password'' = Some password'"
    and now: "\<exists>n. now = sys_time S n"
    and g: "run_state (ps_user_store_get_by_username S name') w1 = (found, w2)"
    and ok: "ok = (case found of None \<Rightarrow> False | Some u \<Rightarrow> ps_password_verify (sys_kdf S) password' (stored_hash u))"
    and d: "w_db w1 = w_db w" "w_db w3 = w_db w"
    and dec: "run_state (login_decided S ctx peer now found ok) w3 = (r, w')"
    by (elim exE conjE) (rule that; (assumption | rule exI, assumption))
  have same: "name' = name" "password' = password" using b b' by simp_all
  have found: "found = Some (populate_row u)"
    using g f(1) quiet by (auto simp: ps_user_store_get_by_username_def get_user_def sql_query_def d same)
  have "\<not> is_locked now (populate_row u)" using unlocked by (simp add: is_locked_def populate_row_def null_or_zero_def)
  from run_decided_wrong [OF _ this assms(3)] dec ok f(2) found d(2) now same show ?thesis
    by (auto simp: charge_def populate_row_def)
qed


subsection \<open>Consecutive wrong passwords\<close>

fun login_all :: "sys \<Rightarrow> ps_app_ctx_t \<Rightarrow> (ps_http_request_t \<times> bytes option) list \<Rightarrow> ps_handler_result_t list io" where
  "login_all S ctx [] = ret []"
| "login_all S ctx ((req, peer) # reqs) = do {
     r \<leftarrow> ps_auth_handle_login S req peer ctx;
     rs \<leftarrow> login_all S ctx reqs;
     ret (r # rs) }"

lemma find_charge:
  assumes "List.find (username_is name) us = Some u" and "distinct (map ur_user_id us)"
  shows "List.find (username_is name) (charge ctx now u us) = Some (charged ctx now (ur_failed_logins u + 1) u)"
proof -
  have "username_is name (charged ctx now k v) = username_is name v" for k v by (simp add: username_is_def charged_def)
  then have "List.find (username_is name) (map (\<lambda>v. if ur_user_id v = uid then charged ctx now k v else v) vs) =
      map_option (\<lambda>v. if ur_user_id v = uid then charged ctx now k v else v) (List.find (username_is name) vs)" for uid k vs
    by (induction vs) simp_all
  then show ?thesis using assms(1) by (simp add: charge_def)
qed

lemma wrong_guess_charge:
  assumes "wrong_guess S req d u" and "db_users d' = charge ctx now u (db_users d)" and "users_ok d"
  shows "wrong_guess S req d' (charged ctx now (ur_failed_logins u + 1) u)"
proof -
  have "stored_hash (populate_row (charged ctx now k v)) = stored_hash (populate_row v)" for k v
    by (simp add: stored_hash_def populate_row_def charged_def)
  with assms show ?thesis unfolding wrong_guess_def users_ok_def by (auto simp: find_charge)
qed

lemma login_all_counts:
  assumes "\<forall>n. \<not> sys_fault S n" and "run_state (login_all S ctx reqs) w = (rs, w')" and "\<forall>r \<in> set rs. hr_status r = 401"
    and "\<forall>(req, peer) \<in> set reqs. wrong_guess S req (w_db w) u" and "reqs \<noteq> []" and "ur_locked_until u = None"
    and "ur_failed_logins u + int (length reqs) \<le> cfg_of ctx ''auth.lockout_threshold''" and "db_inv users_ok w" and "w_saved w = None"
  shows "\<exists>n v. u \<in> set (db_users (w_db w)) \<and> v \<in> set (db_users (w_db w')) \<and> ur_user_id v = ur_user_id u \<and>
    ur_failed_logins v = ur_failed_logins u + int (length reqs) \<and>
    ur_locked_until v = (if ur_failed_logins u + int (length reqs) = cfg_of ctx ''auth.lockout_threshold''
      then zero_as_null (sys_time S n + cfg_of ctx ''auth.lockout_duration_s'') else None)"
  using assms(2-)
proof (induction reqs arbitrary: u w rs)
  case (Cons rp reqs)
  obtain req peer where rp: "rp = (req, peer)" by force
  from Cons.prems(1) obtain r rs' w1 where r: "run_state (ps_auth_handle_login S req peer ctx) w = (r, w1)"
    and rest: "run_state (login_all S ctx reqs) w1 = (rs', w')" and rs: "rs = r # rs'"
    by (auto simp: rp run_bind run_return simp del: run_state_bind)
  have guess: "wrong_guess S req (w_db w) u" using Cons.prems(3) by (simp add: rp)
  obtain n where n: "db_users (w_db w1) = charge ctx (sys_time S n) u (db_users (w_db w))" "w_saved w1 = None"
    using wrong_guess_counts [OF assms(1) r _ guess Cons.prems(5)] Cons.prems(2) rs by auto
  let ?v = "charged ctx (sys_time S n) (ur_failed_logins u + 1) u"
  have ok: "users_ok (w_db w)" using Cons.prems(7) by (simp add: db_inv_def)
  have inv1: "db_inv users_ok w1" using keepsD [OF users.auth_handlers_keep(4) r] Cons.prems(7) by blast
  have mem: "u \<in> set (db_users (w_db w))" using guess by (auto simp: wrong_guess_def dest: find_SomeD)
  have memv: "?v \<in> set (db_users (w_db w1))" unfolding n(1) charge_def using mem by force
  show ?case
  proof (cases "reqs = []")
    case True
    then have "w' = w1" using rest by simp
    then show ?thesis using mem memv True Cons.prems(6)
      by (intro exI [of _ n] exI [of _ ?v]) (auto simp: charged_def)
  next
    case False
    have g: "\<forall>(req, peer) \<in> set reqs. wrong_guess S req (w_db w1) ?v"
      using Cons.prems(3) wrong_guess_charge [OF _ n(1) ok] by auto
    have small: "ur_failed_logins u + 1 < cfg_of ctx ''auth.lockout_threshold''" using False Cons.prems(6) by (cases reqs) auto
    then have v: "ur_locked_until ?v = None" "ur_failed_logins ?v = ur_failed_logins u + 1" "ur_user_id ?v = ur_user_id u"
      by (simp_all add: charged_def)
    have len: "ur_failed_logins ?v + int (length reqs) = ur_failed_logins u + int (length (rp # reqs))" using v by simp
    from Cons.IH [OF rest _ g False v(1) _ inv1 n(2)] Cons.prems(2,6) rs obtain m v' where
      "v' \<in> set (db_users (w_db w'))" "ur_user_id v' = ur_user_id ?v" "ur_failed_logins v' = ur_failed_logins ?v + int (length reqs)"
      "ur_locked_until v' = (if ur_failed_logins ?v + int (length reqs) = cfg_of ctx ''auth.lockout_threshold''
        then zero_as_null (sys_time S m + cfg_of ctx ''auth.lockout_duration_s'') else None)"
      unfolding len by auto
    then show ?thesis using mem v(3) unfolding len by metis
  qed
qed simp


subsection \<open>Overlapping wrong passwords\<close>

text \<open>Logins that have all read the row of the user before any of them begins its transaction; their second
  halves run one after the other, as SQLite's write lock orders them.\<close>

fun decide_all :: "sys \<Rightarrow> ps_app_ctx_t \<Rightarrow> ps_user_row_t \<Rightarrow> (bytes option \<times> int64) list \<Rightarrow> ps_handler_result_t list io" where
  "decide_all S ctx row [] = ret []"
| "decide_all S ctx row ((peer, now) # ls) = do {
     r \<leftarrow> login_decided S ctx peer now (Some row) False;
     rs \<leftarrow> decide_all S ctx row ls;
     ret (r # rs) }"

lemma charged_charged: "charged ctx now k (charged ctx now' k u) = charged ctx now k u"
  by (simp add: charged_def)

lemma run_decide_all:
  assumes "run_state (decide_all S ctx (populate_row u) ls) w = (rs, w')" and "\<forall>r \<in> set rs. hr_status r = 401"
    and "ur_locked_until u = None" and "ls \<noteq> []"
  shows "db_users (w_db w') = charge ctx (snd (last ls)) u (db_users (w_db w))"
  using assms(1,2,4)
proof (induction ls arbitrary: w rs)
  case (Cons l ls)
  obtain peer now where l: "l = (peer, now)" by force
  from Cons.prems(1) obtain r rs' w1 where r: "run_state (login_decided S ctx peer now (Some (populate_row u)) False) w = (r, w1)"
    and rest: "run_state (decide_all S ctx (populate_row u) ls) w1 = (rs', w')" and rs: "rs = r # rs'"
    by (auto simp: l run_bind run_return simp del: run_state_bind)
  have "\<not> is_locked now (populate_row u)" using assms(3) by (simp add: is_locked_def populate_row_def null_or_zero_def)
  from run_decided_wrong [OF r this] Cons.prems(2) rs have d: "db_users (w_db w1) = charge ctx now u (db_users (w_db w))"
    by (simp add: charge_def populate_row_def)
  show ?case
  proof (cases "ls = []")
    case False
    from Cons.IH [OF rest _ this] Cons.prems(2) rs False show ?thesis
      by (auto simp: d charge_def charged_charged) (simp add: charged_def)
  qed (use rest d in \<open>simp add: l\<close>)
qed simp

lemma login_all_keeps_users: "run_state (login_all S ctx reqs) w = (rs, w') \<Longrightarrow> db_inv users_ok w \<Longrightarrow> db_inv users_ok w'"
proof (induction reqs arbitrary: w rs)
  case (Cons rp reqs)
  obtain req peer where rp: "rp = (req, peer)" by force
  from Cons.prems(1) obtain r rs' w1 where r: "run_state (ps_auth_handle_login S req peer ctx) w = (r, w1)"
    and rest: "run_state (login_all S ctx reqs) w1 = (rs', w')"
    by (auto simp: rp run_bind run_return simp del: run_state_bind)
  from keepsD [OF users.auth_handlers_keep(4) r Cons.prems(2)] show ?case by (rule Cons.IH [OF rest])
qed simp

lemma username_unique:
  assumes "users_ok d" and "u \<in> set (db_users d)" and "v \<in> set (db_users d)" and "nocase (ur_username u) = nocase (ur_username v)"
  shows "u = v"
  using assms by (auto simp: users_ok_def distinct_map dest: inj_onD)


subsection \<open>Properties\<close>

definition guess_db :: db where
  "guess_db = login_db\<lparr>db_users := [(hd (db_users login_db))\<lparr>ur_failed_logins := 1\<rparr>]\<rparr>"

lemma wrong_body: "body_object (login_request ''wrong'') = Some (JObject [(''username'', JString ''Alice''), (''password'', JString ''wrong'')])"
  by code_simp

lemma guess_db_simps: "db_users guess_db = [(hd (db_users login_db))\<lparr>ur_failed_logins := 1\<rparr>]" "db_audit guess_db = db_audit login_db"
  "ur_user_id (hd (db_users login_db)) = 7" "ur_locked_until (hd (db_users login_db)) = None" "ur_failed_logins (hd (db_users guess_db)) = 1"
  by (simp_all add: guess_db_def login_db_def example_db_def)

lemma find_guess: "List.find (username_is ''Alice'') (db_users guess_db) = Some (hd (db_users guess_db))"
  using find_alice by (simp add: guess_db_def login_db_def example_db_def username_is_def split: if_splits)

lemma users_ok_guess: "users_ok guess_db"
proof -
  have "users_ok login_db" using login_world_ok(1) by (simp add: login_world_simps)
  then show ?thesis by (simp add: users_ok_def user_ids_def guess_db_def login_db_def example_db_def)
qed

lemma wrong_password: "\<not> ps_password_verify (sys_kdf quiet_sys) ''wrong'' (stored_hash (populate_row (hd (db_users guess_db))))"
  by (simp add: ps_password_verify_def stored_hash_def populate_row_def guess_db_def login_db_def example_db_def quiet_sys_def PS_KDF_OUTPUT_LEN_def)

lemma guess_ids: "w_db w = guess_db \<Longrightarrow> 7 \<in> user_ids (w_db w)"
  by (simp add: user_ids_def guess_db_simps)

lemma example_wrong:
  assumes "7 \<in> user_ids (w_db w)" and "w_saved w = None"
  shows "hr_status (fst (run_state (login_decided quiet_sys example_ctx None 1000 (Some (populate_row (hd (db_users guess_db)))) False) w)) = 401"
proof -
  have "us_user_id (populate_row (hd (db_users guess_db))) = 7" "us_failed_logins (populate_row (hd (db_users guess_db))) = 1"
    "\<not> is_locked 1000 (populate_row (hd (db_users guess_db)))"
    by (simp_all add: guess_db_simps populate_row_def is_locked_def null_or_zero_def user_ids_def)
  moreover have "cfg_of example_ctx ''auth.lockout_threshold'' = 2" by (simp add: example_ctx_def cfg_int_def)
  moreover have "user_ids (update_user 7 f d) = user_ids d" if "\<And>u. ur_user_id (f u) = ur_user_id u" for f d
  proof -
    have "map ur_user_id (db_users (update_user 7 f d)) = map ur_user_id (db_users d)"
      using that by (simp add: update_user_def del: map_map) (intro map_if_id; simp)
    then show ?thesis unfolding user_ids_def by (metis set_map)
  qed
  ultimately show ?thesis using assms
    by (simp add: login_decided_def sql_begin_def login_failed_def user_updates exec_ok_def sql_exec_def and_then_def ps_audit_store_write_def
      insert_audit_def end_tx_def sql_commit_def reply_def ps_db_pool_release_def error_result_def quiet_simps Let_def)
qed



text \<open>C6. Wrong passwords that overlap count once: however many logins have read the same unlocked row before any
  of them writes, once all of them have been answered with 401 the counter of that user is one more
  than it was, so that they lock the account only if one wrong password was missing.\<close>

theorem overlapping_guesses_count_once:
  assumes "run_state (decide_all S ctx (populate_row u) ls) w = (rs, w')" and "\<forall>r \<in> set rs. hr_status r = 401"
    and "ur_locked_until u = None" and "ls \<noteq> []" and "u \<in> set (db_users (w_db w))"
  shows "\<exists>v \<in> set (db_users (w_db w')). ur_user_id v = ur_user_id u \<and> ur_failed_logins v = ur_failed_logins u + 1 \<and>
    (ur_failed_logins u + 1 < cfg_of ctx ''auth.lockout_threshold'' \<longrightarrow> ur_locked_until v = None)"
  unfolding run_decide_all [OF assms(1-4)] charge_def using assms(5)
  by (intro bexI [of _ "charged ctx (snd (last ls)) (ur_failed_logins u + 1) u"]) (auto simp: charged_def)

theorem overlapping_guesses_count_once_witness:
  "\<exists>rs w'. run_state (decide_all quiet_sys example_ctx (populate_row (hd (db_users guess_db))) [(None, 1000), (None, 1000)])
       (login_world\<lparr>w_db := guess_db\<rparr>) = (rs, w') \<and> length rs = 2 \<and> (\<exists>v \<in> set (db_users (w_db w')). ur_failed_logins v = 2)"
proof -
  let ?w = "login_world\<lparr>w_db := guess_db\<rparr>" and ?u = "hd (db_users guess_db)"
  obtain r w1 r' w' where 1: "run_state (login_decided quiet_sys example_ctx None 1000 (Some (populate_row ?u)) False) ?w = (r, w1)"
    and 2: "run_state (login_decided quiet_sys example_ctx None 1000 (Some (populate_row ?u)) False) w1 = (r', w')"
    by (metis prod.collapse)
  have run: "run_state (decide_all quiet_sys example_ctx (populate_row ?u) [(None, 1000), (None, 1000)]) ?w = ([r, r'], w')"
    by (simp add: 1 2)
  have r: "hr_status r = 401" using 1 example_wrong [of ?w] guess_ids [of ?w] by (simp add: login_world_simps)
  have "\<not> is_locked 1000 (populate_row ?u)" by (simp add: guess_db_simps populate_row_def is_locked_def null_or_zero_def)
  from run_decided_wrong [OF 1 this r] have "7 \<in> user_ids (w_db w1)" "w_saved w1 = None"
    by (auto simp: user_ids_def guess_db_simps charged_def)
  then have "hr_status r' = 401" using 2 example_wrong [of w1] by simp
  with r overlapping_guesses_count_once [OF run] run show ?thesis by (force simp: guess_db_simps)
qed

end
