(* ===== verification/Maintenance.thy ===== *)
theory Maintenance
  imports Store_Contract
begin

text \<open>
  The maintenance thread (\<^verbatim>\<open>src/src/platform/maintenance.c\<close>): it deletes expired rows in batches and clears
  the locks that are over. It has a connection of its own, on which every statement is a transaction
  by itself; while another connection has a transaction open the statement finds the database locked
  and fails. The flag that asks the thread to stop is a parameter, read at the time of the tick.

  A batch is what \<^verbatim>\<open>SELECT ... LIMIT\<close> returns. It is taken in the order of insertion; SQLite may visit the
  rows in another order, which has no influence on what a complete sweep leaves.
\<close>

record ps_maintenance =
  ma_interval_s :: int
  ma_batch_size :: int
  ma_audit_retention_days :: int

definition SECONDS_PER_DAY :: int where "SECONDS_PER_DAY = 24 * 60 * 60"


subsection \<open>Statements\<close>

text \<open>\<^verbatim>\<open>LIMIT\<close>: a negative limit is none.\<close>

definition limited :: "int \<Rightarrow> 'a list \<Rightarrow> 'a list" where
  "limited limit xs = (if limit < 0 then xs else take (nat limit) xs)"

definition picked :: "('r \<Rightarrow> 'k) \<Rightarrow> ('r \<Rightarrow> bool) \<Rightarrow> int \<Rightarrow> 'r list \<Rightarrow> 'k list" where
  "picked key p limit rows = map key (limited limit (filter p rows))"

definition delete_rows :: "('r \<Rightarrow> 'k) \<Rightarrow> ('r \<Rightarrow> bool) \<Rightarrow> int \<Rightarrow> 'r list \<Rightarrow> nat \<times> 'r list" where
  "delete_rows key p limit rows =
     (let ks = picked key p limit rows
      in (length (filter (\<lambda>r. key r \<in> set ks) rows), filter (\<lambda>r. key r \<notin> set ks) rows))"

definition delete_evts :: "int64 \<Rightarrow> int \<Rightarrow> db \<Rightarrow> nat \<times> db" where
  "delete_evts cutoff limit d =
     (case delete_rows ev_token_hash (\<lambda>t. ev_expires_at t < cutoff) limit (db_evts d) of (n, rows) \<Rightarrow> (n, d\<lparr>db_evts := rows\<rparr>))"

definition family_over :: "int64 \<Rightarrow> db \<Rightarrow> rt_rec \<Rightarrow> bool" where
  "family_over cutoff d t \<longleftrightarrow> list_ex (\<lambda>f. sf_family_id f = rt_family_id t \<and> sf_absolute_exp f < cutoff) (db_families d)"

definition delete_rts :: "int64 \<Rightarrow> int \<Rightarrow> db \<Rightarrow> nat \<times> db" where
  "delete_rts cutoff limit d =
     (case delete_rows rt_token_hash (family_over cutoff d) limit (db_rts d) of (n, rows) \<Rightarrow> (n, d\<lparr>db_rts := rows\<rparr>))"

text \<open>Deleting a family deletes its tokens with it (\<^verbatim>\<open>ON DELETE CASCADE\<close>); they are not counted.\<close>

definition family_dead :: "int64 \<Rightarrow> family_rec \<Rightarrow> bool" where
  "family_dead now f \<longleftrightarrow> sf_absolute_exp f < now \<or>
     (case sf_revoked_at f of None \<Rightarrow> False | Some t \<Rightarrow> t < now - 30 * SECONDS_PER_DAY)"

definition delete_families :: "int64 \<Rightarrow> int \<Rightarrow> db \<Rightarrow> nat \<times> db" where
  "delete_families now limit d =
     (let ks = picked sf_family_id (family_dead now) limit (db_families d) in
      case delete_rows sf_family_id (family_dead now) limit (db_families d) of
        (n, rows) \<Rightarrow> (n, d\<lparr>db_families := rows, db_rts := filter (\<lambda>t. rt_family_id t \<notin> set ks) (db_rts d)\<rparr>))"

definition delete_mails :: "int64 \<Rightarrow> int \<Rightarrow> db \<Rightarrow> nat \<times> db" where
  "delete_mails cutoff limit d =
     (case delete_rows ml_id (\<lambda>m. ml_created_at m < cutoff) limit (db_outbox d) of (n, rows) \<Rightarrow> (n, d\<lparr>db_outbox := rows\<rparr>))"

definition delete_audit :: "int64 \<Rightarrow> int \<Rightarrow> db \<Rightarrow> nat \<times> db" where
  "delete_audit cutoff limit d =
     (case delete_rows au_id (\<lambda>a. au_occurred_at a < cutoff) limit (db_audit d) of (n, rows) \<Rightarrow> (n, d\<lparr>db_audit := rows\<rparr>))"

definition lock_over :: "int64 \<Rightarrow> user_rec \<Rightarrow> bool" where
  "lock_over now u \<longleftrightarrow> (case ur_locked_until u of None \<Rightarrow> False | Some t \<Rightarrow> t < now)"

definition unlocked :: "int64 \<Rightarrow> user_rec \<Rightarrow> user_rec" where
  "unlocked now u = u\<lparr>ur_locked_until := None, ur_updated_at := now\<rparr>"

definition clear_locks :: "int64 \<Rightarrow> int \<Rightarrow> db \<Rightarrow> nat \<times> db" where
  "clear_locks now limit d =
     (let ks = picked ur_user_id (lock_over now) limit (db_users d)
      in (length (filter (\<lambda>u. ur_user_id u \<in> set ks) (db_users d)),
          d\<lparr>db_users := map (\<lambda>u. if ur_user_id u \<in> set ks then unlocked now u else u) (db_users d)\<rparr>))"


subsection \<open>Sweeps\<close>

definition sweep_exec :: "sys \<Rightarrow> (db \<Rightarrow> nat \<times> db) \<Rightarrow> nat option io" where
  "sweep_exec S f = State (\<lambda>w. if sys_fault S (w_tick w) \<or> w_saved w \<noteq> None then (None, tick w)
     else case f (w_db w) of (n, d) \<Rightarrow> (Some n, tick (w\<lparr>w_db := d\<rparr>)))"

text \<open>The loop over the batches. The total is the number of rows, as the function returns it.\<close>

partial_function (option) sweep_loop ::
    "sys \<Rightarrow> (nat \<Rightarrow> bool) \<Rightarrow> int \<Rightarrow> (int \<Rightarrow> db \<Rightarrow> nat \<times> db) \<Rightarrow> nat \<Rightarrow> world \<Rightarrow> (nat \<times> world) option" where
  "sweep_loop S stop batch f removed w =
     (case run_state (sweep_exec S (f batch)) w of
        (None, w') \<Rightarrow> Some (removed, w')
      | (Some changed, w') \<Rightarrow>
          if int changed < batch then Some (removed + changed, w')
          else if stop (w_tick w') then Some (removed + changed, w')
          else sweep_loop S stop batch f (removed + changed) w')"

definition sweep_table :: "sys \<Rightarrow> (nat \<Rightarrow> bool) \<Rightarrow> ps_maintenance \<Rightarrow> (int \<Rightarrow> db \<Rightarrow> nat \<times> db) \<Rightarrow> world \<Rightarrow> (nat \<times> world) option" where
  "sweep_table S stop m f w = sweep_loop S stop (ma_batch_size m) f 0 w"

definition sweep_session_families :: "sys \<Rightarrow> (nat \<Rightarrow> bool) \<Rightarrow> ps_maintenance \<Rightarrow> int64 \<Rightarrow> world \<Rightarrow> (nat \<times> world) option" where
  "sweep_session_families S stop m now w = sweep_loop S stop (ma_batch_size m) (delete_families now) 0 w"

definition sweep_expired_lockouts :: "sys \<Rightarrow> (nat \<Rightarrow> bool) \<Rightarrow> ps_maintenance \<Rightarrow> int64 \<Rightarrow> world \<Rightarrow> (nat \<times> world) option" where
  "sweep_expired_lockouts S stop m now w = sweep_loop S stop (ma_batch_size m) (clear_locks now) 0 w"

definition run_sweep :: "sys \<Rightarrow> (nat \<Rightarrow> bool) \<Rightarrow> ps_maintenance \<Rightarrow> world \<Rightarrow> world option" where
  "run_sweep S stop m w =
     (let now = sys_time S (w_tick w) in do {
        (evt, w1) \<leftarrow> sweep_table S stop m (delete_evts (now - SECONDS_PER_DAY)) (tick w);
        (rt, w2) \<leftarrow> sweep_table S stop m (delete_rts now) w1;
        (sf, w3) \<leftarrow> sweep_session_families S stop m now w2;
        (outbox, w4) \<leftarrow> sweep_table S stop m (delete_mails (now - 7 * SECONDS_PER_DAY)) w3;
        (audit, w5) \<leftarrow> sweep_table S stop m (delete_audit (now - ma_audit_retention_days m * SECONDS_PER_DAY)) w4;
        (locks, w6) \<leftarrow> sweep_expired_lockouts S stop m now w5;
        Some w6 })"

text \<open>The thread: a sweep, a wait, until it is asked to stop.\<close>

partial_function (option) maintenance_main :: "sys \<Rightarrow> (nat \<Rightarrow> bool) \<Rightarrow> ps_maintenance \<Rightarrow> world \<Rightarrow> world option" where
  "maintenance_main S stop m w =
     Option.bind (run_sweep S stop m w) (\<lambda>w'.
       let w2 = (if stop (w_tick w') then w' else tick w') in
       if stop (w_tick w2) then Some w2 else maintenance_main S stop m w2)"



subsection \<open>Batches\<close>

text \<open>
  What the loop needs to know of a statement: \<open>all\<close> is the effect of an unlimited batch, \<open>todo\<close> the number
  of rows it has to treat. Then, for a positive batch size, the loop ends, and if nothing fails and
  nobody asks it to stop it has the effect of \<open>all\<close>.
\<close>

locale batched =
  fixes f :: "int \<Rightarrow> db \<Rightarrow> nat \<times> db" and todo :: "db \<Rightarrow> nat" and all :: "db \<Rightarrow> db" and ok :: "db \<Rightarrow> bool"
  assumes count: "\<And>b d. ok d \<Longrightarrow> 1 \<le> b \<Longrightarrow> fst (f b d) = min (nat b) (todo d)"
    and rest: "\<And>b d. ok d \<Longrightarrow> 1 \<le> b \<Longrightarrow> todo (snd (f b d)) = todo d - min (nat b) (todo d)"
    and same: "\<And>b d. ok d \<Longrightarrow> 1 \<le> b \<Longrightarrow> all (snd (f b d)) = all d"
    and idle: "\<And>d. ok d \<Longrightarrow> todo d = 0 \<Longrightarrow> all d = d"
    and stays: "\<And>b d. ok d \<Longrightarrow> ok (snd (f b d))"
begin

lemma loop_ends:
  assumes "ok (w_db w)" and "1 \<le> b"
  shows "\<exists>n w'. sweep_loop S stop b f k w = Some (n, w') \<and> ok (w_db w') \<and> w_saved w' = w_saved w \<and> w_tick w < w_tick w'"
  using assms(1)
proof (induction "todo (w_db w)" arbitrary: w k rule: less_induct)
  case less
  show ?case
  proof (cases "sys_fault S (w_tick w) \<or> w_saved w \<noteq> None")
    case True
    then show ?thesis using less.prems by (subst sweep_loop.simps) (auto simp: sweep_exec_def tick_def)
  next
    case False
    let ?w = "tick (w\<lparr>w_db := snd (f b (w_db w))\<rparr>)"
    have run: "run_state (sweep_exec S (f b)) w = (Some (fst (f b (w_db w))), ?w)"
      using False by (simp add: sweep_exec_def split_beta)
    have ok: "ok (w_db ?w)" using stays [OF less.prems] by (simp add: tick_def)
    have "todo (w_db ?w) < todo (w_db w)" if "\<not> int (fst (f b (w_db w))) < b"
      using that count [OF less.prems assms(2)] rest [OF less.prems assms(2)] assms(2) by (simp add: tick_def)
    from less.hyps [OF this ok] ok show ?thesis
      by (subst sweep_loop.simps) (fastforce simp: run tick_def)
  qed
qed

lemma loop_all:
  assumes "ok (w_db w)" and "1 \<le> b" and "\<forall>n. \<not> sys_fault S n" and "\<forall>n. \<not> stop n" and "w_saved w = None"
  shows "\<exists>n w'. sweep_loop S stop b f k w = Some (n, w') \<and> w_db w' = all (w_db w) \<and> w_saved w' = None \<and> ok (w_db w')"
  using assms(1,5)
proof (induction "todo (w_db w)" arbitrary: w k rule: less_induct)
  case less
  let ?w = "tick (w\<lparr>w_db := snd (f b (w_db w))\<rparr>)"
  have run: "run_state (sweep_exec S (f b)) w = (Some (fst (f b (w_db w))), ?w)"
    using assms(3) less.prems(2) by (simp add: sweep_exec_def split_beta)
  have ok: "ok (w_db ?w)" "w_saved ?w = None" "w_db ?w = snd (f b (w_db w))"
    using stays [OF less.prems(1)] less.prems(2) by (simp_all add: tick_def)
  note laws = count [OF less.prems(1) assms(2)] rest [OF less.prems(1) assms(2)] same [OF less.prems(1) assms(2)]
  show ?case
  proof (cases "int (fst (f b (w_db w))) < b")
    case True
    then have "todo (w_db ?w) = 0" using laws assms(2) ok by simp
    then have "all (w_db ?w) = w_db ?w" by (rule idle [OF ok(1)])
    then have "w_db ?w = all (w_db w)" unfolding ok(3) laws(3) by (rule sym)
    then show ?thesis using True ok by (subst sweep_loop.simps) (auto simp: run)
  next
    case False
    then have "todo (w_db ?w) < todo (w_db w)" using laws assms(2) ok by simp
    from less.hyps [OF this ok(1,2)] show ?thesis
      using False assms(4) laws ok(3) by (subst sweep_loop.simps) (auto simp: run)
  qed
qed

end

lemma filter_notin_take: "distinct xs \<Longrightarrow> filter (\<lambda>x. x \<notin> set (take n xs)) xs = drop n xs"
proof -
  assume d: "distinct xs"
  have "filter (\<lambda>x. x \<notin> set (take n xs)) (take n xs @ drop n xs) = drop n xs"
    using set_take_disj_set_drop_if_distinct [OF d, of n n] by (subst filter_append) (auto simp: filter_id_conv)
  then show ?thesis by simp
qed

lemma key_picked:
  assumes "distinct (map key rows)" and "r \<in> set rows"
  shows "key r \<in> set (picked key p b rows) \<longleftrightarrow> r \<in> set (limited b (filter p rows))"
proof
  assume "key r \<in> set (picked key p b rows)"
  then obtain r' where r': "r' \<in> set (limited b (filter p rows))" "key r = key r'" by (auto simp: picked_def)
  have "r' \<in> set rows" using r'(1) by (auto simp: limited_def dest: in_set_takeD split: if_splits)
  then show "r \<in> set (limited b (filter p rows))" using assms r' by (metis distinct_map inj_onD)
qed (simp add: picked_def)

lemma picked_cong: "distinct (map key rows) \<Longrightarrow> 1 \<le> b \<Longrightarrow> r \<in> set rows \<Longrightarrow>
    key r \<in> set (picked key p b rows) \<longleftrightarrow> r \<in> set (take (nat b) (filter p rows))"
  by (subst key_picked) (simp_all add: limited_def)

lemma picked_filters:
  assumes d: "distinct (map key rows)" and b: "1 \<le> b"
  shows "filter (\<lambda>r. key r \<notin> set (picked key p b rows)) (filter p rows) = drop (nat b) (filter p rows)"
    and "filter (\<lambda>r. key r \<notin> set (picked key p b rows)) (filter (\<lambda>r. \<not> p r) rows) = filter (\<lambda>r. \<not> p r) rows"
    and "length (filter (\<lambda>r. key r \<in> set (picked key p b rows)) rows) = min (nat b) (length (filter p rows))"
proof -
  have dr: "distinct rows" using d by (simp add: distinct_map)
  show "filter (\<lambda>r. key r \<notin> set (picked key p b rows)) (filter p rows) = drop (nat b) (filter p rows)"
    unfolding filter_notin_take [OF distinct_filter [OF dr], symmetric] using picked_cong [OF d b] by (auto intro!: filter_cong)
  show "filter (\<lambda>r. key r \<notin> set (picked key p b rows)) (filter (\<lambda>r. \<not> p r) rows) = filter (\<lambda>r. \<not> p r) rows"
    unfolding filter_id_conv using picked_cong [OF d b] by (auto dest: in_set_takeD)
  have "filter (\<lambda>r. key r \<in> set (picked key p b rows)) rows = filter (\<lambda>r. r \<in> set (take (nat b) (filter p rows))) rows"
    using picked_cong [OF d b] by (auto intro!: filter_cong)
  moreover have "set (filter (\<lambda>r. r \<in> set (take (nat b) (filter p rows))) rows) = set (take (nat b) (filter p rows))"
    by (auto dest: in_set_takeD)
  ultimately show "length (filter (\<lambda>r. key r \<in> set (picked key p b rows)) rows) = min (nat b) (length (filter p rows))"
    using dr by (metis distinct_card distinct_filter distinct_take length_take min.commute)
qed

lemma delete_rows:
  assumes "distinct (map key rows)" and "1 \<le> b"
  shows "fst (delete_rows key p b rows) = min (nat b) (length (filter p rows))"
    and "filter p (snd (delete_rows key p b rows)) = drop (nat b) (filter p rows)"
    and "filter (\<lambda>r. \<not> p r) (snd (delete_rows key p b rows)) = filter (\<lambda>r. \<not> p r) rows"
proof -
  let ?q = "\<lambda>r. key r \<notin> set (picked key p b rows)"
  have swap: "filter p (filter ?q rows) = filter ?q (filter p rows)"
    "filter (\<lambda>r. \<not> p r) (filter ?q rows) = filter ?q (filter (\<lambda>r. \<not> p r) rows)" by (auto intro: filter_cong)
  show "fst (delete_rows key p b rows) = min (nat b) (length (filter p rows))"
    using picked_filters(3) [OF assms] by (simp add: delete_rows_def Let_def)
  show "filter p (snd (delete_rows key p b rows)) = drop (nat b) (filter p rows)"
    using picked_filters(1) [OF assms, of p] swap(1) by (simp add: delete_rows_def Let_def)
  show "filter (\<lambda>r. \<not> p r) (snd (delete_rows key p b rows)) = filter (\<lambda>r. \<not> p r) rows"
    using picked_filters(2) [OF assms, of p] swap(2) by (simp add: delete_rows_def Let_def)
qed

lemma delete_rows_distinct: "distinct (map h rows) \<Longrightarrow> distinct (map h (snd (delete_rows key p b rows)))"
  by (simp add: delete_rows_def Let_def distinct_map_filter)



subsection \<open>The tables\<close>

definition tables_ok :: "db \<Rightarrow> bool" where
  "tables_ok d \<longleftrightarrow> users_ok d \<and> sessions_ok d \<and> keys_ok d"

lemma tables_ok_init: "tables_ok schema_001_init"
  using users_ok_init sessions_ok_init by (simp add: tables_ok_def keys_ok_def schema_001_init_def)

lemma filter_none: "length (filter p xs) = 0 \<Longrightarrow> filter (\<lambda>x. \<not> p x) xs = xs"
  by (simp add: filter_empty_conv filter_id_conv)

lemma one_live_subset: "one_live ts \<Longrightarrow> set ts' \<subseteq> set ts \<Longrightarrow> one_live ts'"
  unfolding one_live_def by blast

lemma delete_rows_subset: "set (snd (delete_rows key p b rows)) \<subseteq> set rows"
  by (auto simp: delete_rows_def Let_def)

lemmas delete_defs = delete_evts_def delete_rts_def delete_families_def delete_mails_def delete_audit_def

lemma sessions_ok_rts:
  "sessions_ok d \<Longrightarrow> set ts \<subseteq> set (db_rts d) \<Longrightarrow> distinct (map rt_token_hash ts) \<Longrightarrow> sessions_ok (d\<lparr>db_rts := ts\<rparr>)"
  unfolding sessions_ok_def using one_live_subset by fastforce

lemma users_ok_map:
  assumes "users_ok d" and "\<And>u. ur_user_id (g u) = ur_user_id u" and "\<And>u. ur_username (g u) = ur_username u"
    and "\<And>u. ur_email_normalized (g u) = ur_email_normalized u" and "\<And>u. ur_status (g u) = ur_status u"
  shows "users_ok (d\<lparr>db_users := map g (db_users d)\<rparr>)"
  using assms by (simp add: users_ok_def user_ids_def comp_def image_image)

lemmas ok_defs = tables_ok_def users_ok_def user_ids_def sessions_ok_def keys_ok_def

lemma deletes_keep:
  assumes "tables_ok d"
  shows "tables_ok (snd (delete_evts c b d))" and "tables_ok (snd (delete_rts c b d))" and "tables_ok (snd (delete_mails c b d))"
    and "tables_ok (snd (delete_audit c b d))"
proof -
  show "tables_ok (snd (delete_rts c b d))"
  proof -
    have "sessions_ok (d\<lparr>db_rts := snd (delete_rows rt_token_hash (family_over c d) b (db_rts d))\<rparr>)"
      by (rule sessions_ok_rts [OF _ delete_rows_subset delete_rows_distinct]) (use assms in \<open>simp_all add: tables_ok_def sessions_ok_def\<close>)
    then show ?thesis using assms by (simp add: delete_rts_def split_beta tables_ok_def users_ok_def user_ids_def keys_ok_def)
  qed
qed (use assms in \<open>simp_all add: delete_defs split_beta ok_defs delete_rows_distinct\<close>)

lemma delete_families_keeps:
  assumes "tables_ok d"
  shows "tables_ok (snd (delete_families now b d))"
proof -
  let ?ks = "picked sf_family_id (family_dead now) b (db_families d)" and ?rows = "snd (delete_rows sf_family_id (family_dead now) b (db_families d))"
  have "sessions_ok (d\<lparr>db_families := ?rows, db_rts := filter (\<lambda>t. rt_family_id t \<notin> set ?ks) (db_rts d)\<rparr>)"
    using assms by (auto simp: tables_ok_def sessions_ok_def delete_rows_def Let_def distinct_map_filter intro: one_live_subset)
  then show ?thesis using assms by (simp add: delete_families_def Let_def split_beta tables_ok_def users_ok_def user_ids_def keys_ok_def)
qed

lemma clear_locks_keeps:
  assumes "tables_ok d"
  shows "tables_ok (snd (clear_locks now b d))"
proof -
  have "users_ok (snd (clear_locks now b d))"
    unfolding clear_locks_def Let_def snd_conv by (rule users_ok_map) (use assms in \<open>simp_all add: tables_ok_def unlocked_def\<close>)
  then show ?thesis using assms by (simp add: tables_ok_def sessions_ok_def keys_ok_def clear_locks_def Let_def)
qed

interpretation evts: batched "delete_evts cutoff" "\<lambda>d. length (filter (\<lambda>t. ev_expires_at t < cutoff) (db_evts d))"
  "\<lambda>d. d\<lparr>db_evts := filter (\<lambda>t. \<not> ev_expires_at t < cutoff) (db_evts d)\<rparr>" tables_ok for cutoff
  by (unfold_locales; (rule deletes_keep; assumption)?; simp add: delete_evts_def split_beta delete_rows filter_none tables_ok_def keys_ok_def)

interpretation rts: batched "delete_rts cutoff" "\<lambda>d. length (filter (family_over cutoff d) (db_rts d))"
  "\<lambda>d. d\<lparr>db_rts := filter (\<lambda>t. \<not> family_over cutoff d t) (db_rts d)\<rparr>" tables_ok for cutoff
proof -
  have over: "family_over cutoff (d\<lparr>db_rts := ts\<rparr>) = family_over cutoff d" for d ts by (simp add: family_over_def fun_eq_iff)
  show "batched (delete_rts cutoff) (\<lambda>d. length (filter (family_over cutoff d) (db_rts d)))
    (\<lambda>d. d\<lparr>db_rts := filter (\<lambda>t. \<not> family_over cutoff d t) (db_rts d)\<rparr>) tables_ok"
    by (unfold_locales; (rule deletes_keep; assumption)?;
      simp add: delete_rts_def split_beta delete_rows filter_none over tables_ok_def sessions_ok_def)
qed

interpretation mails: batched "delete_mails cutoff" "\<lambda>d. length (filter (\<lambda>m. ml_created_at m < cutoff) (db_outbox d))"
  "\<lambda>d. d\<lparr>db_outbox := filter (\<lambda>m. \<not> ml_created_at m < cutoff) (db_outbox d)\<rparr>" tables_ok for cutoff
  by (unfold_locales; (rule deletes_keep; assumption)?; simp add: delete_mails_def split_beta delete_rows filter_none tables_ok_def keys_ok_def)

interpretation audits: batched "delete_audit cutoff" "\<lambda>d. length (filter (\<lambda>a. au_occurred_at a < cutoff) (db_audit d))"
  "\<lambda>d. d\<lparr>db_audit := filter (\<lambda>a. \<not> au_occurred_at a < cutoff) (db_audit d)\<rparr>" tables_ok for cutoff
  by (unfold_locales; (rule deletes_keep; assumption)?; simp add: delete_audit_def split_beta delete_rows filter_none tables_ok_def keys_ok_def)

lemma in_picked: "k \<in> set (picked key p b rows) \<Longrightarrow> \<exists>r \<in> set rows. p r \<and> key r = k"
  by (auto simp: picked_def limited_def split: if_splits dest!: in_set_takeD)

interpretation families: batched "delete_families now" "\<lambda>d. length (filter (family_dead now) (db_families d))"
  "\<lambda>d. d\<lparr>db_families := filter (\<lambda>f. \<not> family_dead now f) (db_families d),
     db_rts := filter (\<lambda>t. \<not> list_ex (\<lambda>f. sf_family_id f = rt_family_id t \<and> family_dead now f) (db_families d)) (db_rts d)\<rparr>"
  tables_ok for now
proof (unfold_locales, goal_cases)
  case (3 b d)
  let ?ks = "picked sf_family_id (family_dead now) b (db_families d)"
  let ?rows = "snd (delete_rows sf_family_id (family_dead now) b (db_families d))"
  let ?dead = "\<lambda>fs t. list_ex (\<lambda>f. sf_family_id f = rt_family_id t \<and> family_dead now f) fs"
  have "(rt_family_id t \<notin> set ?ks \<and> \<not> ?dead ?rows t) \<longleftrightarrow> \<not> ?dead (db_families d) t" for t :: rt_rec
    using in_picked [of "rt_family_id t" sf_family_id "family_dead now" b "db_families d"]
    by (auto simp: list_ex_iff delete_rows_def Let_def)
  then have "filter (\<lambda>t. \<not> ?dead ?rows t) (filter (\<lambda>t. rt_family_id t \<notin> set ?ks) (db_rts d)) =
      filter (\<lambda>t. \<not> ?dead (db_families d) t) (db_rts d)" by simp
  then show ?case using 3
    by (simp add: delete_families_def Let_def split_beta delete_rows tables_ok_def sessions_ok_def del: filter_filter)
next
  case (4 d)
  then have "filter (family_dead now) (db_families d) = []" by simp
  then have "\<not> list_ex (\<lambda>f. sf_family_id f = rt_family_id t \<and> family_dead now f) (db_families d)" for t :: rt_rec
    by (auto simp: list_ex_iff filter_empty_conv)
  with 4 show ?case by (simp add: filter_none)
next
  case (5 b d)
  then show ?case by (rule delete_families_keeps)
qed (simp_all add: delete_families_def Let_def split_beta delete_rows tables_ok_def sessions_ok_def)

lemma unlocked_over [simp]: "\<not> lock_over now (unlocked now u)"
  by (simp add: lock_over_def unlocked_def)

interpretation locks: batched "clear_locks now" "\<lambda>d. length (filter (lock_over now) (db_users d))"
  "\<lambda>d. d\<lparr>db_users := map (\<lambda>u. if lock_over now u then unlocked now u else u) (db_users d)\<rparr>" tables_ok for now
proof (unfold_locales, goal_cases)
  case (1 b d)
  then show ?case using picked_filters(3) [of ur_user_id "db_users d" b "lock_over now"]
    by (simp add: clear_locks_def Let_def tables_ok_def users_ok_def)
next
  case (2 b d)
  let ?ks = "picked ur_user_id (lock_over now) b (db_users d)"
  let ?g = "\<lambda>u. if ur_user_id u \<in> set ?ks then unlocked now u else u"
  have "(lock_over now \<circ> ?g) u \<longleftrightarrow> ur_user_id u \<notin> set ?ks \<and> lock_over now u" for u by simp
  then have "length (filter (lock_over now) (map ?g (db_users d))) =
      length (filter (\<lambda>u. ur_user_id u \<notin> set ?ks) (filter (lock_over now) (db_users d)))"
    by (simp add: filter_map conj_commute cong: filter_cong)
  moreover have "distinct (map ur_user_id (db_users d))" using 2 by (simp add: tables_ok_def users_ok_def)
  ultimately show ?case using picked_filters(1) [OF _ 2(2), of ur_user_id "db_users d" "lock_over now"]
    by (auto simp: clear_locks_def Let_def min_def simp del: filter_filter)
next
  case (3 b d)
  let ?ks = "picked ur_user_id (lock_over now) b (db_users d)"
  have "lock_over now u" if "u \<in> set (db_users d)" "ur_user_id u \<in> set ?ks" for u
    using that 3 picked_cong [of ur_user_id "db_users d" b u "lock_over now"] by (auto simp: tables_ok_def users_ok_def dest: in_set_takeD)
  then show ?case by (auto simp: clear_locks_def Let_def)
next
  case (4 d)
  then have "\<forall>u \<in> set (db_users d). \<not> lock_over now u" by (simp add: filter_empty_conv)
  then have "map (\<lambda>u. if lock_over now u then unlocked now u else u) (db_users d) = db_users d" by (simp add: map_idI)
  then show ?case by simp
qed (rule clear_locks_keeps)



subsection \<open>A sweep\<close>

text \<open>What a sweep at time \<open>now\<close> is for: the rows it leaves.\<close>

definition swept :: "int64 \<Rightarrow> int \<Rightarrow> db \<Rightarrow> db" where
  "swept now days d = d\<lparr>
     db_users := map (\<lambda>u. if lock_over now u then unlocked now u else u) (db_users d),
     db_evts := filter (\<lambda>t. now - SECONDS_PER_DAY \<le> ev_expires_at t) (db_evts d),
     db_families := filter (\<lambda>f. \<not> family_dead now f) (db_families d),
     db_rts := filter (\<lambda>t. \<exists>f \<in> set (db_families d). sf_family_id f = rt_family_id t \<and> \<not> family_dead now f) (db_rts d),
     db_outbox := filter (\<lambda>m. now - 7 * SECONDS_PER_DAY \<le> ml_created_at m) (db_outbox d),
     db_audit := filter (\<lambda>a. now - days * SECONDS_PER_DAY \<le> au_occurred_at a) (db_audit d)\<rparr>"

lemma surviving_tokens:
  assumes "sessions_ok d"
  shows "filter (\<lambda>t. \<not> list_ex (\<lambda>f. sf_family_id f = rt_family_id t \<and> family_dead now f) (db_families d))
      (filter (\<lambda>t. \<not> family_over now d t) (db_rts d)) =
    filter (\<lambda>t. \<exists>f \<in> set (db_families d). sf_family_id f = rt_family_id t \<and> \<not> family_dead now f) (db_rts d)"
proof -
  have "(\<not> family_over now d t \<and> \<not> list_ex (\<lambda>f. sf_family_id f = rt_family_id t \<and> family_dead now f) (db_families d)) \<longleftrightarrow>
      (\<exists>f \<in> set (db_families d). sf_family_id f = rt_family_id t \<and> \<not> family_dead now f)" if "t \<in> set (db_rts d)" for t
  proof -
    have "rt_family_id t \<in> sf_family_id ` set (db_families d)" using assms that by (auto simp: sessions_ok_def)
    then obtain f where f: "f \<in> set (db_families d)" "sf_family_id f = rt_family_id t" by auto
    moreover have "f' = f" if "f' \<in> set (db_families d)" "sf_family_id f' = rt_family_id t" for f'
      by (rule inj_onD [of sf_family_id "set (db_families d)"]) (use assms f that in \<open>simp_all add: sessions_ok_def distinct_map\<close>)
    ultimately show ?thesis unfolding family_over_def list_ex_iff family_dead_def by blast
  qed
  then show ?thesis unfolding filter_filter by (rule filter_cong [OF refl])
qed

lemmas sweep_defs = run_sweep_def sweep_table_def sweep_session_families_def sweep_expired_lockouts_def Let_def

lemma run_sweep_ends:
  assumes "tables_ok (w_db w)" and "1 \<le> ma_batch_size m"
  shows "\<exists>w'. run_sweep S stop m w = Some w' \<and> tables_ok (w_db w') \<and> w_saved w' = w_saved w \<and> w_tick w < w_tick w'"
proof -
  let ?now = "sys_time S (w_tick w)"
  have w0: "tables_ok (w_db (tick w))" "w_saved (tick w) = w_saved w" "w_tick (tick w) = w_tick w + 1" using assms(1) by (simp_all add: tick_def)
  from evts.loop_ends [OF w0(1) assms(2)] obtain n1 w1 where
    1: "sweep_loop S stop (ma_batch_size m) (delete_evts (?now - SECONDS_PER_DAY)) 0 (tick w) = Some (n1, w1)"
    "tables_ok (w_db w1)" "w_saved w1 = w_saved (tick w)" "w_tick (tick w) < w_tick w1" by blast
  from rts.loop_ends [OF 1(2) assms(2)] obtain n2 w2 where
    2: "sweep_loop S stop (ma_batch_size m) (delete_rts ?now) 0 w1 = Some (n2, w2)"
    "tables_ok (w_db w2)" "w_saved w2 = w_saved w1" "w_tick w1 < w_tick w2" by blast
  from families.loop_ends [OF 2(2) assms(2)] obtain n3 w3 where
    3: "sweep_loop S stop (ma_batch_size m) (delete_families ?now) 0 w2 = Some (n3, w3)"
    "tables_ok (w_db w3)" "w_saved w3 = w_saved w2" "w_tick w2 < w_tick w3" by blast
  from mails.loop_ends [OF 3(2) assms(2)] obtain n4 w4 where
    4: "sweep_loop S stop (ma_batch_size m) (delete_mails (?now - 7 * SECONDS_PER_DAY)) 0 w3 = Some (n4, w4)"
    "tables_ok (w_db w4)" "w_saved w4 = w_saved w3" "w_tick w3 < w_tick w4" by blast
  from audits.loop_ends [OF 4(2) assms(2)] obtain n5 w5 where
    5: "sweep_loop S stop (ma_batch_size m) (delete_audit (?now - ma_audit_retention_days m * SECONDS_PER_DAY)) 0 w4 = Some (n5, w5)"
    "tables_ok (w_db w5)" "w_saved w5 = w_saved w4" "w_tick w4 < w_tick w5" by blast
  from locks.loop_ends [OF 5(2) assms(2)] obtain n6 w6 where
    6: "sweep_loop S stop (ma_batch_size m) (clear_locks ?now) 0 w5 = Some (n6, w6)"
    "tables_ok (w_db w6)" "w_saved w6 = w_saved w5" "w_tick w5 < w_tick w6" by blast
  show ?thesis using w0 1 2 3 4 5 6 by (simp add: sweep_defs)
qed

lemma run_sweep_all:
  assumes "tables_ok (w_db w)" and "1 \<le> ma_batch_size m" and "\<forall>n. \<not> sys_fault S n" and "\<forall>n. \<not> stop n" and "w_saved w = None"
  shows "\<exists>w'. run_sweep S stop m w = Some w' \<and> w_db w' = swept (sys_time S (w_tick w)) (ma_audit_retention_days m) (w_db w)"
proof -
  let ?now = "sys_time S (w_tick w)" and ?days = "ma_audit_retention_days m"
  have w0: "tables_ok (w_db (tick w))" "w_saved (tick w) = None" "w_db (tick w) = w_db w" using assms(1,5) by (simp_all add: tick_def)
  note hyps = assms(2-4)
  from evts.loop_all [OF w0(1) hyps w0(2)] obtain n1 w1 where
    1: "sweep_loop S stop (ma_batch_size m) (delete_evts (?now - SECONDS_PER_DAY)) 0 (tick w) = Some (n1, w1)"
    "tables_ok (w_db w1)" "w_saved w1 = None" and d1: "w_db w1 = (w_db w)\<lparr>db_evts := filter (\<lambda>t. \<not> ev_expires_at t < ?now - SECONDS_PER_DAY) (db_evts (w_db w))\<rparr>"
    unfolding w0(3) by blast
  from rts.loop_all [OF 1(2) hyps 1(3)] obtain n2 w2 where
    2: "sweep_loop S stop (ma_batch_size m) (delete_rts ?now) 0 w1 = Some (n2, w2)"
    "tables_ok (w_db w2)" "w_saved w2 = None" and d2: "w_db w2 = (w_db w1)\<lparr>db_rts := filter (\<lambda>t. \<not> family_over ?now (w_db w1) t) (db_rts (w_db w1))\<rparr>" by blast
  from families.loop_all [OF 2(2) hyps 2(3)] obtain n3 w3 where
    3: "sweep_loop S stop (ma_batch_size m) (delete_families ?now) 0 w2 = Some (n3, w3)"
    "tables_ok (w_db w3)" "w_saved w3 = None" and d3: "w_db w3 = (w_db w2)\<lparr>db_families := filter (\<lambda>f. \<not> family_dead ?now f) (db_families (w_db w2)),
     db_rts := filter (\<lambda>t. \<not> list_ex (\<lambda>f. sf_family_id f = rt_family_id t \<and> family_dead ?now f) (db_families (w_db w2))) (db_rts (w_db w2))\<rparr>" by blast
  from mails.loop_all [OF 3(2) hyps 3(3)] obtain n4 w4 where
    4: "sweep_loop S stop (ma_batch_size m) (delete_mails (?now - 7 * SECONDS_PER_DAY)) 0 w3 = Some (n4, w4)"
    "tables_ok (w_db w4)" "w_saved w4 = None" and d4: "w_db w4 = (w_db w3)\<lparr>db_outbox := filter (\<lambda>m. \<not> ml_created_at m < ?now - 7 * SECONDS_PER_DAY) (db_outbox (w_db w3))\<rparr>" by blast
  from audits.loop_all [OF 4(2) hyps 4(3)] obtain n5 w5 where
    5: "sweep_loop S stop (ma_batch_size m) (delete_audit (?now - ?days * SECONDS_PER_DAY)) 0 w4 = Some (n5, w5)"
    "tables_ok (w_db w5)" "w_saved w5 = None" and d5: "w_db w5 = (w_db w4)\<lparr>db_audit := filter (\<lambda>a. \<not> au_occurred_at a < ?now - ?days * SECONDS_PER_DAY) (db_audit (w_db w4))\<rparr>" by blast
  from locks.loop_all [OF 5(2) hyps 5(3)] obtain n6 w6 where
    6: "sweep_loop S stop (ma_batch_size m) (clear_locks ?now) 0 w5 = Some (n6, w6)"
    and d6: "w_db w6 = (w_db w5)\<lparr>db_users := map (\<lambda>u. if lock_over ?now u then unlocked ?now u else u) (db_users (w_db w5))\<rparr>" by blast
  have "sessions_ok (w_db w)" using assms(1) by (simp add: tables_ok_def)
  then have "w_db w6 = swept ?now ?days (w_db w)"
    using surviving_tokens [of "w_db w" ?now]
    by (simp add: d1 d2 d3 d4 d5 d6 swept_def family_over_def not_less del: filter_filter)
  then show ?thesis using 1 2 3 4 5 6 by (simp add: sweep_defs)
qed

lemma main_ends:
  assumes "1 \<le> ma_batch_size m" and "\<forall>n \<ge> N. stop n" and "tables_ok (w_db w)"
  shows "\<exists>w'. maintenance_main S stop m w = Some w' \<and> tables_ok (w_db w')"
  using assms(3)
proof (induction "N - w_tick w" arbitrary: w rule: less_induct)
  case less
  from run_sweep_ends [OF less.prems assms(1)] obtain w1 where
    w1: "run_sweep S stop m w = Some w1" "tables_ok (w_db w1)" "w_tick w < w_tick w1" by blast
  let ?w2 = "if stop (w_tick w1) then w1 else tick w1"
  have w2: "tables_ok (w_db ?w2)" "w_tick w < w_tick ?w2" using w1 by (simp_all add: tick_def)
  show ?case
  proof (cases "stop (w_tick ?w2)")
    case True
    then show ?thesis using w1 w2 by (subst maintenance_main.simps) (simp add: Let_def)
  next
    case False
    then have "w_tick ?w2 < N" using assms(2) not_less by blast
    then have "N - w_tick ?w2 < N - w_tick w" using w2(2) by linarith
    from less.hyps [OF this w2(1)] show ?thesis using False w1 by (subst maintenance_main.simps) (simp add: Let_def)
  qed
qed


subsection \<open>Properties\<close>

definition old_db :: db where
  "old_db = schema_001_init\<lparr>
     db_families := [new_family ''f'' 7 0 50, new_family ''g'' 7 0 5000],
     db_rts := [new_rt ''h'' ''f'' 1 20 0, (new_rt ''i'' ''g'' 1 20 0)\<lparr>rt_consumed_at := Some 3\<rparr>, new_rt ''j'' ''g'' 2 2000 3],
     db_audit := [\<lparr>au_id = 1, au_occurred_at = - 100000, au_event = [], au_outcome = [], au_actor_user_id = None, au_target_user_id = None,
       au_source_ip = None, au_request_id = None, au_detail = None\<rparr>]\<rparr>"

definition old_world :: world where
  "old_world = \<lparr>w_db = old_db, w_saved = None, w_rl = [], w_kdf = 2, w_conns = 4, w_tick = 0\<rparr>"

lemma old_db_ok: "tables_ok (w_db old_world)"
  by (simp add: old_world_def old_db_def ok_defs schema_001_init_def one_live_def live_def new_family_def new_rt_def)

text \<open>C15. A sweep removes exactly what is over: with a positive batch size, however many rows there are, a sweep
  that is not disturbed ends and leaves the verification tokens that expired less than a day ago, the
  session families that are neither past their absolute expiry nor revoked for thirty days, the
  refresh tokens (used ones too) of just these families, the mails of the last seven days and the
  audit entries within the retention; locks that are over are cleared and nothing else changes.\<close>

theorem sweep_leaves_exactly:
  assumes "tables_ok (w_db w)" and "1 \<le> ma_batch_size m" and "\<forall>n. \<not> sys_fault S n" and "\<forall>n. \<not> stop n" and "w_saved w = None"
  shows "\<exists>w'. run_sweep S stop m w = Some w' \<and> w_db w' = swept (sys_time S (w_tick w)) (ma_audit_retention_days m) (w_db w)"
  by (rule run_sweep_all [OF assms])

theorem sweep_leaves_exactly_witness:
  "\<exists>w'. run_sweep quiet_sys (\<lambda>n. False) \<lparr>ma_interval_s = 60, ma_batch_size = 1, ma_audit_retention_days = 1\<rparr> old_world = Some w' \<and>
     map rt_token_hash (db_rts (w_db w')) = [''i'', ''j''] \<and> db_audit (w_db w') = []"
proof -
  have "map rt_token_hash (db_rts (swept 1000 1 old_db)) = [''i'', ''j''] \<and> db_audit (swept 1000 1 old_db) = []"
    by (simp add: swept_def old_db_def schema_001_init_def family_dead_def new_family_def new_rt_def SECONDS_PER_DAY_def)
  moreover have "sys_time quiet_sys n = 1000" "\<not> sys_fault quiet_sys n" "w_db old_world = old_db" "w_saved old_world = None" for n
    by (simp_all add: quiet_sys_def old_world_def)
  ultimately show ?thesis
    using sweep_leaves_exactly [of old_world "\<lparr>ma_interval_s = 60, ma_batch_size = 1, ma_audit_retention_days = 1\<rparr>" quiet_sys "\<lambda>n. False"] old_db_ok
    by auto
qed

text \<open>C16. The maintenance thread can always be stopped: with a positive batch size, whatever statements fail and
  whoever holds the write lock, every sweep ends, and the thread returns once the stop flag is set; the
  tables satisfy their invariants all the while.\<close>

theorem maintenance_stops:
  assumes "1 \<le> ma_batch_size m" and "\<forall>n \<ge> N. stop n" and "tables_ok (w_db w)"
  shows "\<exists>w'. maintenance_main S stop m w = Some w' \<and> tables_ok (w_db w')"
  by (rule main_ends [OF assms])

theorem maintenance_stops_witness:
  "\<exists>w'. maintenance_main quiet_sys (\<lambda>n. 100 \<le> n) \<lparr>ma_interval_s = 60, ma_batch_size = 1, ma_audit_retention_days = 1\<rparr> old_world = Some w' \<and>
     tables_ok (w_db w')"
  by (rule maintenance_stops [of _ 100]) (use old_db_ok in simp_all)

end
