(* ===== verification/Bootstrap.thy ===== *)
theory Bootstrap
  imports Login
begin

text \<open>
  The first administrator (\<^verbatim>\<open>src/src/auth/bootstrap.c\<close>): at start-up, when no user has the role ADMIN, the
  account named in the environment is created, active and with both roles. The function overwrites the
  password in the configuration, which the model returns with the result.
\<close>

datatype ps_bootstrap_result_t = PS_BOOTSTRAP_OK | PS_BOOTSTRAP_MISSING_CREDENTIALS | PS_BOOTSTRAP_WEAK_PASSWORD | PS_BOOTSTRAP_ERROR

text \<open>The join of the two tables.\<close>

definition admin_rows :: "db \<Rightarrow> (int64 \<times> int64) list" where
  "admin_rows d = filter (\<lambda>(_, rid). list_ex (\<lambda>(r, name). r = rid \<and> name = ''ADMIN'') (db_roles d)) (db_user_roles d)"

definition count_admins :: "sys \<Rightarrow> nat option io" where
  "count_admins S = sql_query S (\<lambda>d. Some (length (admin_rows d)))"

definition cleanse_password :: "ps_config_t \<Rightarrow> ps_config_t" where
  "cleanse_password cfg = cfg(''bootstrap.admin_password'' \<mapsto> V_str [])"

definition bootstrap_row :: "bytes \<Rightarrow> bytes \<Rightarrow> ps_password_hash_t \<Rightarrow> ps_user_row_t" where
  "bootstrap_row username email_normalized h = \<lparr>us_user_id = 0, us_username = c_snprintf_s PS_USERNAME_MAX username,
     us_email = c_snprintf_s PS_EMAIL_MAX email_normalized, us_email_normalized = c_snprintf_s PS_EMAIL_MAX email_normalized,
     us_password_hash = ph_hash h, us_password_salt = ph_salt h, us_kdf_iters = ph_iterations h, us_status = PS_USER_STATUS_ACTIVE,
     us_failed_logins = 0, us_locked_until = 0, us_created_at = 0, us_updated_at = 0\<rparr>"

definition bootstrap_store :: "sys \<Rightarrow> ps_user_row_t \<Rightarrow> int64 \<Rightarrow> ps_bootstrap_result_t io" where
  "bootstrap_store S row now = do {
     began \<leftarrow> sql_begin S;
     if \<not> began then ret PS_BOOTSTRAP_ERROR
     else do {
       (insert_result, uid) \<leftarrow> ps_user_store_insert S row [''USER'', ''ADMIN''] now;
       if insert_result \<noteq> PS_USER_INSERT_OK then do { sql_rollback; ret PS_BOOTSTRAP_ERROR }
       else do {
         ok \<leftarrow> ps_audit_store_write S (set_audit_target (Some uid) (audit_entry now ''BOOTSTRAP_ADMIN_CREATED'' ''SUCCESS''));
         committed \<leftarrow> end_tx S ok;
         ret (if committed then PS_BOOTSTRAP_OK else PS_BOOTSTRAP_ERROR) } } }"

definition ps_bootstrap_admin ::
    "sys \<Rightarrow> ps_config_t \<Rightarrow> int \<Rightarrow> bytes list option \<Rightarrow> int64 \<Rightarrow> (ps_bootstrap_result_t \<times> ps_config_t) io" where
  "ps_bootstrap_admin S cfg kdf_iterations denylist now = do {
     admin_count \<leftarrow> count_admins S;
     case admin_count of
       None \<Rightarrow> ret (PS_BOOTSTRAP_ERROR, cfg)
     | Some n \<Rightarrow>
         if 0 < n then ret (PS_BOOTSTRAP_OK, cfg)
         else if cstr (cfg_str cfg ''bootstrap.admin_username'') = [] \<or> cstr (cfg_str cfg ''bootstrap.admin_email'') = [] \<or>
                 cstr (cfg_str cfg ''bootstrap.admin_password'') = []
         then ret (PS_BOOTSTRAP_MISSING_CREDENTIALS, cfg)
         else do {
           let password = cstr (cfg_str cfg ''bootstrap.admin_password'');
           let cfg' = cleanse_password cfg;
           let (uname_result, username) = ps_username_validate (cfg_str cfg ''bootstrap.admin_username'') PS_USERNAME_MAX False;
           let (email_result, email_normalized) = ps_email_validate (cfg_str cfg ''bootstrap.admin_email'') PS_EMAIL_MAX;
           if uname_result \<noteq> PS_USERNAME_VALID then ret (PS_BOOTSTRAP_MISSING_CREDENTIALS, cfg')
           else if email_result \<noteq> PS_EMAIL_VALID then ret (PS_BOOTSTRAP_MISSING_CREDENTIALS, cfg')
           else if ps_password_policy_check password (cfg_int cfg ''auth.password_min_length'') (cfg_int cfg ''auth.password_max_length'')
                     denylist \<noteq> PS_PASSWORD_POLICY_OK
           then ret (PS_BOOTSTRAP_WEAK_PASSWORD, cfg')
           else do {
             hashed \<leftarrow> password_hash S password kdf_iterations;
             case hashed of
               None \<Rightarrow> ret (PS_BOOTSTRAP_ERROR, cfg')
             | Some h \<Rightarrow> do {
                 r \<leftarrow> bootstrap_store S (bootstrap_row username email_normalized h) now;
                 ret (r, cfg') } } } }"


subsection \<open>What it does\<close>

context store_invariant
begin

lemma bootstrap_keeps: "keeps (db_inv J) (ps_bootstrap_admin S cfg n denylist now)"
  unfolding ps_bootstrap_admin_def count_admins_def bootstrap_store_def Let_def by (rule rules keep_intros)+

end

lemma insert_audit_frame:
  "insert_audit e d = Some (a, d') \<Longrightarrow> db_users d' = db_users d \<and> role_names_of d' = role_names_of d"
  by (auto simp: insert_audit_def role_names_of_def fun_eq_iff)

lemma run_bootstrap_store:
  assumes ok: "users_ok (w_db w)" and run: "run_state (bootstrap_store S row now) w = (r, w')"
  shows "(r = PS_BOOTSTRAP_OK \<longrightarrow> (\<exists>uid. uid \<notin> user_ids (w_db w) \<and> db_users (w_db w') = db_users (w_db w) @ [new_user row uid now] \<and>
      role_names_of (w_db w') uid = [''USER'', ''ADMIN''] \<and> w_saved w' = None)) \<and>
    (r \<noteq> PS_BOOTSTRAP_OK \<and> w_saved w' = None \<longrightarrow> w_db w' = w_db w)"
proof -
  from run obtain began w1 where b: "run_state (sql_begin S) w = (began, w1)"
    and rest: "run_state (if \<not> began then ret PS_BOOTSTRAP_ERROR
     else do {
       (insert_result, uid) \<leftarrow> ps_user_store_insert S row [''USER'', ''ADMIN''] now;
       if insert_result \<noteq> PS_USER_INSERT_OK then do { sql_rollback; ret PS_BOOTSTRAP_ERROR }
       else do {
         ok \<leftarrow> ps_audit_store_write S (set_audit_target (Some uid) (audit_entry now ''BOOTSTRAP_ADMIN_CREATED'' ''SUCCESS''));
         committed \<leftarrow> end_tx S ok;
         ret (if committed then PS_BOOTSTRAP_OK else PS_BOOTSTRAP_ERROR) } }) w1 = (r, w')"
    unfolding bootstrap_store_def run_bind by blast
  note B = run_begin [OF b]
  show ?thesis
  proof (cases began)
    case False
    then show ?thesis using rest B by auto
  next
    case True
    then have w1: "w_db w1 = w_db w" "w_saved w1 = Some (w_db w)" using B by auto
    obtain ir uid w2 where ins: "run_state (ps_user_store_insert S row [''USER'', ''ADMIN''] now) w1 = ((ir, uid), w2)"
      by (metis prod.collapse)
    note I = insert_run [OF ins]
    show ?thesis
    proof (cases "ir = PS_USER_INSERT_OK")
      case False
      then have "r = PS_BOOTSTRAP_ERROR \<and> w_db w' = w_db w \<and> w_saved w' = None"
        using rest True ins I w1 by (auto simp: sql_rollback_def tick_def split: option.splits)
      then show ?thesis by simp
    next
      case ir: True
      obtain ok3 w3 c w4 where a: "run_state (ps_audit_store_write S (set_audit_target (Some uid)
          (audit_entry now ''BOOTSTRAP_ADMIN_CREATED'' ''SUCCESS''))) w2 = (ok3, w3)" and e: "run_state (end_tx S ok3) w3 = (c, w4)"
        by (metis prod.collapse)
      have r: "r = (if c then PS_BOOTSTRAP_OK else PS_BOOTSTRAP_ERROR)" "w' = w4" using rest True ins ir a e by auto
      from I ir obtain uid' d1 where u: "insert_user row now (w_db w1) = Some (uid', d1)"
        "insert_roles_db uid' [''USER'', ''ADMIN''] d1 = Some (w_db w2)" and s2: "w_saved w2 = w_saved w1" by auto
      note N = inserted_ok [OF _ u] insert_user_Some(1) [OF u(1)]
      have au: "db_users (w_db w3) = db_users (w_db w2) \<and> role_names_of (w_db w3) = role_names_of (w_db w2) \<and> w_saved w3 = w_saved w2"
        using run_audit [OF a] by (cases ok3) (auto dest: insert_audit_frame)
      have "w_saved w4 = w_saved w3" if "ok3" "\<not> c"
        using e that by (auto simp: end_tx_def sql_commit_def tick_def split: if_splits)
      then show ?thesis using run_end_tx [OF e] r N ok w1 au s2 by (cases c; cases ok3) (auto simp: cstr_def)
    qed
  qed
qed


lemma run_bootstrap:
  assumes run: "run_state (ps_bootstrap_admin S cfg iterations denylist now) w = ((r, cfg'), w')"
  shows "(cfg' = cfg \<and> w_db w' = w_db w \<and> (r = PS_BOOTSTRAP_OK \<longrightarrow> admin_rows (w_db w) \<noteq> [])) \<or>
    (cfg' = cleanse_password cfg \<and> w_db w' = w_db w \<and> r \<noteq> PS_BOOTSTRAP_OK) \<or>
    (\<exists>row w1. cfg' = cleanse_password cfg \<and> admin_rows (w_db w) = [] \<and> us_status row = PS_USER_STATUS_ACTIVE \<and> w_db w1 = w_db w \<and>
       run_state (bootstrap_store S row now) w1 = (r, w'))"
proof -
  have active: "us_status (bootstrap_row u e h) = PS_USER_STATUS_ACTIVE" for u e h by (simp add: bootstrap_row_def)
  obtain n w1 where c: "run_state (count_admins S) w = (n, w1)" by (metis prod.collapse)
  have w1: "w_db w1 = w_db w" and n: "n = None \<or> n = Some (length (admin_rows (w_db w)))"
    using c by (auto simp: count_admins_def sql_query_def tick_def split: if_splits)
  have kdf: "w_db w2 = w_db w1" if "run_state (password_hash S p k) w1 = (h, w2)" for p k h w2
    using that by (auto simp: password_hash_def ps_rand_bytes_def tick_def run_bind run_return simp del: run_state_bind)
  show ?thesis
  proof (cases "n = Some 0")
    case False
    then show ?thesis using run c n w1
      by (auto simp: ps_bootstrap_admin_def run_bind run_return simp del: run_state_bind split: option.splits if_splits)
  next
    case True
    then have none: "admin_rows (w_db w) = []" using n by auto
    show ?thesis using run w1 none active True c
      by (auto simp: ps_bootstrap_admin_def Let_def run_bind run_return simp del: run_state_bind
          split: option.splits if_splits prod.splits dest!: kdf)
  qed
qed


subsection \<open>Properties\<close>

text \<open>C17. Bootstrapping is idempotent and atomic: when some user already is an administrator it succeeds without
  touching the database, and otherwise it succeeds only by adding one user, active and with exactly the
  roles USER and ADMIN; when it fails the database is as before, unless the transaction could not be
  committed and stays open. The password is gone from the configuration afterwards, except on the paths
  that return before it is looked at, one of which is the ordinary restart with an administrator
  present: there the configuration keeps it.\<close>

theorem bootstrap_admin_spec:
  assumes "users_ok (w_db w)" and "run_state (ps_bootstrap_admin S cfg iterations denylist now) w = ((r, cfg'), w')"
  shows "(r = PS_BOOTSTRAP_OK \<longrightarrow> admin_rows (w_db w) \<noteq> [] \<and> w_db w' = w_db w \<and> cfg' = cfg \<or>
      admin_rows (w_db w) = [] \<and> cfg_str cfg' ''bootstrap.admin_password'' = [] \<and> w_saved w' = None \<and>
      (\<exists>uid row. uid \<notin> user_ids (w_db w) \<and> us_status row = PS_USER_STATUS_ACTIVE \<and>
         db_users (w_db w') = db_users (w_db w) @ [new_user row uid now] \<and> role_names_of (w_db w') uid = [''USER'', ''ADMIN''])) \<and>
    (r \<noteq> PS_BOOTSTRAP_OK \<and> w_saved w' = None \<longrightarrow> w_db w' = w_db w) \<and>
    (cfg_str cfg' ''bootstrap.admin_password'' \<noteq> [] \<longrightarrow> cfg' = cfg \<and> w_db w' = w_db w)"
proof -
  have wiped: "cfg_str (cleanse_password cfg) ''bootstrap.admin_password'' = []" by (simp add: cleanse_password_def cfg_str_def)
  from run_bootstrap [OF assms(2)] consider
      (early) "cfg' = cfg" "w_db w' = w_db w" "r = PS_BOOTSTRAP_OK \<longrightarrow> admin_rows (w_db w) \<noteq> []"
    | (refused) "cfg' = cleanse_password cfg" "w_db w' = w_db w" "r \<noteq> PS_BOOTSTRAP_OK"
    | (store) row w1 where "cfg' = cleanse_password cfg" "admin_rows (w_db w) = []" "us_status row = PS_USER_STATUS_ACTIVE" "w_db w1 = w_db w"
        "run_state (bootstrap_store S row now) w1 = (r, w')"
    by blast
  then show ?thesis
  proof cases
    case store
    have "users_ok (w_db w1)" using assms(1) store(4) by simp
    from run_bootstrap_store [OF this store(5)] store wiped show ?thesis by auto
  qed (use wiped in auto)
qed

theorem bootstrap_admin_spec_witness:
  "\<exists>r cfg' w'. run_state (ps_bootstrap_admin quiet_sys [''bootstrap.admin_password'' \<mapsto> V_str ''secret''] 1 None 1000)
       (login_world\<lparr>w_db := login_db\<lparr>db_user_roles := [(7, 2)]\<rparr>\<rparr>) = ((r, cfg'), w') \<and>
     cfg_str cfg' ''bootstrap.admin_password'' = ''secret'' \<and> w_db w' = login_db\<lparr>db_user_roles := [(7, 2)]\<rparr>"
proof -
  let ?d = "login_db\<lparr>db_user_roles := [(7, 2)]\<rparr>" and ?cfg = "[''bootstrap.admin_password'' \<mapsto> V_str ''secret'']"
  have ok: "users_ok (w_db (login_world\<lparr>w_db := ?d\<rparr>))"
    using login_world_ok(1) by (simp add: login_world_simps users_ok_def user_ids_def login_db_def example_db_def)
  have "admin_rows ?d = [(7, 2)]" by (simp add: admin_rows_def login_db_def example_db_def schema_001_init_def)
  then obtain w' where run: "run_state (ps_bootstrap_admin quiet_sys ?cfg 1 None 1000) (login_world\<lparr>w_db := ?d\<rparr>) = ((PS_BOOTSTRAP_OK, ?cfg), w')"
    by (simp add: ps_bootstrap_admin_def count_admins_def sql_query_def quiet_simps)
  have pw: "cfg_str ?cfg ''bootstrap.admin_password'' = ''secret''" by (simp add: cfg_str_def)
  from bootstrap_admin_spec [OF ok run] pw have "w_db w' = ?d" by simp
  with run pw show ?thesis by blast
qed

end
