(* ===== verification/Service.thy ===== *)
theory Service
  imports Lockout Maintenance Bootstrap
begin

text \<open>
  The service as a whole. The first part states what the dispatcher guarantees for every route; the
  second connects the connection loop of \<open>Conn\<close> with the dispatcher of \<open>Routes\<close> and adds the maintenance
  thread and the start-up, as one step relation on the state.
\<close>

subsection \<open>Routes and policies belong together\<close>

definition entry_of :: "bytes \<times> bytes \<times> nat \<Rightarrow> ps_route_entry_t" where
  "entry_of r = (case r of (m, p, i) \<Rightarrow> \<lparr>re_method = m, re_pattern = p, re_route_id = i\<rparr>)"

lemma routes_registered: "ps_routes_register = Inr (map entry_of ROUTES)"
  by code_simp

lemma routes_of_policies: "ROUTES = map (\<lambda>p. (po_method p, po_path_pattern p, po_route_id p)) PS_RBAC_POLICIES"
  by code_simp

lemma policy_of_route: "p \<in> set PS_RBAC_POLICIES \<Longrightarrow> ps_rbac_policy_for_route (po_route_id p) = Some p"
proof -
  have "list_all (\<lambda>p. ps_rbac_policy_for_route (po_route_id p) = Some p) PS_RBAC_POLICIES" by code_simp
  then show "p \<in> set PS_RBAC_POLICIES \<Longrightarrow> ps_rbac_policy_for_route (po_route_id p) = Some p" by (simp add: list_all_iff)
qed

lemma policy_ids: "ps_rbac_policy_for_route i = Some p \<Longrightarrow> p \<in> set PS_RBAC_POLICIES \<and> po_route_id p = i"
  by (auto simp: ps_rbac_policy_for_route_def dest: find_SomeD)

text \<open>C7. Every request the router accepts is covered by the policy written for it: registration of the routes
  succeeds, and whatever method and path are matched, the route found has a policy, and that policy
  names the method of the request and a pattern that matches its path with the same parameters.\<close>

theorem routed_requests_have_their_policy:
  "\<exists>router. ps_routes_register = Inr router \<and>
     (\<forall>meth path i params. ps_router_match router meth path = PS_ROUTE_MATCH i params \<longrightarrow>
        (\<exists>p. ps_rbac_policy_for_route i = Some p \<and> po_method p = meth \<and> match_path (po_path_pattern p) path [] = Some params))"
proof (rule exI, intro conjI allI impI)
  show "ps_routes_register = Inr (map entry_of ROUTES)" by (rule routes_registered)
  fix meth path i params
  assume "ps_router_match (map entry_of ROUTES) meth path = PS_ROUTE_MATCH i params"
  then obtain r where r: "List.find (\<lambda>r. match_path (re_pattern r) path [] \<noteq> None \<and> re_method r = meth) (map entry_of ROUTES) = Some r"
    "re_route_id r = i" "the (match_path (re_pattern r) path []) = params"
    by (auto simp: ps_router_match_def router_match_eq split: option.splits if_splits)
  then have m: "r \<in> set (map entry_of ROUTES)" "match_path (re_pattern r) path [] = Some params" "re_method r = meth"
    by (auto dest: find_SomeD)
  then obtain p where p: "p \<in> set PS_RBAC_POLICIES" "re_method r = po_method p" "re_pattern r = po_path_pattern p" "re_route_id r = po_route_id p"
    by (auto simp: routes_of_policies entry_of_def)
  with policy_of_route [OF p(1)] m r(2)
  show "\<exists>p. ps_rbac_policy_for_route i = Some p \<and> po_method p = meth \<and> match_path (po_path_pattern p) path [] = Some params"
    by metis
qed

theorem routed_requests_have_their_policy_witness:
  "\<exists>router p. ps_routes_register = Inr router \<and> ps_router_match router ''GET'' ''/v1/users/42'' = PS_ROUTE_MATCH 10 [(''userId'', ''42'')] \<and>
     ps_rbac_policy_for_route 10 = Some p \<and> po_method p = ''GET''"
proof -
  obtain router where r: "ps_routes_register = Inr router" and all: "\<forall>meth path i params.
      ps_router_match router meth path = PS_ROUTE_MATCH i params \<longrightarrow>
      (\<exists>p. ps_rbac_policy_for_route i = Some p \<and> po_method p = meth \<and> match_path (po_path_pattern p) path [] = Some params)"
    using routed_requests_have_their_policy by blast
  have "case ps_routes_register of Inr rt \<Rightarrow> ps_router_match rt ''GET'' ''/v1/users/42'' = PS_ROUTE_MATCH 10 [(''userId'', ''42'')] | Inl e \<Rightarrow> False"
    by code_simp
  then have m: "ps_router_match router ''GET'' ''/v1/users/42'' = PS_ROUTE_MATCH 10 [(''userId'', ''42'')]" unfolding r sum.case .
  with all r show ?thesis by blast
qed


subsection \<open>Default deny\<close>

abbreviation is_admin :: "ps_jwt_claims_t \<Rightarrow> bool" where
  "is_admin c \<equiv> and (cl_roles c) PS_JWT_ROLE_ADMIN \<noteq> 0"

definition public_routes :: "nat list" where
  "public_routes = [PS_ROUTE_ID_HEALTHZ, PS_ROUTE_ID_READYZ, PS_ROUTE_ID_REGISTER, PS_ROUTE_ID_VERIFY,
     PS_ROUTE_ID_RESEND_VERIFICATION, PS_ROUTE_ID_LOGIN, PS_ROUTE_ID_REFRESH]"

lemma policy_cases:
  assumes "ps_rbac_policy_for_route i = Some p"
  shows "po_kind p = PS_POLICY_PUBLIC \<and> i \<in> set public_routes \<or>
    po_kind p = PS_POLICY_AUTHENTICATED \<and> i \<in> {PS_ROUTE_ID_LOGOUT, PS_ROUTE_ID_PASSWORD_CHANGE} \<or>
    po_kind p = PS_POLICY_SELF_OR_ROLE \<and> po_required_role p = PS_JWT_ROLE_ADMIN \<and> i = PS_ROUTE_ID_GET_USER \<or>
    po_kind p = PS_POLICY_ROLE \<and> po_required_role p = PS_JWT_ROLE_ADMIN \<and> i \<in> {PS_ROUTE_ID_ADMIN_COUNT_USERS, PS_ROUTE_ID_ADMIN_LIST_USERS}"
proof -
  have "list_all (\<lambda>p. case po_kind p of
      PS_POLICY_PUBLIC \<Rightarrow> po_route_id p \<in> set public_routes
    | PS_POLICY_AUTHENTICATED \<Rightarrow> po_route_id p \<in> {PS_ROUTE_ID_LOGOUT, PS_ROUTE_ID_PASSWORD_CHANGE}
    | PS_POLICY_SELF_OR_ROLE \<Rightarrow> po_required_role p = PS_JWT_ROLE_ADMIN \<and> po_route_id p = PS_ROUTE_ID_GET_USER
    | PS_POLICY_ROLE \<Rightarrow> po_required_role p = PS_JWT_ROLE_ADMIN \<and>
        po_route_id p \<in> {PS_ROUTE_ID_ADMIN_COUNT_USERS, PS_ROUTE_ID_ADMIN_LIST_USERS}) PS_RBAC_POLICIES"
    by code_simp
  then show ?thesis using policy_ids [OF assms] by (cases "po_kind p") (force simp: list_all_iff)+
qed

text \<open>C3. Default deny: a request for anything but the seven public routes is either refused, without any effect
  beyond a reading of the clock, or carries a bearer token that verifies at the time of the request and
  whose claims permit the route: any valid token for logout and password change, the role ADMIN for the
  administrator's routes, and for the record of a user that role or the user's own id in the path.\<close>

theorem dispatch_default_deny:
  "case run_state (ps_routes_dispatch S ctx i req params peer) w of (r, w') \<Rightarrow>
     hr_status r \<in> {400, 401, 403} \<and> (w' = w \<or> w' = tick w) \<or>
     i \<in> set public_routes \<or>
     (\<exists>c. ps_auth_authenticate_bearer S req ctx (sys_time S (w_tick w)) = PS_BEARER_OK c \<and>
        (i \<in> {PS_ROUTE_ID_LOGOUT, PS_ROUTE_ID_PASSWORD_CHANGE} \<or>
         i \<in> {PS_ROUTE_ID_ADMIN_COUNT_USERS, PS_ROUTE_ID_ADMIN_LIST_USERS} \<and> is_admin c \<or>
         i = PS_ROUTE_ID_GET_USER \<and>
           (is_admin c \<or> parse_path_user_id (ps_route_params_get params ''userId'') = Some (cl_user_id c))))"
proof (cases "ps_rbac_policy_for_route i")
  case None
  then show ?thesis by (simp add: ps_routes_dispatch_def)
next
  case (Some p)
  have D: "ps_routes_dispatch S ctx i req params peer = do {
      auth \<leftarrow> authenticate S p req ctx;
      case auth of
        None \<Rightarrow> ret (error_result 401 ''UNAUTHORIZED'' ''missing or invalid access token'')
      | Some claims \<Rightarrow>
          (case (if po_kind p = PS_POLICY_SELF_OR_ROLE then parse_path_user_id (ps_route_params_get params ''userId'') else Some 0) of
             None \<Rightarrow> ret (error_result 400 ''BAD_REQUEST'' ''userId is invalid'')
           | Some target_user_id \<Rightarrow>
               if (po_kind p = PS_POLICY_ROLE \<or> po_kind p = PS_POLICY_SELF_OR_ROLE) \<and> \<not> ps_rbac_check p claims target_user_id
               then ret (error_result 403 ''FORBIDDEN'' ''insufficient permissions'')
               else call_handler S i req peer ctx claims target_user_id) }"
    by (simp add: ps_routes_dispatch_def Some)
  from policy_cases [OF Some] consider (pub) "i \<in> set public_routes"
    | (auth) "po_kind p = PS_POLICY_AUTHENTICATED" "i \<in> {PS_ROUTE_ID_LOGOUT, PS_ROUTE_ID_PASSWORD_CHANGE}"
    | (self) "po_kind p = PS_POLICY_SELF_OR_ROLE" "po_required_role p = PS_JWT_ROLE_ADMIN" "i = PS_ROUTE_ID_GET_USER"
    | (role) "po_kind p = PS_POLICY_ROLE" "po_required_role p = PS_JWT_ROLE_ADMIN" "i \<in> {PS_ROUTE_ID_ADMIN_COUNT_USERS, PS_ROUTE_ID_ADMIN_LIST_USERS}"
    by blast
  then show ?thesis
  proof cases
    case pub
    then show ?thesis by (simp split: prod.split)
  next
    case auth
    then show ?thesis unfolding D authenticate_def by (simp add: time_now_def split: ps_bearer_result_t.split prod.split)
  next
    case self
    then show ?thesis unfolding D authenticate_def
      by (cases "ps_auth_authenticate_bearer S req ctx (sys_time S (w_tick w))";
          cases "parse_path_user_id (ps_route_params_get params ''userId'')") (auto simp: time_now_def ps_rbac_check_def split: prod.split)
  next
    case role
    then show ?thesis unfolding D authenticate_def
      by (cases "ps_auth_authenticate_bearer S req ctx (sys_time S (w_tick w))") (auto simp: time_now_def ps_rbac_check_def split: prod.split)
  qed
qed



subsection \<open>Resources and transactions\<close>

theorem dispatch_default_deny_witness:
  "\<exists>r w'. run_state (ps_routes_dispatch quiet_sys example_ctx PS_ROUTE_ID_ADMIN_LIST_USERS (login_request []) [] None) login_world = (r, w') \<and>
     hr_status r \<in> {400, 401, 403} \<and> w_db w' = login_db"
proof -
  obtain r w' where run: "run_state (ps_routes_dispatch quiet_sys example_ctx PS_ROUTE_ID_ADMIN_LIST_USERS (login_request []) [] None) login_world = (r, w')"
    by (metis prod.collapse)
  have "ps_auth_authenticate_bearer quiet_sys (login_request []) example_ctx t = PS_BEARER_MISSING" for t
    by (simp add: ps_auth_authenticate_bearer_def ps_http_request_header_def login_request_def)
  moreover have "PS_ROUTE_ID_ADMIN_LIST_USERS \<notin> set public_routes" by code_simp
  ultimately have "hr_status r \<in> {400, 401, 403} \<and> (w' = login_world \<or> w' = tick login_world)"
    using dispatch_default_deny [where S = quiet_sys and ctx = example_ctx and i = PS_ROUTE_ID_ADMIN_LIST_USERS and req = "login_request []"
      and params = "[]" and peer = None and w = login_world] run by simp
  with run show ?thesis by (auto simp: login_world_simps)
qed

text \<open>Every request gives back what it takes: whatever the request, and whatever fails while it is handled,
  afterwards the pool has as many free connections and the semaphore as many free slots as before.\<close>

theorem dispatch_returns_resources:
  "w_conns (snd (run_state (ps_routes_dispatch S ctx i req params peer) w)) = w_conns w \<and>
   w_kdf (snd (run_state (ps_routes_dispatch S ctx i req params peer) w)) = w_kdf w"
  using shift_dispatch [of S ctx i req params peer] by (simp add: shift_def)

lemma wedged_login: "tx True (\<lambda>r open_tx. open_tx \<and> hr_status r \<noteq> 200) (ps_auth_handle_login S req peer ctx)"
  unfolding ps_auth_handle_login_def login_decided_def reply_def check_password_def
  by ((rule tx_commands tx_intros neutral_intros | simp only: Let_def split_beta | simp)+)

lemma tx_run: "tx b Q m \<Longrightarrow> run_state m w = (r, w') \<Longrightarrow> (w_saved w \<noteq> None) = b \<Longrightarrow> Q r (w_saved w' \<noteq> None)"
  unfolding tx_def in_tx_def by (metis fst_conv snd_conv)

definition failing_commit :: sys where
  "failing_commit = quiet_sys\<lparr>sys_fault := (\<lambda>n. n = 4)\<rparr>"

definition refresh_request :: ps_http_request_t where
  "refresh_request = \<lparr>req_method = ''POST'', req_path = ''/v1/auth/refresh'', req_query = None, req_minor_version = 1, req_headers = [],
     req_body = Some (''{'' @ [DQ] @ ''refresh_token'' @ [DQ] @ '':'' @ [DQ] @ replicate 43 CHR ''A'' @ [DQ] @ ''}'')\<rparr>"

lemma refresh_body: "body_object refresh_request = Some (JObject [(''refresh_token'', JString (replicate 43 CHR ''A''))])"
  by code_simp

lemma refresh_hash: "presented_hash failing_commit (replicate 43 CHR ''A'') PS_REFRESH_TOKEN_HASH_LEN = Some (''h'' @ replicate 32 NUL)"
proof -
  have "b64_decode (cstr (replicate 43 CHR ''A'')) = Some (replicate 32 NUL)" by code_simp
  then show ?thesis by (simp add: presented_hash_def failing_commit_def quiet_sys_def PS_REFRESH_TOKEN_HASH_LEN_def)
qed

lemma failing_refresh:
  "\<exists>r w'. run_state (ps_routes_dispatch failing_commit example_ctx PS_ROUTE_ID_REFRESH refresh_request [] None) login_world = (r, w') \<and> w_saved w' \<noteq> None"
proof -
  have p: "ps_rbac_policy_for_route PS_ROUTE_ID_REFRESH = Some (policy PS_ROUTE_ID_REFRESH ''POST'' ''/v1/auth/refresh'' PS_POLICY_PUBLIC 0)"
    by code_simp
  have call: "call_handler S PS_ROUTE_ID_REFRESH req peer ctx c t = ps_auth_handle_refresh S req peer ctx" for S req peer ctx c t
    by (simp add: call_handler_def route_ids)
  have f: "sys_fault failing_commit n \<longleftrightarrow> n = 4" for n by (simp add: failing_commit_def)
  have field: "read_string_field (JObject [(''refresh_token'', JString (replicate 43 CHR ''A''))]) ''refresh_token'' 128 = Some (replicate 43 CHR ''A'')"
    by (simp add: read_string_field_def string_field_def)
  have "run_state (ps_routes_dispatch failing_commit example_ctx PS_ROUTE_ID_REFRESH refresh_request [] None) login_world =
      run_state (ps_auth_handle_refresh failing_commit refresh_request None example_ctx) login_world"
    by (simp add: ps_routes_dispatch_def p authenticate_def policy_def call)
  moreover have "w_saved (snd (run_state (ps_auth_handle_refresh failing_commit refresh_request None example_ctx) login_world)) \<noteq> None"
    by (simp add: ps_auth_handle_refresh_def refresh_body field refresh_hash time_now_def ps_db_pool_acquire_def sql_begin_def f
      login_world_def login_db_def example_db_def schema_001_init_def tick_def ps_session_refresh_def refresh_lookup_def session_ops sql_query_def
      ps_audit_store_write_def sql_exec_def insert_audit_def end_tx_def sql_commit_def reply_def ps_db_pool_release_def)
  ultimately show ?thesis by (metis prod.collapse)
qed

text \<open>C9. A commit that fails wedges the connection: a request that starts with no transaction open and leaves one
  open is always answered with 500, and from then on no login that is served by that connection
  succeeds, whatever its environment does, and the transaction stays open.\<close>

theorem failed_commit_wedges_connection:
  assumes "w_saved w = None" and "run_state (ps_routes_dispatch S ctx i req params peer) w = (r, w')" and "w_saved w' \<noteq> None"
  shows "hr_status r = 500 \<and> (\<forall>S' req' peer' ctx' r' w''. run_state (ps_auth_handle_login S' req' peer' ctx') w' = (r', w'') \<longrightarrow>
    hr_status r' \<noteq> 200 \<and> w_saved w'' \<noteq> None)"
proof
  show "hr_status r = 500" using tx_run [OF tidy_dispatch assms(2)] assms(1,3) by (simp add: tidy_def)
  show "\<forall>S' req' peer' ctx' r' w''. run_state (ps_auth_handle_login S' req' peer' ctx') w' = (r', w'') \<longrightarrow>
      hr_status r' \<noteq> 200 \<and> w_saved w'' \<noteq> None"
    using tx_run [OF wedged_login] assms(3) by blast
qed

theorem failed_commit_wedges_connection_witness:
  "\<exists>r w'. run_state (ps_routes_dispatch failing_commit example_ctx PS_ROUTE_ID_REFRESH refresh_request [] None) login_world = (r, w') \<and>
     hr_status r = 500 \<and> hr_status (fst (run_state (ps_auth_handle_login quiet_sys (login_request ''pass word'') None example_ctx) w')) \<noteq> 200"
proof -
  obtain r w' where run: "run_state (ps_routes_dispatch failing_commit example_ctx PS_ROUTE_ID_REFRESH refresh_request [] None) login_world = (r, w')"
    and s: "w_saved w' \<noteq> None" using failing_refresh by blast
  from failed_commit_wedges_connection [OF login_world_simps(2) run s] run show ?thesis by (metis prod.collapse)
qed



subsection \<open>Connections\<close>

text \<open>The dispatcher as the connection loop calls it (\<^verbatim>\<open>conn_job_fn\<close> of \<^verbatim>\<open>src/src/server.c\<close>, set up by \<^verbatim>\<open>main.c\<close>).\<close>

definition app_dispatch :: "sys \<Rightarrow> ps_app_ctx_t \<Rightarrow> world dispatch_fn" where
  "app_dispatch S ctx w route_id req params peer = run_state (ps_routes_dispatch S ctx route_id req params (Some peer)) w"

lemma respond_keeps:
  assumes "\<forall>app i req params. P app \<longrightarrow> P (snd (dispatch app i req params peer))" and "P app"
    and "respond router dispatch cors peer alive req app = (x, app')"
  shows "P app'"
proof -
  have "P app2" if "dispatch app i req params peer = (y, app2)" for i params y app2
    using assms(1) [rule_format, OF assms(2), of i req params] that by simp
  with assms(2,3) show ?thesis
    by (auto simp: respond_def split: ps_route_match_result_t.splits prod.splits if_splits)
qed

lemma conn_loop_keeps:
  assumes d: "\<forall>app i req params. P app \<longrightarrow> P (snd (dispatch app i req params peer))" and "P app"
  shows "P (cr_app (conn_loop limits router dispatch cors peer wr es buf k out app))"
  using assms(2)
proof (induction "keepalive_max_requests limits - k" arbitrary: es buf k out app rule: less_induct)
  case less
  note keep = respond_keeps [where P = P and dispatch = dispatch and peer = peer, OF d less.prems]
  show ?case
  proof (cases "keepalive_max_requests limits \<le> k")
    case True
    then show ?thesis using less.prems by (subst conn_loop.simps) simp
  next
    case False
    then have "keepalive_max_requests limits - Suc k < keepalive_max_requests limits - k" by simp
    note IH = less.hyps [OF this]
    show ?thesis using False less.prems
      by (subst conn_loop.simps) (auto simp: Let_def split: sum.split ps_http_parse_result_t.split prod.split option.split dest: keep intro: IH)
  qed
qed

lemma conn_handle_keeps:
  assumes "\<forall>app i req params. P app \<longrightarrow> P (snd (dispatch app i req params peer))" and "P app"
  shows "P (cr_app (ps_conn_handle limits timeouts_ok tls_ok router dispatch cors peer wr es app))"
  using assms conn_loop_keeps [where P = P and dispatch = dispatch and peer = peer, OF assms] by (simp add: ps_conn_handle_def)

text \<open>
  The steps of the service: a connection is served from the handshake to its close, the maintenance
  thread sweeps, the process restarts and bootstraps. The environment of a step (what fails, the clock,
  random bytes, what the client sends) is arbitrary and may differ from step to step, the
  configuration may change at a restart. Connections are served one after the other; what happens when the
  statements of two of them interleave is the subject of \<open>Session\<close> and \<open>Lockout\<close>.
\<close>

inductive service_step :: "world \<Rightarrow> world \<Rightarrow> bool" where
  connection: "service_step w (cr_app (ps_conn_handle limits timeouts_ok tls_ok router (app_dispatch S ctx) cors peer wr es w))"
| sweep: "1 \<le> ma_batch_size m \<Longrightarrow> run_sweep S stop m w = Some w' \<Longrightarrow> service_step w w'"
| restart: "run_state (ps_bootstrap_admin S cfg iterations denylist now) w = (r, w') \<Longrightarrow> service_step w w'"

inductive reachable :: "world \<Rightarrow> world \<Rightarrow> bool" for w0 :: world where
  start: "reachable w0 w0"
| step: "reachable w0 w \<Longrightarrow> service_step w w' \<Longrightarrow> reachable w0 w'"

inductive_cases service_stepE: "service_step w w'"

definition service_ok :: "int \<Rightarrow> nat \<Rightarrow> world \<Rightarrow> bool" where
  "service_ok conns kdf w \<longleftrightarrow> db_inv tables_ok w \<and> w_conns w = conns \<and> w_kdf w = kdf"

lemma db_inv_tables: "db_inv tables_ok w \<longleftrightarrow> db_inv users_ok w \<and> db_inv sessions_ok w \<and> db_inv keys_ok w"
  by (auto simp: db_inv_def tables_ok_def)

lemma keeps_tables: "keeps (db_inv users_ok) m \<Longrightarrow> keeps (db_inv sessions_ok) m \<Longrightarrow> keeps (db_inv keys_ok) m \<Longrightarrow> keeps (db_inv tables_ok) m"
  by (simp add: keeps_def db_inv_tables)

lemma dispatch_ok: "service_ok c k w \<Longrightarrow> service_ok c k (snd (app_dispatch S ctx w i req params peer))"
  using keeps_tables [OF users.dispatch_keeps sessions.dispatch_keeps keys.dispatch_keeps, of S ctx i req params "Some peer"]
    shift_dispatch [of S ctx i req params "Some peer"]
  by (simp add: service_ok_def app_dispatch_def keeps_def shift_def)

lemma shift_bootstrap: "shift 0 0 (ps_bootstrap_admin S cfg n denylist now)"
  unfolding ps_bootstrap_admin_def count_admins_def bootstrap_store_def password_hash_def
  by (rule shift_intros | simp only: Let_def split_beta | simp)+

lemma sweep_loop_frame:
  "sweep_loop S stop b f n w = Some x \<Longrightarrow> w_conns (snd x) = w_conns w \<and> w_kdf (snd x) = w_kdf w"
proof (erule sweep_loop.raw_induct [where P = "\<lambda>S stop b f n w x. w_conns (snd x) = w_conns w \<and> w_kdf (snd x) = w_kdf w", rotated], goal_cases)
  case (1 loop S stop b f n w x)
  let ?w = "tick (w\<lparr>w_db := snd (f b (w_db w))\<rparr>)"
  show ?case
  proof (cases "sys_fault S (w_tick w) \<or> w_saved w \<noteq> None")
    case True
    then show ?thesis using 1(2) by (auto simp: sweep_exec_def tick_def)
  next
    case False
    then have "run_state (sweep_exec S (f b)) w = (Some (fst (f b (w_db w))), ?w)" by (simp add: sweep_exec_def split_beta)
    with 1 show ?thesis by (auto simp: tick_def split: if_splits)
  qed
qed

lemma run_sweep_frame: "run_sweep S stop m w = Some w' \<Longrightarrow> w_conns w' = w_conns w \<and> w_kdf w' = w_kdf w"
  by (auto simp: sweep_defs bind_eq_Some_conv tick_def dest!: sweep_loop_frame)

lemma run_sweep_ok:
  assumes "db_inv tables_ok w" and "1 \<le> ma_batch_size m" and "run_sweep S stop m w = Some w'"
  shows "db_inv tables_ok w'"
  using run_sweep_ends [of w m S stop] assms by (auto simp: db_inv_def)

lemma step_ok: "service_step w w' \<Longrightarrow> service_ok c k w \<Longrightarrow> service_ok c k w'"
proof (erule service_stepE, goal_cases)
  case (1 limits timeouts_ok tls_ok router S ctx cors peer wr es)
  then show ?case by (auto intro!: conn_handle_keeps dispatch_ok)
next
  case (2 m S stop)
  then show ?case using run_sweep_ok run_sweep_frame by (auto simp: service_ok_def)
next
  case (3 S cfg iterations denylist now r)
  note K = keeps_tables [OF users.bootstrap_keeps sessions.bootstrap_keeps keys.bootstrap_keeps, of S cfg iterations denylist now]
  show ?case using 3 keepsD [OF K 3(2)] shift_bootstrap [of S cfg iterations denylist now]
    by (auto simp: service_ok_def shift_def dest!: spec [of _ w])
qed

text \<open>C2. The invariant of the service: from a database just migrated, whatever connections are served, sweeps made
  and restarts done, and whatever fails on the way, the tables are well formed (unique ids, usernames
  regardless of case, addresses and keys; known status texts and roles; every refresh token in a family,
  and at most one of them unused per family), and every connection of the pool and every slot of the KDF
  semaphore has been given back.\<close>

theorem service_invariant:
  assumes "reachable w0 w" and "w_db w0 = schema_001_init" and "w_saved w0 = None"
  shows "users_ok (w_db w) \<and> sessions_ok (w_db w) \<and> keys_ok (w_db w) \<and> w_conns w = w_conns w0 \<and> w_kdf w = w_kdf w0"
proof -
  have "service_ok (w_conns w0) (w_kdf w0) w0" using assms(2,3) tables_ok_init by (simp add: service_ok_def db_inv_def)
  with assms(1) have "service_ok (w_conns w0) (w_kdf w0) w" by (induction) (auto intro: step_ok)
  then show ?thesis by (simp add: service_ok_def db_inv_def tables_ok_def)
qed

theorem service_invariant_witness:
  "let w1 = snd (run_state (ps_bootstrap_admin quiet_sys [''bootstrap.admin_username'' \<mapsto> V_str ''root''] 1 None 1000) fresh_world);
       w2 = cr_app (ps_conn_handle \<lparr>keepalive_max_requests = 2, http_limits = example_limits\<rparr> True True (map entry_of ROUTES)
              (app_dispatch quiet_sys example_ctx) None ''192.0.2.1:9'' (\<lambda>n. True) [Ev_data ''GET /healthz HTTP/1.1'', Ev_timeout] w1)
   in users_ok (w_db w2) \<and> sessions_ok (w_db w2) \<and> w_conns w2 = 4 \<and> w_kdf w2 = 2"
proof -
  have fw: "w_db fresh_world = schema_001_init" "w_saved fresh_world = None" "w_conns fresh_world = 4" "w_kdf fresh_world = 2"
    by (simp_all add: fresh_world_def)
  define w1 where "w1 = snd (run_state (ps_bootstrap_admin quiet_sys [''bootstrap.admin_username'' \<mapsto> V_str ''root''] 1 None 1000) fresh_world)"
  have "service_step fresh_world w1" unfolding w1_def by (rule restart) (rule prod.collapse [symmetric])
  then have r: "reachable fresh_world w1" by (rule step [OF reachable.start])
  note inv = service_invariant [OF step [OF r connection] fw(1,2), unfolded fw(3,4)]
  show ?thesis unfolding w1_def [symmetric] Let_def using inv by blast
qed

lemma connection_keeps:
  assumes "w_saved w = None" and d: "\<And>i req params p. keeps (db_inv J) (ps_routes_dispatch S ctx i req params p)" and "J (w_db w)"
  shows "J (w_db (cr_app (ps_conn_handle limits timeouts_ok tls_ok router (app_dispatch S ctx) cors peer wr es w)))"
proof -
  have "db_inv J (cr_app (ps_conn_handle limits timeouts_ok tls_ok router (app_dispatch S ctx) cors peer wr es w))"
  proof (rule conn_handle_keeps [where P = "db_inv J"])
    show "\<forall>app i req params. db_inv J app \<longrightarrow> db_inv J (snd (app_dispatch S ctx app i req params peer))"
      using d by (simp add: keeps_def app_dispatch_def)
    show "db_inv J w" using assms(1,3) by (simp add: db_inv_def)
  qed
  then show ?thesis by (simp add: db_inv_def)
qed

text \<open>C8. No client can rewrite history: serving a connection, whatever it sends and whatever fails, only appends
  to the audit log, and every user that was there is still there with the same id, username, addresses
  and creation time, in the same order.\<close>

theorem connection_preserves_history:
  assumes "w_saved w = None"
  shows "\<exists>entries users. let d' = w_db (cr_app (ps_conn_handle limits timeouts_ok tls_ok router (app_dispatch S ctx) cors peer wr es w)) in
    db_audit d' = db_audit (w_db w) @ entries \<and> map identity (db_users d') = map identity (db_users (w_db w)) @ users"
  using connection_keeps [OF assms audit_log.dispatch_keeps, of "db_audit (w_db w)"]
    connection_keeps [OF assms identities.dispatch_keeps, of "db_users (w_db w)"]
  unfolding Let_def log_extends_def users_persist_def by (metis append_Nil2)

theorem connection_preserves_history_witness:
  "\<exists>entries users. let d' = w_db (cr_app (ps_conn_handle \<lparr>keepalive_max_requests = 2, http_limits = example_limits\<rparr> True True
       (map entry_of ROUTES) (app_dispatch quiet_sys example_ctx) None ''192.0.2.1:9'' (\<lambda>n. True) [Ev_data ''GET /healthz HTTP/1.1'', Ev_timeout] login_world)) in
     db_audit d' = db_audit login_db @ entries \<and> map identity (db_users d') = map identity (db_users login_db) @ users"
  using connection_preserves_history [OF login_world_simps(2)] unfolding login_world_simps(1) by blast

end
