(* ===== verification/Accounts.thy ===== *)
theory Accounts
  imports Service "HOL-Library.Multiset"
begin

text \<open>
  What the handlers for signed-in users do to an account: changing the password, logging out, reading
  a record and listing the users.
\<close>

subsection \<open>Changing the password\<close>

definition new_password :: "ps_password_hash_t \<Rightarrow> int64 \<Rightarrow> user_rec \<Rightarrow> user_rec" where
  "new_password h now u = u\<lparr>ur_password_hash := ph_hash h, ur_password_salt := ph_salt h, ur_kdf_iters := ph_iterations h, ur_updated_at := now\<rparr>"

lemma run_revoke_all:
  assumes "run_state (ps_session_store_revoke_all_for_user S uid ex c now) w = (r, w')"
  shows "w_saved w' = w_saved w \<and> (r \<noteq> None \<longrightarrow> update_families
     (\<lambda>f. sf_user_id f = uid \<and> sf_revoked_at f = None \<and> (case ex of None \<Rightarrow> True | Some e \<Rightarrow> sf_family_id f \<noteq> e))
     (revoke_family c now) (w_db w) = Some (the r, w_db w'))"
  using assms by (auto simp: ps_session_store_revoke_all_for_user_def sql_exec_def tick_def update_families_def split: if_splits)

lemma insert_audit_tables:
  "insert_audit e d = Some (a, d') \<Longrightarrow> db_users d' = db_users d \<and> db_families d' = db_families d \<and> db_rts d' = db_rts d \<and> db_evts d' = db_evts d"
  by (auto simp: insert_audit_def)

lemma run_password_store:
  assumes run: "run_state (password_store S peer claims h fid now) w = (r, w')" and st: "hr_status r = 204"
  shows "db_users (w_db w') = map (\<lambda>u. if ur_user_id u = cl_user_id claims then new_password h now u else u) (db_users (w_db w)) \<and>
    db_families (w_db w') = map (\<lambda>f. if sf_user_id f = cl_user_id claims \<and> sf_revoked_at f = None \<and> sf_family_id f \<noteq> fid
      then revoke_family ''PASSWORD_CHANGE'' now f else f) (db_families (w_db w)) \<and>
    db_rts (w_db w') = db_rts (w_db w) \<and> w_saved w' = None"
proof -
  let ?uid = "cl_user_id claims"
  let ?entry = "\<lambda>revoked. set_audit_target (Some ?uid) (audit_entry now ''PASSWORD_CHANGE'' (if revoked \<noteq> None then ''SUCCESS'' else ''FAILURE''))"
  let ?e = "\<lambda>revoked n. set_audit_source_ip peer (set_audit_detail (sessions_revoked_detail n) (?entry revoked))"
  from run [unfolded password_store_def run_bind] obtain began w1 where b: "run_state (sql_begin S) w = (began, w1)"
    and r1: "run_state (if \<not> began then reply internal_error_result
     else do {
       ok1 \<leftarrow> ps_user_store_set_password S ?uid (ph_hash h) (ph_salt h) (ph_iterations h) now;
       revoked \<leftarrow> (if ok1 then ps_session_store_revoke_all_for_user S ?uid (Some fid) ''PASSWORD_CHANGE'' now else ret None);
       let entry = ?entry revoked;
       ok3 \<leftarrow> (case revoked of
         None \<Rightarrow> ret False
       | Some n \<Rightarrow> ps_audit_store_write S (set_audit_source_ip peer (set_audit_detail (sessions_revoked_detail n) entry)));
       committed \<leftarrow> end_tx S ok3;
       if \<not> committed then reply internal_error_result
       else reply (ok_result 204 None) }) w1 = (r, w')"
    by (elim exE conjE)
  from r1 st have began: "began" by (auto simp: run_reply split: if_splits)
  from r1 [simplified began not_True_eq_False if_False, unfolded Let_def run_bind] obtain ok1 w2 revoked w3 ok3 w4 committed w5 where
    1: "run_state (ps_user_store_set_password S ?uid (ph_hash h) (ph_salt h) (ph_iterations h) now) w1 = (ok1, w2)"
    and 2: "run_state (if ok1 then ps_session_store_revoke_all_for_user S ?uid (Some fid) ''PASSWORD_CHANGE'' now else ret None) w2 = (revoked, w3)"
    and 3: "run_state (case revoked of None \<Rightarrow> ret False | Some n \<Rightarrow> ps_audit_store_write S (?e revoked n)) w3 = (ok3, w4)"
    and 4: "run_state (end_tx S ok3) w4 = (committed, w5)"
    and 5: "run_state (if \<not> committed then reply internal_error_result else reply (ok_result 204 None)) w5 = (r, w')"
    by (elim exE conjE)
  from 5 st have c: "committed" and w': "w_db w' = w_db w5" "w_saved w' = w_saved w5" by (auto simp: run_reply split: if_splits)
  from run_end_tx [OF 4] c have ok3: "ok3" and d5: "w_db w5 = w_db w4" "w_saved w5 = None" by blast+
  from 3 ok3 obtain n where n: "revoked = Some n" and au: "run_state (ps_audit_store_write S (?e revoked n)) w3 = (True, w4)"
    by (auto simp: run_return split: option.splits)
  from 2 n have ok1: "ok1" and rv: "run_state (ps_session_store_revoke_all_for_user S ?uid (Some fid) ''PASSWORD_CHANGE'' now) w2 = (Some n, w3)"
    by (auto simp: run_return split: if_splits)
  have d2: "w_db w2 = update_user ?uid (new_password h now) (w_db w)"
    using run_exec_ok [OF 1 [unfolded ps_user_store_set_password_def]] ok1 run_begin [OF b] by (simp add: update_user_def new_password_def)
  from run_audit [OF au] insert_audit_tables have d4: "db_users (w_db w4) = db_users (w_db w3)" "db_families (w_db w4) = db_families (w_db w3)"
    "db_rts (w_db w4) = db_rts (w_db w3)" by blast+
  from run_revoke_all [OF rv] have "w_db w3 = (w_db w2)\<lparr>db_families := map (\<lambda>f. if sf_user_id f = ?uid \<and> sf_revoked_at f = None \<and> sf_family_id f \<noteq> fid
    then revoke_family ''PASSWORD_CHANGE'' now f else f) (db_families (w_db w2))\<rparr>"
    by (simp add: update_families_def)
  with d2 d4 d5 w' show ?thesis by (simp add: update_user_def)
qed

lemma run_get_by_id:
  assumes "run_state (ps_user_store_get_by_id S uid) w = (found, w')"
  shows "w_db w' = w_db w \<and> w_saved w' = w_saved w \<and> (found = None \<or>
    (\<exists>u. List.find (\<lambda>u. ur_user_id u = uid) (db_users (w_db w)) = Some u \<and> found = Some (populate_row u)))"
  using assms by (auto simp: ps_user_store_get_by_id_def get_user_def sql_query_def tick_def split: if_splits)

lemma run_password_hash:
  "run_state (password_hash S pw it) w = (h, w') \<Longrightarrow> w_db w' = w_db w \<and> w_saved w' = w_saved w \<and>
     (\<exists>n. h = ps_password_hash (sys_kdf S) (sys_rand S n PS_KDF_SALT_LEN) pw it)"
  by (auto simp: password_hash_def ps_rand_bytes_def tick_def)

lemma run_password_replace:
  assumes run: "run_state (password_replace S peer claims ctx found cur new now) w = (r, w')" and st: "hr_status r = 204"
  obtains user n h fid w1 where "found = Some user" "ps_password_verify (sys_kdf S) cur (stored_hash user)"
    "ps_password_hash (sys_kdf S) (sys_rand S n PS_KDF_SALT_LEN) new (cfg_of ctx ''auth.kdf_iterations'') = Some h"
    "hex_decode (cl_family_id claims) PS_JWT_FAMILY_ID_HEX_LEN = Some fid" "w_db w1 = w_db w" "w_saved w1 = w_saved w"
    "run_state (password_store S peer claims h fid now) w1 = (r, w')"
proof -
  from run [unfolded password_replace_def run_bind] st obtain w4 cok w5 hashed w6 w7 where
    s4: "run_state kdf_try_acquire w = (True, w4)" and s5: "run_state (check_password S ctx found cur) w4 = (cok, w5)"
    and s6: "run_state (if cok then password_hash S new (cfg_of ctx ''auth.kdf_iterations'') else ret None) w5 = (hashed, w6)"
    and s7: "run_state kdf_release w6 = ((), w7)" and cok: "cok"
    and r7: "run_state (case hashed of
            None \<Rightarrow> reply internal_error_result
          | Some new_hash \<Rightarrow>
              (case hex_decode (cl_family_id claims) PS_JWT_FAMILY_ID_HEX_LEN of
                 None \<Rightarrow> reply internal_error_result
               | Some surviving_family_id \<Rightarrow> password_store S peer claims new_hash surviving_family_id now)) w7 = (r, w')"
    by (auto simp: run_bind run_reply simp del: run_state_bind split: if_splits)
  from r7 st obtain h fid where h: "hashed = Some h" and x: "hex_decode (cl_family_id claims) PS_JWT_FAMILY_ID_HEX_LEN = Some fid"
    and ps: "run_state (password_store S peer claims h fid now) w7 = (r, w')"
    by (auto simp: run_reply split: option.splits)
  note F = frames [unfolded frame_def, rule_format]
  note cp = run_check_password [OF s5] and ph = run_password_hash [OF s6 [unfolded h, simplified cok if_True]]
  have d7: "w_db w7 = w_db w" "w_saved w7 = w_saved w" using cp ph F(2) [OF s4] F(3) [OF s7] by simp_all
  from cp cok obtain user where u: "found = Some user" by (cases found) auto
  with cp cok have v: "ps_password_verify (sys_kdf S) cur (stored_hash user)" by simp
  from ph obtain n where "ps_password_hash (sys_kdf S) (sys_rand S n PS_KDF_SALT_LEN) new (cfg_of ctx ''auth.kdf_iterations'') = Some h" by metis
  from that [OF u v this x d7 ps] show thesis .
qed

lemma policy_refusal_status: "policy_refusal ctx p = Some x \<Longrightarrow> hr_status x \<noteq> 204"
  by (auto simp: policy_refusal_def Let_def split: if_splits)

lemma run_password_change:
  assumes run: "run_state (ps_auth_handle_password_change S req peer claims ctx) w = (r, w')" and st: "hr_status r = 204"
  obtains body cur new now u n h fid w1 where "body_object req = Some body" "string_field body ''current_password'' = Some cur"
    "string_field body ''new_password'' = Some new" "policy_refusal ctx new = None"
    "List.find (\<lambda>u. ur_user_id u = cl_user_id claims) (db_users (w_db w)) = Some u"
    "ps_password_verify (sys_kdf S) cur (stored_hash (populate_row u))"
    "ps_password_hash (sys_kdf S) (sys_rand S n PS_KDF_SALT_LEN) new (cfg_of ctx ''auth.kdf_iterations'') = Some h"
    "hex_decode (cl_family_id claims) PS_JWT_FAMILY_ID_HEX_LEN = Some fid" "w_db w1 = w_db w" "w_saved w1 = w_saved w"
    "run_state (password_store S peer claims h fid now) w1 = (r, w')"
proof -
  note def = run [unfolded ps_auth_handle_password_change_def run_bind]
  from def st obtain body where f1: "body_object req = Some body" by (cases "body_object req") (auto simp: run_return)
  note def = def [unfolded f1 option.case]
  from def st obtain cur where f2: "string_field body ''current_password'' = Some cur"
    by (cases "string_field body ''current_password''") (auto simp: run_return)
  note def = def [unfolded f2 prod.case option.case]
  from def st obtain new where f3: "string_field body ''new_password'' = Some new"
    by (cases "string_field body ''new_password''") (auto simp: run_return)
  note def = def [unfolded f3 prod.case option.case]
  from def st have f4: "policy_refusal ctx new = None"
    by (cases "policy_refusal ctx new") (auto simp: run_return dest: policy_refusal_status)
  note f = f1 f2 f3 f4
  from def [unfolded f4 option.case run_bind] obtain now w0 un w1 found w2 ok w3 where
    s0: "run_state (time_now S) w = (now, w0)" and s1: "run_state ps_db_pool_acquire w0 = (un, w1)"
    and s2: "run_state (ps_user_store_get_by_id S (cl_user_id claims)) w1 = (found, w2)"
    and s3: "run_state (rl_allow S (username_key found (cl_user_id claims))
       (dev_relaxed_count (ctx_config ctx) (cfg_of ctx ''ratelimit.login_username_per_minute''))) w2 = (ok, w3)"
    and r3: "run_state (if \<not> ok then reply (error_result 429 ''RATE_LIMITED'' ''too many attempts; try again later'')
      else password_replace S peer claims ctx found cur new now) w3 = (r, w')"
    by (elim exE conjE)
  from r3 st have "run_state (password_replace S peer claims ctx found cur new now) w3 = (r, w')"
    by (auto simp: run_reply split: if_splits)
  from this st obtain user n h fid w4 where p: "found = Some user" "ps_password_verify (sys_kdf S) cur (stored_hash user)"
    "ps_password_hash (sys_kdf S) (sys_rand S n PS_KDF_SALT_LEN) new (cfg_of ctx ''auth.kdf_iterations'') = Some h"
    "hex_decode (cl_family_id claims) PS_JWT_FAMILY_ID_HEX_LEN = Some fid" "w_db w4 = w_db w3" "w_saved w4 = w_saved w3"
    "run_state (password_store S peer claims h fid now) w4 = (r, w')" by (rule run_password_replace)
  note F = frames [unfolded frame_def, rule_format]
  have d: "w_db w1 = w_db w" "w_saved w1 = w_saved w" using F(4) [OF s0] F(5) [OF s1] by simp_all
  with run_get_by_id [OF s2] p(1) obtain u where
    u: "List.find (\<lambda>u. ur_user_id u = cl_user_id claims) (db_users (w_db w)) = Some u" "user = populate_row u" by auto
  have d4: "w_db w4 = w_db w" "w_saved w4 = w_saved w" using d run_get_by_id [OF s2] F(1) [OF s3] p(5,6) by simp_all
  from that [OF f u(1) _ p(3,4) d4 p(7)] p(2) u(2) show thesis by blast
qed

lemma new_password_verifies:
  assumes "env_ok S" and h: "ps_password_hash (sys_kdf S) (sys_rand S n PS_KDF_SALT_LEN) pw it = Some h"
  shows "ps_password_verify (sys_kdf S) pw (stored_hash (populate_row (new_password h now u)))"
proof -
  from h obtain salt out where s: "sys_rand S n PS_KDF_SALT_LEN = Some salt" "sys_kdf S pw salt it = Some out"
    "h = \<lparr>ph_salt = salt, ph_iterations = it, ph_hash = out\<rparr>"
    by (auto simp: ps_password_hash_def split: option.splits)
  then have "length salt = 16" using assms(1) by (auto simp: env_ok_def PS_KDF_SALT_LEN_def)
  then show ?thesis
    by (simp add: s new_password_def populate_row_def stored_hash_def ps_password_verify_def PS_KDF_OUTPUT_LEN_def)
qed

definition change_request :: ps_http_request_t where
  "change_request = (login_request [])\<lparr>req_body := Some (''{'' @ [DQ] @ ''current_password'' @ [DQ] @ '':'' @ [DQ] @ ''pass word'' @ [DQ] @ '','' @
     [DQ] @ ''new_password'' @ [DQ] @ '':'' @ [DQ] @ ''word pass'' @ [DQ] @ ''}'')\<rparr>"

definition change_ctx :: ps_app_ctx_t where
  "change_ctx = example_ctx\<lparr>ctx_config := (ctx_config example_ctx)(''auth.password_min_length'' \<mapsto> V_int 8, ''auth.password_max_length'' \<mapsto> V_int 64,
     ''auth.kdf_iterations'' \<mapsto> V_int 1)\<rparr>"

definition alice_claims :: ps_jwt_claims_t where
  "alice_claims = \<lparr>cl_user_id = 7, cl_roles = 1, cl_iat = 900, cl_nbf = 900, cl_exp = 1900, cl_jti = replicate 32 CHR ''0'',
     cl_family_id = replicate 32 CHR ''0''\<rparr>"

lemma change_body: "body_object change_request =
    Some (JObject [(''current_password'', JString ''pass word''), (''new_password'', JString ''word pass'')])"
  by code_simp

lemma quiet_sys_rand: "sys_rand quiet_sys i n = Some (replicate n (char_of i))"
  by (simp add: quiet_sys_def)

lemma quiet_sys_kdf: "sys_kdf quiet_sys pw salt it = Some (take 32 (pw @ salt @ replicate 32 NUL))"
  by (simp add: quiet_sys_def)

lemma example_password_store:
  assumes "w_saved w = None" and "w_db w = example_db"
  shows "hr_status (fst (run_state (password_store quiet_sys peer alice_claims h fid now) w)) = 204"
  using assms by (simp add: password_store_def sql_begin_def sql_exec_def quiet_simps tick_def user_updates exec_ok_def
    ps_session_store_revoke_all_for_user_def update_families_def ps_audit_store_write_def insert_audit_def end_tx_def sql_commit_def
    reply_def ps_db_pool_release_def alice_claims_def example_db_def update_user_def schema_001_init_def)

lemma example_change:
  "hr_status (fst (run_state (ps_auth_handle_password_change quiet_sys change_request None alice_claims change_ctx) (login_world\<lparr>w_db := example_db\<rparr>))) = 204"
proof -
  let ?w = "login_world\<lparr>w_db := example_db\<rparr>"
  let ?u = "hd (db_users example_db)"
  let ?k = "username_key (Some (populate_row ?u)) 7"
  have r0: "room 10 1 (w_rl ?w)"
    using create_map_ok [of 10 160] by (simp add: room_def login_world_def ps_ratelimiter_create_def new_shard_def PS_RATELIMIT_SHARDS_def)
  have m: "fst (sys_mono quiet_sys n) * 1000000000 + snd (sys_mono quiet_sys n) < 2 ^ 63 - 1" for n by (simp add: quiet_sys_def)
  let ?w2 = "tick (tick ?w\<lparr>w_conns := w_conns (tick ?w) - 1\<rparr>)"
  obtain rl where rl: "run_state (rl_allow quiet_sys ?k 10) ?w2 = (True, tick (?w2\<lparr>w_rl := rl\<rparr>))"
    by (rule rl_allow_new [of 10 0 ?w2 ?k 10 quiet_sys]) (use m r0 in \<open>auto simp: login_world_def create_bucket_None\<close>)
  have found: "List.find (\<lambda>u. ur_user_id u = 7) (db_users example_db) = Some ?u" by (simp add: example_db_def)
  have cfg: "dev_relaxed_count (ctx_config change_ctx) (cfg_of change_ctx ''ratelimit.login_username_per_minute'') = 10"
    by (simp add: dev_relaxed_count_def change_ctx_def example_ctx_def cfg_int_def cfg_bool_def)
  have pw: "ps_password_verify (sys_kdf quiet_sys) ''pass word'' (stored_hash (populate_row ?u))"
    by (simp add: ps_password_verify_def stored_hash_def populate_row_def example_db_def quiet_sys_def PS_KDF_OUTPUT_LEN_def)
  have pol: "policy_refusal change_ctx ''word pass'' = None" by code_simp
  have hex: "hex_decode (cl_family_id alice_claims) PS_JWT_FAMILY_ID_HEX_LEN = Some (replicate 16 NUL)" by code_simp
  have fields: "string_field (JObject [(''current_password'', JString ''pass word''), (''new_password'', JString ''word pass'')]) ''current_password'' = Some ''pass word''"
    "string_field (JObject [(''current_password'', JString ''pass word''), (''new_password'', JString ''word pass'')]) ''new_password'' = Some ''word pass''"
    by (simp_all add: string_field_def)
  have uid: "cl_user_id alice_claims = 7" by (simp add: alice_claims_def)
  show ?thesis
    unfolding ps_auth_handle_password_change_def password_replace_def cfg
    by (simp add: change_body fields pol time_now_def ps_db_pool_acquire_def uid found ps_user_store_get_by_id_def get_user_def sql_query_def
        quiet_simps login_world_simps rl kdf_try_acquire_def ps_kdf_semaphore_try_acquire_def check_password_def pw password_hash_def
        ps_rand_bytes_def kdf_release_def ps_password_hash_def quiet_sys_rand quiet_sys_kdf hex example_password_store)
qed


subsection \<open>Logging out\<close>

text \<open>A logout revokes the family of the token it was given, and only if that family is the caller's.\<close>

definition family_revoked :: "bytes \<Rightarrow> int64 \<Rightarrow> db \<Rightarrow> db \<Rightarrow> bool" where
  "family_revoked fid now d d' \<longleftrightarrow> db_users d' = db_users d \<and> db_rts d' = db_rts d \<and>
     db_families d' = map (\<lambda>g. if sf_family_id g = fid \<and> sf_revoked_at g = None then revoke_family ''LOGOUT'' now g else g) (db_families d)"

definition logged_out :: "bytes \<Rightarrow> int64 \<Rightarrow> db \<Rightarrow> db \<Rightarrow> bool" where
  "logged_out h uid d d' \<longleftrightarrow> (\<exists>t f now. List.find (\<lambda>t. rt_token_hash t = h) (db_rts d) = Some t \<and>
     List.find (\<lambda>f. sf_family_id f = rt_family_id t) (db_families d) = Some f \<and> sf_user_id f = uid \<and> family_revoked (rt_family_id t) now d d')"

lemma run_find_token:
  assumes "run_state (ps_session_store_get_token S h) w = (found, w')"
  shows "w_db w' = w_db w \<and> w_saved w' = w_saved w \<and> (found = None \<or>
    (\<exists>t. List.find (\<lambda>t. rt_token_hash t = h) (db_rts (w_db w)) = Some t \<and> found = Some (populate_token t)))"
  using assms by (auto simp: ps_session_store_get_token_def sql_query_def tick_def split: if_splits)

lemma run_find_family:
  assumes "run_state (ps_session_store_get_family S fid) w = (found, w')"
  shows "w_db w' = w_db w \<and> w_saved w' = w_saved w \<and> (found = None \<or>
    (\<exists>f. List.find (\<lambda>f. sf_family_id f = fid) (db_families (w_db w)) = Some f \<and> found = Some (populate_family f)))"
  using assms by (auto simp: ps_session_store_get_family_def sql_query_def tick_def split: if_splits)

lemma run_revoke_family:
  assumes "run_state (ps_session_store_revoke_family S fid cause now) w = (ok, w')"
  shows "w_saved w' = w_saved w \<and> w_db w' = (if ok then (w_db w)\<lparr>db_families :=
    map (\<lambda>g. if sf_family_id g = fid \<and> sf_revoked_at g = None then revoke_family cause now g else g) (db_families (w_db w))\<rparr> else w_db w)"
  using assms by (auto simp: ps_session_store_revoke_family_def sql_exec_def tick_def update_families_def split: if_splits)

lemma run_end_tx_failed:
  "run_state (end_tx S ok) w = (False, w') \<Longrightarrow> (ok \<longrightarrow> w_db w' = w_db w \<and> w_saved w' = w_saved w) \<and>
     (\<not> ok \<longrightarrow> w_db w' = (case w_saved w of None \<Rightarrow> w_db w | Some d \<Rightarrow> d))"
  by (auto simp: end_tx_def sql_commit_def sql_rollback_def tick_def split: if_splits option.splits)

lemma run_logout_store:
  assumes run: "run_state (logout_store S peer fid uid now) w = (r, w')"
  shows "(w_db w' = w_db w \<or> family_revoked fid now (w_db w) (w_db w')) \<and>
    (hr_status r = 204 \<longrightarrow> family_revoked fid now (w_db w) (w_db w') \<and> w_saved w' = None)"
proof -
  let ?e = "\<lambda>ok1. set_audit_source_ip peer (set_audit_target (Some uid) (audit_entry now ''LOGOUT'' (if ok1 then ''SUCCESS'' else ''FAILURE'')))"
  from run [unfolded logout_store_def run_bind] obtain began w1 where b: "run_state (sql_begin S) w = (began, w1)"
    and r1: "run_state (if \<not> began then reply internal_error_result
      else do {
        ok1 \<leftarrow> ps_session_store_revoke_family S fid ''LOGOUT'' now;
        ok2 \<leftarrow> and_then ok1 (ps_audit_store_write S (?e ok1));
        committed \<leftarrow> end_tx S ok2;
        if \<not> committed then reply internal_error_result
        else reply (ok_result 204 None) }) w1 = (r, w')" by (elim exE conjE)
  show ?thesis
  proof (cases began)
    case False
    with r1 run_begin [OF b] show ?thesis by (auto simp: run_reply)
  next
    case True
    from r1 [simplified True not_True_eq_False if_False, unfolded run_bind] obtain ok1 w2 ok2 w3 c w4 where
      s2: "run_state (ps_session_store_revoke_family S fid ''LOGOUT'' now) w1 = (ok1, w2)"
      and s3: "run_state (and_then ok1 (ps_audit_store_write S (?e ok1))) w2 = (ok2, w3)" and s4: "run_state (end_tx S ok2) w3 = (c, w4)"
      and s5: "run_state (if \<not> c then reply internal_error_result else reply (ok_result 204 None)) w4 = (r, w')"
      by (elim exE conjE)
    have saved: "w_saved w3 = Some (w_db w)"
      using run_begin [OF b] run_revoke_family [OF s2] s3 True
      by (auto simp: and_then_def run_return dest!: run_audit split: if_splits)
    have revoked: "family_revoked fid now (w_db w) (w_db w3)" if ok2
    proof -
      from that s3 have ok1: ok1 and au: "run_state (ps_audit_store_write S (?e ok1)) w2 = (ok2, w3)"
        by (auto simp: and_then_def run_return split: if_splits)
      from run_audit [OF au] that insert_audit_tables have "db_users (w_db w3) = db_users (w_db w2)" "db_families (w_db w3) = db_families (w_db w2)"
        "db_rts (w_db w3) = db_rts (w_db w2)" by blast+
      then show ?thesis using run_revoke_family [OF s2] ok1 run_begin [OF b] by (simp add: family_revoked_def)
    qed
    show ?thesis
    proof (cases c)
      case True
      with run_end_tx [OF s4] have "ok2" "w_db w4 = w_db w3" "w_saved w4 = None" by blast+
      with revoked s5 True show ?thesis by (simp add: run_reply)
    next
      case False
      with s4 have "run_state (end_tx S ok2) w3 = (False, w4)" by simp
      from run_end_tx_failed [OF this] saved revoked s5 False show ?thesis by (cases ok2) (auto simp: run_reply)
    qed
  qed
qed

lemma run_logout_token:
  assumes run: "run_state (logout_token S peer claims now (populate_token t)) w = (r, w')"
    and t: "List.find (\<lambda>t. rt_token_hash t = h) (db_rts (w_db w)) = Some t"
  shows "(w_db w' = w_db w \<or> logged_out h (cl_user_id claims) (w_db w) (w_db w')) \<and>
    (hr_status r = 204 \<longrightarrow> logged_out h (cl_user_id claims) (w_db w) (w_db w') \<and> w_saved w' = None)"
proof -
  from run [unfolded logout_token_def run_bind] obtain fam w1 where
    s1: "run_state (ps_session_store_get_family S (tr_family_id (populate_token t))) w = (fam, w1)"
    and r1: "run_state (case fam of
        None \<Rightarrow> reply internal_error_result
      | Some family \<Rightarrow>
          if fr_user_id family \<noteq> cl_user_id claims then
            reply (error_result 403 ''FORBIDDEN'' ''refresh token does not belong to this account'')
          else logout_store S peer (tr_family_id (populate_token t)) (fr_user_id family) now) w1 = (r, w')"
    by (elim exE conjE)
  note f = run_find_family [OF s1]
  show ?thesis
  proof (cases "\<exists>family. fam = Some family \<and> fr_user_id family = cl_user_id claims")
    case False
    with r1 f show ?thesis by (auto simp: run_reply split: option.splits if_splits)
  next
    case True
    then obtain family where fam: "fam = Some family" "fr_user_id family = cl_user_id claims" by blast
    with r1 have st: "run_state (logout_store S peer (tr_family_id (populate_token t)) (cl_user_id claims) now) w1 = (r, w')" by simp
    from f fam obtain fr where "List.find (\<lambda>f. sf_family_id f = rt_family_id t) (db_families (w_db w)) = Some fr" "sf_user_id fr = cl_user_id claims"
      by (auto simp: populate_token_def populate_family_def)
    with t run_logout_store [OF st] f show ?thesis by (auto simp: logged_out_def populate_token_def)
  qed
qed

lemma run_logout:
  assumes run: "run_state (ps_auth_handle_logout S req peer claims ctx) w = (r, w')"
  shows "w_db w' = w_db w \<and> hr_status r \<noteq> 204 \<or> (\<exists>body raw h. body_object req = Some body \<and> read_string_field body ''refresh_token'' 128 = Some raw \<and>
    presented_hash S raw PS_REFRESH_TOKEN_HASH_LEN = Some h \<and>
    (w_db w' = w_db w \<and> ((\<forall>n. \<not> sys_fault S n) \<longrightarrow> h \<notin> rt_token_hash ` set (db_rts (w_db w))) \<or>
     (\<exists>t now w2. List.find (\<lambda>t. rt_token_hash t = h) (db_rts (w_db w2)) = Some t \<and> w_db w2 = w_db w \<and>
       run_state (logout_token S peer claims now (populate_token t)) w2 = (r, w'))))"
proof (rule ccontr)
  assume neg: "\<not> ?thesis"
  note F = frames [unfolded frame_def, rule_format]
  note def = run [unfolded ps_auth_handle_logout_def run_bind]
  from def neg obtain body where f1: "body_object req = Some body"
    by (cases "body_object req") (auto simp: run_return dest: F(4))
  note def = def [unfolded f1 option.case]
  from def neg obtain raw where f2: "read_string_field body ''refresh_token'' 128 = Some raw"
    by (cases "read_string_field body ''refresh_token'' 128") (auto simp: run_return dest: F(4))
  note def = def [unfolded f2 option.case]
  from def neg obtain h where f3: "presented_hash S raw PS_REFRESH_TOKEN_HASH_LEN = Some h"
    by (cases "presented_hash S raw PS_REFRESH_TOKEN_HASH_LEN") (auto simp: run_return dest: F(4))
  note def = def [unfolded f3 option.case run_bind]
  from def obtain now w0 un w1 found w2 where s0: "run_state (time_now S) w = (now, w0)" and s1: "run_state ps_db_pool_acquire w0 = (un, w1)"
    and s2: "run_state (ps_session_store_get_token S h) w1 = (found, w2)"
    and r2: "run_state (case found of
         None \<Rightarrow> reply (ok_result 204 None)
       | Some token_row \<Rightarrow> logout_token S peer claims now token_row) w2 = (r, w')"
    by (elim exE conjE)
  note d = F(4) [OF s0] F(5) [OF s1] run_find_token [OF s2]
  then have w1: "w_db w1 = w_db w" and w2: "w_db w2 = w_db w" by simp_all
  show False
  proof (cases found)
    case None
    have "h \<notin> rt_token_hash ` set (db_rts (w_db w))" if "\<forall>n. \<not> sys_fault S n"
      using s2 None that w1 by (auto simp: ps_session_store_get_token_def sql_query_def find_None_iff)
    with None r2 neg f1 f2 f3 w2 show False by (auto simp: run_reply)
  next
    case (Some row)
    with d w1 w2 obtain t where "List.find (\<lambda>t. rt_token_hash t = h) (db_rts (w_db w2)) = Some t" "row = populate_token t" by auto
    with Some r2 neg f1 f2 f3 w2 show False by auto
  qed
qed


text \<open>An example.\<close>

definition logout_request :: ps_http_request_t where
  "logout_request = (login_request [])\<lparr>req_body := Some (''{'' @ [DQ] @ ''refresh_token'' @ [DQ] @ '':'' @ [DQ] @ replicate 43 CHR ''A'' @ [DQ] @ ''}'')\<rparr>"

definition logout_world :: world where
  "logout_world = login_world\<lparr>w_db := example_db\<lparr>db_rts := [new_rt (''h'' @ replicate 32 NUL) ''f'' 1 2000 10]\<rparr>\<rparr>"

lemma logout_body: "body_object logout_request = Some (JObject [(''refresh_token'', JString (replicate 43 CHR ''A''))])"
  by code_simp

lemma presented_zeros: "presented_hash quiet_sys (replicate 43 CHR ''A'') PS_REFRESH_TOKEN_HASH_LEN = Some (''h'' @ replicate 32 NUL)"
  by code_simp

lemma example_logout: "hr_status (fst (run_state (ps_auth_handle_logout quiet_sys logout_request None alice_claims change_ctx) logout_world)) = 204"
proof -
  have fields: "read_string_field (JObject [(''refresh_token'', JString (replicate 43 CHR ''A''))]) ''refresh_token'' 128 = Some (replicate 43 CHR ''A'')"
    by code_simp
  show ?thesis
    by (simp add: ps_auth_handle_logout_def logout_body fields presented_zeros time_now_def ps_db_pool_acquire_def ps_session_store_get_token_def
        sql_query_def quiet_simps logout_world_def logout_token_def ps_session_store_get_family_def new_rt_def populate_token_def populate_family_def
        example_db_def new_family_def alice_claims_def logout_store_def sql_begin_def login_world_simps ps_session_store_revoke_family_def
        sql_exec_def update_families_def and_then_def ps_audit_store_write_def insert_audit_def end_tx_def sql_commit_def tick_def reply_def
        ps_db_pool_release_def schema_001_init_def)
qed


subsection \<open>Reading accounts\<close>

lemma run_get_account:
  assumes run: "run_state (ps_user_handle_get_user S peer claims uid) w = (r, w')" and st: "hr_status r = 200"
  obtains u where "List.find (\<lambda>u. ur_user_id u = uid) (db_users (w_db w)) = Some u"
    "hr_body r = Some (if cl_user_id claims = uid then user_write_self (populate_row u) else user_write_admin (populate_row u))"
proof -
  from run [unfolded ps_user_handle_get_user_def run_bind] obtain un w0 found w1 where
    a: "run_state ps_db_pool_acquire w = (un, w0)" and g: "run_state (ps_user_store_get_by_id S uid) w0 = (found, w1)"
    and rest: "run_state (case found of
       None \<Rightarrow> reply (error_result 404 ''NOT_FOUND'' ''no such user'')
     | Some target \<Rightarrow>
         if cl_user_id claims = uid then reply (ok_result 200 (Some (user_write_self target)))
         else do {
           now \<leftarrow> time_now S;
           _ \<leftarrow> ps_audit_store_write S (set_audit_source_ip peer (set_audit_target (Some uid)
             (set_audit_actor (cl_user_id claims) (audit_entry now ''ADMIN_USER_READ'' ''SUCCESS''))));
           reply (ok_result 200 (Some (user_write_admin target))) }) w1 = (r, w')"
    by (elim exE conjE)
  have "w_db w0 = w_db w" using a frames(5) by (auto simp: frame_def)
  with run_get_by_id [OF g] rest st obtain u where "List.find (\<lambda>u. ur_user_id u = uid) (db_users (w_db w)) = Some u" "found = Some (populate_row u)"
    by (auto simp: run_reply split: option.splits)
  with rest that show thesis by (auto simp: run_reply run_bind simp del: run_state_bind split: if_splits)
qed

lemma cstr_snprintf: "cstr (c_snprintf_s n s) = c_snprintf_s n s"
  by (rule cstr_id) (auto simp: c_snprintf_s_def dest: in_set_takeD)

text \<open>The accounts above an identifier, in order: what walking through the pages is meant to show.\<close>

definition ids_after :: "db \<Rightarrow> int64 \<Rightarrow> int64 list" where
  "ids_after d after = sort (filter (\<lambda>i. after < i) (map ur_user_id (db_users d)))"

lemma users_after_ids: "map fst (users_after d after limit) = (if limit < 0 then ids_after d after else take (nat limit) (ids_after d after))"
proof -
  have "map ur_user_id (sort_key ur_user_id (filter (\<lambda>u. after < ur_user_id u) (db_users d))) = ids_after d after"
    unfolding ids_after_def by (rule properties_for_sort [symmetric]) (simp_all add: filter_map comp_def)
  then show ?thesis by (auto simp: users_after_def Let_def comp_def take_map [symmetric])
qed

lemma filter_drop_sorted:
  fixes xs :: "int list"
  assumes "sorted xs" and "distinct xs" and "0 < n" and "n \<le> length xs"
  shows "filter (\<lambda>x. last (take n xs) < x) xs = drop n xs"
proof -
  have l: "last (take n xs) = xs ! (n - 1)" using assms(3,4) by (subst last_conv_nth) (auto simp: min_absorb2)
  have s: "xs ! (n - 1) < xs ! j" if "n \<le> j" "j < length xs" for j
    using sorted_wrt_nth_less [of "(<)" xs "n - 1" j] assms that by (simp add: strict_sorted_iff)
  have "filter (\<lambda>x. last (take n xs) < x) (take n xs) = []"
    using assms(1,3,4) by (auto simp: filter_empty_conv l in_set_conv_nth not_less intro!: sorted_nth_mono) linarith+
  moreover have "filter (\<lambda>x. last (take n xs) < x) (drop n xs) = drop n xs"
    using s assms(3,4) by (auto simp: filter_id_conv l in_set_conv_nth)
  ultimately show ?thesis by (metis append_take_drop_id filter_append self_append_conv2)
qed

lemma ids_after_above: "after < l \<Longrightarrow> ids_after d l = filter (\<lambda>x. l < x) (ids_after d after)"
proof -
  assume "after < l"
  then have "filter (\<lambda>x. l < x) (filter (\<lambda>i. after < i) xs) = filter (\<lambda>i. l < i) xs" for xs
    by (induction xs) auto
  then show ?thesis by (simp add: ids_after_def filter_sort)
qed

lemma ids_after_next:
  assumes "distinct (map ur_user_id (db_users d))" and "0 < n" and "n \<le> length (ids_after d after)"
  shows "ids_after d after = take n (ids_after d after) @ ids_after d (last (take n (ids_after d after)))"
proof -
  define xs where "xs = ids_after d after"
  have xs: "sorted xs" "distinct xs" "n \<le> length xs" and above: "\<forall>x \<in> set xs. after < x"
    using assms(1,3) by (simp_all add: xs_def ids_after_def)
  have "last (take n xs) \<in> set xs" using assms(2) xs(3) by (intro in_set_takeD [OF last_in_set]) auto
  with above have "ids_after d (last (take n xs)) = drop n xs"
    using ids_after_above [of after "last (take n xs)" d] filter_drop_sorted [OF xs(1,2) assms(2) xs(3)] by (simp flip: xs_def)
  then show ?thesis unfolding xs_def [symmetric] by simp
qed

lemma run_list_after:
  assumes "run_state (ps_user_store_list_after S after limit) w = (Some (rows, n), w')"
  shows "w_db w' = w_db w \<and> n = length (users_after (w_db w) after limit) \<and>
    rows = map (\<lambda>(i, n). (i, c_snprintf_s PS_USERNAME_MAX n)) (take PS_USER_LIST_MAX (users_after (w_db w) after limit))"
  using assms by (auto simp: ps_user_store_list_after_def sql_query_def tick_def Let_def split: if_splits)

lemma list_range_bounds: "list_range req = Inr (after, limit) \<Longrightarrow> 0 < limit \<and> limit \<le> int PS_USER_LIST_MAX"
  by (auto simp: list_range_def Let_def PS_USER_LIST_MAX_def split: option.splits if_splits)

lemma run_list_users:
  assumes run: "run_state (ps_admin_handle_list_users S req peer claims) w = (r, w')" and st: "hr_status r = 200"
  obtains after limit rows where "list_range req = Inr (after, limit)" "hr_body r = Some (list_body rows after limit)"
    "rows = map (\<lambda>(i, n). (i, c_snprintf_s PS_USERNAME_MAX n)) (users_after (w_db w) after limit)"
proof -
  have bad: "hr_status x \<noteq> 200" if "list_range req = Inl x" for x
    using that by (auto simp: list_range_def Let_def split: option.splits if_splits)
  obtain after limit where lr: "list_range req = Inr (after, limit)"
    using run st bad by (cases "list_range req") (auto simp: ps_admin_handle_list_users_def run_return)
  from run [unfolded ps_admin_handle_list_users_def lr sum.case prod.case run_bind] obtain un w0 page w1 where
    a: "run_state ps_db_pool_acquire w = (un, w0)" and l: "run_state (ps_user_store_list_after S after limit) w0 = (page, w1)"
    and rest: "run_state (case page of
        None \<Rightarrow> reply internal_error_result
      | Some (rows, row_count) \<Rightarrow> do {
          now \<leftarrow> time_now S;
          _ \<leftarrow> ps_audit_store_write S (set_audit_source_ip peer (set_audit_detail (list_detail after limit)
            (set_audit_actor (cl_user_id claims) (audit_entry now ''ADMIN_USER_LIST'' ''SUCCESS''))));
          reply (ok_result 200 (Some (list_body (take row_count rows) after limit))) }) w1 = (r, w')"
    by (elim exE conjE)
  from rest st obtain rows n where page: "page = Some (rows, n)" by (auto simp: run_reply split: option.splits)
  with rest have body: "hr_body r = Some (list_body (take n rows) after limit)" by (auto simp: run_reply run_bind simp del: run_state_bind)
  have "w_db w0 = w_db w" using a frames(5) by (auto simp: frame_def)
  note f = run_list_after [OF l [unfolded page], unfolded this]
  have "length (users_after (w_db w) after limit) \<le> PS_USER_LIST_MAX"
    using list_range_bounds [OF lr] by (simp add: users_after_def Let_def) linarith
  with f have "take n rows = map (\<lambda>(i, n). (i, c_snprintf_s PS_USERNAME_MAX n)) (users_after (w_db w) after limit)" by simp
  from that [OF lr body this] show thesis .
qed


subsection \<open>Properties\<close>



text \<open>C11. A logout ends the caller's session and nothing else: either the database is unchanged, or the
  refresh token in the request is stored, its family belongs to the user of the access token, that
  family is revoked and no other family, token or account changes. When no statement fails, an answer
  of 204 means that the session of the token is over: the token is not stored, or it was logged out.\<close>

theorem logout_ends_own_session:
  assumes "run_state (ps_auth_handle_logout S req peer claims ctx) w = (r, w')"
  shows "(w_db w' = w_db w \<or> (\<exists>body raw h. body_object req = Some body \<and> read_string_field body ''refresh_token'' 128 = Some raw \<and>
      presented_hash S raw PS_REFRESH_TOKEN_HASH_LEN = Some h \<and> logged_out h (cl_user_id claims) (w_db w) (w_db w'))) \<and>
    (hr_status r = 204 \<and> (\<forall>n. \<not> sys_fault S n) \<longrightarrow> (\<exists>body raw h. body_object req = Some body \<and>
      read_string_field body ''refresh_token'' 128 = Some raw \<and> presented_hash S raw PS_REFRESH_TOKEN_HASH_LEN = Some h \<and>
      (h \<notin> rt_token_hash ` set (db_rts (w_db w)) \<or> logged_out h (cl_user_id claims) (w_db w) (w_db w'))))"
  using run_logout [OF assms]
proof (elim disjE exE conjE)
  fix body raw h t now w2
  assume f: "body_object req = Some body" "read_string_field body ''refresh_token'' 128 = Some raw"
    "presented_hash S raw PS_REFRESH_TOKEN_HASH_LEN = Some h"
    and t: "List.find (\<lambda>t. rt_token_hash t = h) (db_rts (w_db w2)) = Some t" and w2: "w_db w2 = w_db w"
    and run: "run_state (logout_token S peer claims now (populate_token t)) w2 = (r, w')"
  from run_logout_token [OF run t, unfolded w2] f show ?thesis by blast
qed (assumption | blast)+

theorem logout_ends_own_session_witness:
  "\<exists>r w'. run_state (ps_auth_handle_logout quiet_sys logout_request None alice_claims change_ctx) logout_world = (r, w') \<and>
     logged_out (''h'' @ replicate 32 NUL) 7 (w_db logout_world) (w_db w')"
proof -
  obtain r w' where run: "run_state (ps_auth_handle_logout quiet_sys logout_request None alice_claims change_ctx) logout_world = (r, w')"
    by (metis prod.collapse)
  then have st: "hr_status r = 204" using example_logout by simp
  have "\<forall>n. \<not> sys_fault quiet_sys n" by (simp add: quiet_simps)
  with logout_ends_own_session [OF run] st have "logged_out (''h'' @ replicate 32 NUL) (cl_user_id alice_claims) (w_db logout_world) (w_db w')"
    by (auto simp: logout_body read_string_field_def string_field_def presented_zeros logout_world_def new_rt_def)
  with run show ?thesis by (auto simp: alice_claims_def)
qed

text \<open>Reading an account answers with the record of the account named, and discloses its e-mail address
  only to the account itself: everyone else (the policy of the route lets administrators through) gets
  the identifier and the user name only.\<close>

theorem get_user_discloses_email_to_self:
  assumes "run_state (ps_user_handle_get_user S peer claims uid) w = (r, w')" and "hr_status r = 200"
  shows "\<exists>u b. List.find (\<lambda>u. ur_user_id u = uid) (db_users (w_db w)) = Some u \<and> hr_body r = Some b \<and>
    ps_json_object_get (Some b) ''userId'' = Some (JString (show_int uid)) \<and>
    ps_json_object_get (Some b) ''username'' = Some (JString (c_snprintf_s PS_USERNAME_MAX (ur_username u))) \<and>
    ps_json_object_get (Some b) ''email'' =
      (if cl_user_id claims = uid then Some (JString (c_snprintf_s PS_EMAIL_MAX (ur_email u))) else None)"
proof (rule run_get_account [OF assms])
  fix u
  assume u: "List.find (\<lambda>u. ur_user_id u = uid) (db_users (w_db w)) = Some u"
    "hr_body r = Some (if cl_user_id claims = uid then user_write_self (populate_row u) else user_write_admin (populate_row u))"
  from u(1) have "ur_user_id u = uid" by (auto simp: find_Some_iff)
  with u show ?thesis by (simp add: user_write_self_def user_write_admin_def populate_row_def obj_set_str_def cstr_snprintf
    cstr_id [OF NUL_show_int])
qed

theorem get_user_discloses_email_to_self_witness:
  "\<exists>r w' b. run_state (ps_user_handle_get_user quiet_sys None (alice_claims\<lparr>cl_user_id := 1\<rparr>) 7) login_world = (r, w') \<and>
     hr_body r = Some b \<and> ps_json_object_get (Some b) ''email'' = None"
proof -
  obtain r w' where run: "run_state (ps_user_handle_get_user quiet_sys None (alice_claims\<lparr>cl_user_id := 1\<rparr>) 7) login_world = (r, w')"
    by (metis prod.collapse)
  then have "hr_status r = 200"
    by (auto simp: ps_user_handle_get_user_def ps_db_pool_acquire_def ps_user_store_get_by_id_def get_user_def sql_query_def quiet_simps
      login_world_simps login_db_def example_db_def run_bind run_reply simp del: run_state_bind)
  from get_user_discloses_email_to_self [OF run this] run show ?thesis by auto
qed



end
