(* ===== verification/Db_Pool.thy ===== *)
theory Db_Pool
  imports Db "HOL-Library.Multiset"
begin

text \<open>
  The connection pool and the migration (\<^verbatim>\<open>src/src/store/db.c\<close>, \<^verbatim>\<open>db.h\<close>). What the process holds, memory blocks,
  mutexes, condition variables, SQLite handles and the like, is a multiset; the database file is the list of
  rows of \<^verbatim>\<open>schema_version\<close> and the tables, both absent in a new file. Every call that can fail is decided
  by \<open>ss_fault\<close>, and \<open>ss_null\<close> says whether a failed \<^verbatim>\<open>sqlite3_open_v2\<close> yields no handle at all. A
  connection that is closed rolls back its open transaction, as SQLite documents.

  \<open>lifo\<close> is the contract of the free list; the handlers of the service, which acquire and release one
  connection each, rest on it when they are modelled on one connection.
\<close>

datatype resource = R_block bytes | R_mutex | R_cond | R_conn nat | R_sem | R_thread bytes nat | R_listener | R_tls_ctx

record sqlite =
  sq_held :: "resource multiset"
  sq_next :: nat
  sq_versions :: "int list option"
  sq_db :: "db option"
  sq_saved :: "(nat \<times> int list option \<times> db option) option"
  sq_tick :: nat

record sqlite_sys =
  ss_fault :: "nat \<Rightarrow> bool"
  ss_null :: "nat \<Rightarrow> bool"

type_synonym 'a sq = "(sqlite, 'a) state"

abbreviation give :: "'a \<Rightarrow> 'a sq" where "give \<equiv> State_Monad.return"

definition sq_later :: "sqlite \<Rightarrow> sqlite" where
  "sq_later s = s\<lparr>sq_tick := sq_tick s + 1\<rparr>"

definition attempt :: "sqlite_sys \<Rightarrow> bool sq" where
  "attempt S = State (\<lambda>s. (\<not> ss_fault S (sq_tick s), sq_later s))"

definition hold :: "resource \<Rightarrow> unit sq" where
  "hold r = State (\<lambda>s. ((), s\<lparr>sq_held := add_mset r (sq_held s)\<rparr>))"

definition let_go :: "resource \<Rightarrow> unit sq" where
  "let_go r = State (\<lambda>s. ((), s\<lparr>sq_held := sq_held s - {#r#}\<rparr>))"

definition obtain_res :: "sqlite_sys \<Rightarrow> resource \<Rightarrow> bool sq" where
  "obtain_res S r = do { ok \<leftarrow> attempt S; if ok then do { hold r; give True } else give False }"

definition sqlite3_open_v2 :: "sqlite_sys \<Rightarrow> (bool \<times> nat option) sq" where
  "sqlite3_open_v2 S = State (\<lambda>s.
     let ok = (\<not> ss_fault S (sq_tick s)) in
     if \<not> ok \<and> ss_null S (sq_tick s) then ((False, None), sq_later s)
     else ((ok, Some (sq_next s)), sq_later (s\<lparr>sq_held := add_mset (R_conn (sq_next s)) (sq_held s), sq_next := sq_next s + 1\<rparr>)))"

definition closed_tx :: "nat \<Rightarrow> sqlite \<Rightarrow> sqlite" where
  "closed_tx c s = (case sq_saved s of
     None \<Rightarrow> s
   | Some (c', v, d) \<Rightarrow> if c' = c then s\<lparr>sq_versions := v, sq_db := d, sq_saved := None\<rparr> else s)"

definition sqlite3_close :: "nat option \<Rightarrow> unit sq" where
  "sqlite3_close conn = (case conn of
     None \<Rightarrow> give ()
   | Some c \<Rightarrow> State (\<lambda>s. ((), closed_tx c (s\<lparr>sq_held := sq_held s - {#R_conn c#}\<rparr>))))"

definition sq_query :: "sqlite_sys \<Rightarrow> (sqlite \<Rightarrow> 'a option) \<Rightarrow> 'a option sq" where
  "sq_query S q = State (\<lambda>s. (if ss_fault S (sq_tick s) then None else q s, sq_later s))"


subsection \<open>Opening and migrating\<close>

definition configure_connection :: "sqlite_sys \<Rightarrow> bool sq" where
  "configure_connection S = do {
     wal \<leftarrow> attempt S;
     if \<not> wal then give False else attempt S }"

definition table_exists :: "sqlite_sys \<Rightarrow> bool sq" where
  "table_exists S = do {
     prepared \<leftarrow> attempt S;
     if \<not> prepared then give False
     else do {
       row \<leftarrow> sq_query S (\<lambda>s. map_option (\<lambda>_. ()) (sq_versions s));
       give (row \<noteq> None) } }"

text \<open>\<^verbatim>\<open>MAX(version)\<close> is \<^verbatim>\<open>NULL\<close> for an empty table; \<^verbatim>\<open>sqlite3_column_int\<close> keeps the low 32 bits.\<close>

definition column_int :: "int \<Rightarrow> int" where
  "column_int v = sint (word_of_int v :: 32 word)"

definition current_schema_version :: "sqlite_sys \<Rightarrow> int sq" where
  "current_schema_version S = do {
     exists \<leftarrow> table_exists S;
     if \<not> exists then give 0
     else do {
       prepared \<leftarrow> attempt S;
       if \<not> prepared then give 0
       else do {
         row \<leftarrow> sq_query S (\<lambda>s. case sq_versions s of
           None \<Rightarrow> None
         | Some vs \<Rightarrow> if vs = [] then None else Some (Max (set vs)));
         give (case row of None \<Rightarrow> 0 | Some v \<Rightarrow> column_int v) } } }"

definition sq_begin :: "sqlite_sys \<Rightarrow> nat \<Rightarrow> bool sq" where
  "sq_begin S c = State (\<lambda>s. if ss_fault S (sq_tick s) \<or> sq_saved s \<noteq> None then (False, sq_later s)
     else (True, sq_later (s\<lparr>sq_saved := Some (c, sq_versions s, sq_db s)\<rparr>)))"

text \<open>The script creates every table, so it fails where one is already there.\<close>

definition exec_schema_001_init :: "sqlite_sys \<Rightarrow> bool sq" where
  "exec_schema_001_init S = State (\<lambda>s.
     if ss_fault S (sq_tick s) \<or> sq_versions s \<noteq> None \<or> sq_db s \<noteq> None then (False, sq_later s)
     else (True, sq_later (s\<lparr>sq_versions := Some [1], sq_db := Some schema_001_init\<rparr>)))"

definition sq_rollback :: "nat \<Rightarrow> unit sq" where
  "sq_rollback c = State (\<lambda>s. ((), closed_tx c s))"

definition sq_commit :: "sqlite_sys \<Rightarrow> bool sq" where
  "sq_commit S = State (\<lambda>s. if ss_fault S (sq_tick s) \<or> sq_saved s = None then (False, sq_later s)
     else (True, sq_later (s\<lparr>sq_saved := None\<rparr>)))"

definition run_migrations :: "sqlite_sys \<Rightarrow> nat \<Rightarrow> bool sq" where
  "run_migrations S c = do {
     version \<leftarrow> current_schema_version S;
     if 1 \<le> version then give True
     else do {
       began \<leftarrow> sq_begin S c;
       if \<not> began then give False
       else do {
         applied \<leftarrow> exec_schema_001_init S;
         if \<not> applied then do { sq_rollback c; give False }
         else sq_commit S } } }"

definition ps_db_open_standalone :: "sqlite_sys \<Rightarrow> nat option sq" where
  "ps_db_open_standalone S = do {
     (ok, conn) \<leftarrow> sqlite3_open_v2 S;
     if \<not> ok then do { sqlite3_close conn; give None }
     else do {
       configured \<leftarrow> configure_connection S;
       if \<not> configured then do { sqlite3_close conn; give None }
       else give conn } }"


subsection \<open>The pool\<close>

record ps_db_pool =
  dp_conns :: "nat list"
  dp_free_stack :: "nat list"
  dp_size :: nat
  dp_free_count :: nat

primrec close_conns :: "nat list \<Rightarrow> unit sq" where
  "close_conns [] = give ()"
| "close_conns (c # cs) = do { sqlite3_close (Some c); close_conns cs }"

primrec open_conns :: "sqlite_sys \<Rightarrow> nat \<Rightarrow> nat list \<Rightarrow> nat list option sq" where
  "open_conns S 0 opened = give (Some opened)"
| "open_conns S (Suc n) opened = do {
     conn \<leftarrow> ps_db_open_standalone S;
     case conn of
       None \<Rightarrow> do { close_conns opened; give None }
     | Some c \<Rightarrow> open_conns S n (opened @ [c]) }"

definition free_arrays :: "unit sq" where
  "free_arrays = do { let_go (R_block ''conns''); let_go (R_block ''free_stack''); let_go (R_block ''pool'') }"

definition destroy_locks :: "unit sq" where
  "destroy_locks = do { let_go R_mutex; let_go R_cond }"

definition pool_size_of :: "int \<Rightarrow> int \<Rightarrow> nat" where
  "pool_size_of cpus pool_size = nat (if pool_size < 1 then (if cpus < 1 then 1 else cpus) else pool_size)"

definition fill_pool :: "sqlite_sys \<Rightarrow> nat \<Rightarrow> ps_db_pool option sq" where
  "fill_pool S n = do {
     opened \<leftarrow> open_conns S n [];
     case opened of
       None \<Rightarrow> do { destroy_locks; free_arrays; give None }
     | Some conns \<Rightarrow> do {
         migrated \<leftarrow> run_migrations S (conns ! 0);
         if \<not> migrated then do { close_conns conns; destroy_locks; free_arrays; give None }
         else give (Some \<lparr>dp_conns = conns, dp_free_stack = conns, dp_size = n, dp_free_count = n\<rparr>) } }"

definition ps_db_pool_create :: "sqlite_sys \<Rightarrow> int \<Rightarrow> int \<Rightarrow> ps_db_pool option sq" where
  "ps_db_pool_create S cpus pool_size = do {
     pool \<leftarrow> obtain_res S (R_block ''pool'');
     if \<not> pool then give None
     else do {
       conns \<leftarrow> obtain_res S (R_block ''conns'');
       free_stack \<leftarrow> obtain_res S (R_block ''free_stack'');
       if \<not> conns \<or> \<not> free_stack then do {
         (if conns then let_go (R_block ''conns'') else give ());
         (if free_stack then let_go (R_block ''free_stack'') else give ());
         let_go (R_block ''pool'');
         give None }
       else do {
         lock \<leftarrow> obtain_res S R_mutex;
         if \<not> lock then do { free_arrays; give None }
         else do {
           not_empty \<leftarrow> obtain_res S R_cond;
           if \<not> not_empty then do { let_go R_mutex; free_arrays; give None }
           else fill_pool S (pool_size_of cpus pool_size) } } } }"

definition ps_db_pool_destroy :: "ps_db_pool option \<Rightarrow> unit sq" where
  "ps_db_pool_destroy pool = (case pool of
     None \<Rightarrow> give ()
   | Some p \<Rightarrow> do { close_conns (take (dp_size p) (dp_conns p)); destroy_locks; free_arrays })"

text \<open>
  Taking and returning a connection, under the mutex. \<open>None\<close> is the wait for a free connection, and
  for a return a write past the end of the array.
\<close>

definition pool_acquire :: "ps_db_pool \<Rightarrow> (nat \<times> ps_db_pool) option" where
  "pool_acquire p =
     (if dp_free_count p = 0 then None
      else let n = dp_free_count p - 1 in Some (dp_free_stack p ! n, p\<lparr>dp_free_count := n\<rparr>))"

definition pool_release :: "ps_db_pool \<Rightarrow> nat \<Rightarrow> ps_db_pool option" where
  "pool_release p c =
     (if dp_size p \<le> dp_free_count p then None
      else Some (p\<lparr>dp_free_stack := (dp_free_stack p)[dp_free_count p := c], dp_free_count := dp_free_count p + 1\<rparr>))"


subsection \<open>What the start-up of the pool does\<close>

definition same_file :: "sqlite \<Rightarrow> sqlite \<Rightarrow> bool" where
  "same_file s s' \<longleftrightarrow> sq_versions s' = sq_versions s \<and> sq_db s' = sq_db s \<and> sq_saved s' = sq_saved s"

lemma sq_run_bind:
  "run_state (State_Monad.bind m f) s = (b, s'') \<longleftrightarrow> (\<exists>a s'. run_state m s = (a, s') \<and> run_state (f a) s' = (b, s''))"
  by (auto split: prod.splits)

lemma sq_run_return: "run_state (give a) s = (b, s') \<longleftrightarrow> b = a \<and> s' = s"
  by auto

lemmas sq_run = sq_run_bind sq_run_return

lemma run_attempt: "run_state (attempt S) s = (ok, s') \<Longrightarrow> same_file s s' \<and> sq_held s' = sq_held s \<and> sq_next s' = sq_next s"
  by (auto simp: attempt_def sq_later_def same_file_def)

lemma run_obtain:
  "run_state (obtain_res S r) s = (ok, s') \<Longrightarrow> same_file s s' \<and> sq_next s' = sq_next s \<and>
     sq_held s' = (if ok then add_mset r (sq_held s) else sq_held s)"
  by (auto simp: obtain_res_def attempt_def hold_def sq_later_def same_file_def split: if_splits)

lemma run_let_go: "run_state (let_go r) s = (u, s') \<Longrightarrow> same_file s s' \<and> sq_next s' = sq_next s \<and> sq_held s' = sq_held s - {#r#}"
  by (auto simp: let_go_def same_file_def)

lemma run_configure: "run_state (configure_connection S) s = (ok, s') \<Longrightarrow> same_file s s' \<and> sq_held s' = sq_held s \<and> sq_next s' = sq_next s"
  by (auto simp: configure_connection_def attempt_def sq_later_def same_file_def split: if_splits)

lemma run_open_standalone:
  assumes "run_state (ps_db_open_standalone S) s = (r, s')" and "sq_saved s = None"
  shows "same_file s s' \<and> sq_next s \<le> sq_next s' \<and> (case r of
     None \<Rightarrow> sq_held s' = sq_held s
   | Some c \<Rightarrow> sq_held s' = add_mset (R_conn c) (sq_held s) \<and> sq_next s \<le> c \<and> c < sq_next s')"
  using assms
  by (auto simp: ps_db_open_standalone_def sqlite3_open_v2_def sqlite3_close_def closed_tx_def configure_connection_def attempt_def
      sq_later_def same_file_def Let_def split: if_splits option.splits)

lemma run_close_conns:
  "run_state (close_conns cs) s = (u, s') \<Longrightarrow> sq_held s' = sq_held s - mset (map R_conn cs) \<and> sq_next s' = sq_next s \<and>
     (sq_saved s = None \<longrightarrow> same_file s s') \<and>
     (\<forall>c v d. sq_saved s = Some (c, v, d) \<and> c \<in> set cs \<longrightarrow> sq_versions s' = v \<and> sq_db s' = d \<and> sq_saved s' = None)"
proof (induction cs arbitrary: s)
  case Nil
  then show ?case by (simp add: same_file_def)
next
  case (Cons c cs)
  let ?s1 = "closed_tx c (s\<lparr>sq_held := sq_held s - {#R_conn c#}\<rparr>)"
  from Cons.prems have "run_state (close_conns cs) ?s1 = (u, s')" by (simp add: sqlite3_close_def)
  note IH = Cons.IH [OF this]
  show ?case
  proof (cases "sq_saved s")
    case None
    with IH show ?thesis by (simp add: closed_tx_def same_file_def)
  next
    case (Some t)
    obtain c' v d where t: "t = (c', v, d)" by (cases t)
    with Some IH show ?thesis by (cases "c' = c") (auto simp: closed_tx_def same_file_def)
  qed
qed

lemma run_open_conns:
  assumes "run_state (open_conns S n acc) s = (r, s')" and "sq_saved s = None"
  shows "same_file s s' \<and> (case r of
     None \<Rightarrow> sq_held s' = sq_held s - mset (map R_conn acc)
   | Some cs \<Rightarrow> \<exists>new. cs = acc @ new \<and> length new = n \<and> distinct new \<and> (\<forall>c \<in> set new. sq_next s \<le> c) \<and>
       sq_held s' = sq_held s + mset (map R_conn new))"
  using assms
proof (induction n arbitrary: acc s)
  case 0
  then show ?case by (auto simp: same_file_def)
next
  case (Suc n)
  from Suc.prems(1) obtain conn s1 where o: "run_state (ps_db_open_standalone S) s = (conn, s1)"
    and r: "run_state (case conn of None \<Rightarrow> do { close_conns acc; give None } | Some c \<Rightarrow> open_conns S n (acc @ [c])) s1 = (r, s')"
    by (auto simp: sq_run_bind simp del: run_state_bind)
  note o' = run_open_standalone [OF o Suc.prems(2)]
  then have s1: "sq_saved s1 = None" using Suc.prems(2) by (simp add: same_file_def)
  show ?case
  proof (cases conn)
    case None
    with r obtain u s2 where "run_state (close_conns acc) s1 = (u, s2)" "r = None" "s' = s2"
      by (auto simp: sq_run simp del: run_state_bind)
    with run_close_conns s1 o' None show ?thesis by (fastforce simp: same_file_def)
  next
    case (Some c)
    with r have "run_state (open_conns S n (acc @ [c])) s1 = (r, s')" by simp
    note IH = Suc.IH [OF this s1]
    show ?thesis
    proof (cases r)
      case None
      with IH o' Some show ?thesis by (auto simp: same_file_def)
    next
      case (Some cs)
      with IH obtain new where new: "cs = acc @ c # new" "length new = n" "distinct new" "\<forall>x \<in> set new. sq_next s1 \<le> x"
        "sq_held s' = sq_held s1 + mset (map R_conn new)" by auto
      have c: "sq_held s1 = add_mset (R_conn c) (sq_held s)" "sq_next s \<le> c" "c < sq_next s1" using o' \<open>conn = Some c\<close> by auto
      have "distinct (c # new)" "\<forall>x \<in> set (c # new). sq_next s \<le> x" using new(3,4) c by fastforce+
      with new c Some IH o' show ?thesis by (intro conjI) (auto simp: same_file_def intro!: exI [of _ "c # new"])
    qed
  qed
qed

text \<open>The migration: either it is not needed, or it starts from a file with no tables.\<close>

definition migrated :: "sqlite \<Rightarrow> sqlite \<Rightarrow> bool" where
  "migrated s s' \<longleftrightarrow> sq_saved s' = None \<and>
     ((\<exists>vs. sq_versions s = Some vs \<and> vs \<noteq> [] \<and> 1 \<le> column_int (Max (set vs)) \<and> same_file s s') \<or>
      sq_versions s = None \<and> sq_db s = None \<and> sq_versions s' = Some [1] \<and> sq_db s' = Some schema_001_init)"

lemma run_version:
  assumes "run_state (current_schema_version S) s = (v, s')"
  shows "same_file s s' \<and> sq_held s' = sq_held s \<and>
    (1 \<le> v \<longrightarrow> (\<exists>vs. sq_versions s = Some vs \<and> vs \<noteq> [] \<and> v = column_int (Max (set vs))))"
  using assms
  by (auto simp: current_schema_version_def table_exists_def attempt_def sq_query_def sq_later_def same_file_def split: if_splits option.splits)

lemma run_run_migrations:
  assumes "run_state (run_migrations S c) s = (ok, s')" and "sq_saved s = None"
  shows "sq_held s' = sq_held s \<and> (if ok then migrated s s'
    else same_file s s' \<or> sq_saved s' = Some (c, sq_versions s, sq_db s))"
proof -
  from assms(1) obtain v s1 where v: "run_state (current_schema_version S) s = (v, s1)"
    and r: "run_state (if 1 \<le> v then give True
      else do {
       began \<leftarrow> sq_begin S c;
       if \<not> began then give False
       else do {
         applied \<leftarrow> exec_schema_001_init S;
         if \<not> applied then do { sq_rollback c; give False }
         else sq_commit S } }) s1 = (ok, s')"
    by (auto simp: run_migrations_def sq_run_bind simp del: run_state_bind)
  note v' = run_version [OF v]
  show ?thesis
  proof (cases "1 \<le> v")
    case True
    with r v' assms(2) show ?thesis by (auto simp: migrated_def same_file_def)
  next
    case False
    with r v' assms(2) show ?thesis
      by (auto simp: sq_begin_def exec_schema_001_init_def sq_rollback_def sq_commit_def closed_tx_def sq_later_def same_file_def
        migrated_def split: if_splits)
  qed
qed

abbreviation pool_parts :: "resource multiset" where
  "pool_parts \<equiv> {#R_block ''pool'', R_block ''free_stack'', R_block ''conns'', R_cond, R_mutex#}"

lemma run_teardown:
  "run_state (do { destroy_locks; free_arrays; give x }) s = (r, s') \<Longrightarrow> r = x \<and> same_file s s' \<and>
     sq_held s' = sq_held s - pool_parts"
  by (auto simp: destroy_locks_def free_arrays_def let_go_def same_file_def)

lemma same_file_trans: "same_file s s' \<Longrightarrow> same_file s' s'' \<Longrightarrow> same_file s s''"
  by (simp add: same_file_def)

definition fresh_pool :: "nat \<Rightarrow> ps_db_pool \<Rightarrow> bool" where
  "fresh_pool n p \<longleftrightarrow> length (dp_conns p) = n \<and> distinct (dp_conns p) \<and> dp_free_stack p = dp_conns p \<and> dp_size p = n \<and> dp_free_count p = n"

lemma run_fill_pool:
  assumes run: "run_state (fill_pool S n) s = (r, s')" and saved: "sq_saved s = None" and n: "0 < n"
  shows "case r of
     None \<Rightarrow> same_file s s' \<and> sq_held s' = sq_held s - pool_parts
   | Some p \<Rightarrow> migrated s s' \<and> sq_held s' = sq_held s + mset (map R_conn (dp_conns p)) \<and> fresh_pool n p"
proof -
  from run [unfolded fill_pool_def sq_run_bind] obtain opened s1 where o: "run_state (open_conns S n []) s = (opened, s1)"
    and r1: "run_state (case opened of
       None \<Rightarrow> do { destroy_locks; free_arrays; give None }
     | Some conns \<Rightarrow> do {
         migrated \<leftarrow> run_migrations S (conns ! 0);
         if \<not> migrated then do { close_conns conns; destroy_locks; free_arrays; give None }
         else give (Some \<lparr>dp_conns = conns, dp_free_stack = conns, dp_size = n, dp_free_count = n\<rparr>) }) s1 = (r, s')"
    by (elim exE conjE)
  note o' = run_open_conns [OF o saved]
  show ?thesis
  proof (cases opened)
    case None
    with r1 have "run_state (do { destroy_locks; free_arrays; give None }) s1 = (r, s')" by simp
    from run_teardown [OF this] o' None show ?thesis by (auto intro: same_file_trans)
  next
    case (Some cs)
    with o' have cs: "length cs = n" "distinct cs" "sq_held s1 = sq_held s + mset (map R_conn cs)" and s1: "same_file s s1" by auto
    then have saved1: "sq_saved s1 = None" using saved by (simp add: same_file_def)
    from r1 Some obtain ok s2 where m: "run_state (run_migrations S (cs ! 0)) s1 = (ok, s2)"
      and r2: "run_state (if \<not> ok then do { close_conns cs; destroy_locks; free_arrays; give None }
         else give (Some \<lparr>dp_conns = cs, dp_free_stack = cs, dp_size = n, dp_free_count = n\<rparr>)) s2 = (r, s')"
      by (auto simp: sq_run_bind simp del: run_state_bind)
    note m' = run_run_migrations [OF m saved1]
    show ?thesis
    proof (cases ok)
      case True
      with m' s1 have "migrated s s2" by (auto simp: migrated_def same_file_def)
      with True r2 m' cs show ?thesis by (auto simp: fresh_pool_def)
    next
      case False
      with r2 have "run_state (do { close_conns cs; do { destroy_locks; free_arrays; give None } }) s2 = (r, s')" by simp
      then obtain u s3 where c: "run_state (close_conns cs) s2 = (u, s3)" and t: "run_state (do { destroy_locks; free_arrays; give None }) s3 = (r, s')"
        unfolding sq_run_bind by blast
      have "cs ! 0 \<in> set cs" using cs(1) n by auto
      then have "same_file s1 s3" using run_close_conns [OF c] m' False saved1 by (auto simp: same_file_def)
      then show ?thesis using run_teardown [OF t] run_close_conns [OF c] m' cs s1 by (auto intro: same_file_trans)
    qed
  qed
qed

lemma pool_size_pos: "0 < pool_size_of cpus pool_size"
  by (auto simp: pool_size_of_def)

lemma run_pool_create:
  assumes "run_state (ps_db_pool_create S cpus pool_size) s = (r, s')" and "sq_saved s = None"
  shows "case r of
     None \<Rightarrow> same_file s s' \<and> sq_held s' = sq_held s
   | Some p \<Rightarrow> migrated s s' \<and> sq_held s' = sq_held s + pool_parts + mset (map R_conn (dp_conns p)) \<and> fresh_pool (pool_size_of cpus pool_size) p"
proof -
  let ?n = "pool_size_of cpus pool_size"
  consider "r = None" "same_file s s'" "sq_held s' = sq_held s"
    | s1 where "run_state (fill_pool S ?n) s1 = (r, s')" "same_file s s1" "sq_held s1 = sq_held s + pool_parts"
    using assms(1)
    by (auto simp: ps_db_pool_create_def obtain_res_def attempt_def hold_def let_go_def free_arrays_def sq_later_def same_file_def add_mset_commute
      split: if_splits)
  then show ?thesis
  proof cases
    case 1
    then show ?thesis by simp
  next
    case (2 s1)
    from 2(2) assms(2) have "sq_saved s1 = None" by (simp add: same_file_def)
    from run_fill_pool [OF 2(1) this pool_size_pos] 2(2,3) show ?thesis
      by (cases r) (auto simp: migrated_def same_file_def)
  qed
qed

lemma run_pool_destroy:
  assumes "run_state (ps_db_pool_destroy (Some p)) s = (u, s')" and "sq_saved s = None" and "dp_size p = length (dp_conns p)"
  shows "same_file s s' \<and> sq_held s' = sq_held s - mset (map R_conn (dp_conns p)) - pool_parts"
proof -
  from assms(1,3) obtain u1 s1 where c: "run_state (close_conns (dp_conns p)) s = (u1, s1)"
    and t: "run_state (do { destroy_locks; free_arrays }) s1 = (u, s')"
    by (auto simp: ps_db_pool_destroy_def sq_run_bind simp del: run_state_bind)
  have "same_file s1 s' \<and> sq_held s' = sq_held s1 - pool_parts"
    using t by (auto simp: destroy_locks_def free_arrays_def let_go_def same_file_def)
  with run_close_conns [OF c] assms(2) show ?thesis by (auto intro: same_file_trans)
qed


subsection \<open>Taking and returning connections\<close>

locale lifo =
  fixes ok :: "'p \<Rightarrow> bool"
    and content :: "'p \<Rightarrow> 'c list"
    and room :: "'p \<Rightarrow> nat"
    and take_one :: "'p \<Rightarrow> ('c \<times> 'p) option"
    and put_back :: "'p \<Rightarrow> 'c \<Rightarrow> 'p option"
  assumes take_empty: "ok p \<Longrightarrow> take_one p = None \<longleftrightarrow> content p = []"
    and take_top: "ok p \<Longrightarrow> take_one p = Some (c, p') \<Longrightarrow> ok p' \<and> content p = c # content p' \<and> room p' = room p"
    and put_full: "ok p \<Longrightarrow> put_back p c = None \<longleftrightarrow> room p \<le> length (content p)"
    and put_top: "ok p \<Longrightarrow> put_back p c = Some p' \<Longrightarrow> ok p' \<and> content p' = c # content p \<and> room p' = room p"
begin

text \<open>One client at a time always gets the same connection.\<close>

lemma take_put_take:
  assumes "ok p" and "take_one p = Some (c, p1)" and "put_back p1 c = Some p2"
  shows "\<exists>p3. take_one p2 = Some (c, p3) \<and> content p2 = content p"
proof -
  from take_top [OF assms(1,2)] have p1: "ok p1" "content p = c # content p1" by auto
  from put_top [OF p1(1) assms(3)] p1 have p2: "ok p2" "content p2 = content p" by auto
  then have "take_one p2 \<noteq> None" using take_empty p1(2) by simp
  then obtain c' p3 where t: "take_one p2 = Some (c', p3)" by auto
  with take_top [OF p2(1) t] p2 p1 show ?thesis by auto
qed

text \<open>Clients that hold what they have taken: the pairs of a free list and the elements in use.\<close>

definition shared :: "'c multiset \<Rightarrow> 'p \<Rightarrow> 'c list \<Rightarrow> bool" where
  "shared all p held \<longleftrightarrow> ok p \<and> mset (content p) + mset held = all \<and> room p = size all"

lemma shared_take: "shared all p held \<Longrightarrow> take_one p = Some (c, p') \<Longrightarrow> shared all p' (c # held)"
  using take_top [of p c p'] by (auto simp: shared_def)

lemma shared_put:
  assumes "shared all p held" and "c \<in> set held"
  shows "\<exists>p'. put_back p c = Some p' \<and> shared all p' (remove1 c held)"
proof -
  have "size (mset (content p)) + size (mset held) = room p" using assms(1) by (auto simp: shared_def)
  then have "length (content p) < room p" using assms(2) by (cases held) auto
  then obtain p' where p': "put_back p c = Some p'" using put_full [of p c] assms(1) by (fastforce simp: shared_def)
  moreover have "add_mset c (mset (remove1 c held)) = mset held" using assms(2) by simp
  ultimately show ?thesis using put_top [OF _ p'] assms(1) by (auto simp: shared_def)
qed

lemma shared_wait: "shared all p held \<Longrightarrow> take_one p = None \<Longrightarrow> mset held = all"
  using take_empty [of p] by (auto simp: shared_def)

end

definition db_pool_ok :: "ps_db_pool \<Rightarrow> bool" where
  "db_pool_ok p \<longleftrightarrow> length (dp_free_stack p) = dp_size p \<and> dp_free_count p \<le> dp_size p"

definition free_conns :: "ps_db_pool \<Rightarrow> nat list" where
  "free_conns p = rev (take (dp_free_count p) (dp_free_stack p))"

interpretation pool: lifo db_pool_ok free_conns dp_size pool_acquire pool_release
proof
  fix p p' :: ps_db_pool and c :: nat
  assume ok: "db_pool_ok p"
  show "pool_acquire p = None \<longleftrightarrow> free_conns p = []"
    using ok by (auto simp: pool_acquire_def free_conns_def db_pool_ok_def Let_def)
  show "db_pool_ok p' \<and> free_conns p = c # free_conns p' \<and> dp_size p' = dp_size p" if "pool_acquire p = Some (c, p')"
    using that ok by (cases "dp_free_count p") (auto simp: pool_acquire_def free_conns_def db_pool_ok_def take_Suc_conv_app_nth Let_def)
  show "pool_release p c = None \<longleftrightarrow> dp_size p \<le> length (free_conns p)"
    using ok by (auto simp: pool_release_def free_conns_def db_pool_ok_def)
  show "db_pool_ok p' \<and> free_conns p' = c # free_conns p \<and> dp_size p' = dp_size p" if "pool_release p c = Some p'"
    using that ok by (auto simp: pool_release_def free_conns_def db_pool_ok_def take_Suc_conv_app_nth split: if_splits)
qed


text \<open>The workers of the service: each step takes a connection or returns one that is held.\<close>

inductive pool_step :: "ps_db_pool \<times> nat list \<Rightarrow> ps_db_pool \<times> nat list \<Rightarrow> bool" where
  taken: "pool_acquire p = Some (c, p') \<Longrightarrow> pool_step (p, held) (p', c # held)"
| returned: "c \<in> set held \<Longrightarrow> pool_release p c = Some p' \<Longrightarrow> pool_step (p, held) (p', remove1 c held)"

inductive_cases pool_stepE: "pool_step (p, held) (p', held')"

inductive pool_reach :: "ps_db_pool \<Rightarrow> ps_db_pool \<times> nat list \<Rightarrow> bool" for p0 where
  created: "pool_reach p0 (p0, [])"
| stepped: "pool_reach p0 ph \<Longrightarrow> pool_step ph ph' \<Longrightarrow> pool_reach p0 ph'"

lemma fresh_shared: "fresh_pool n p \<Longrightarrow> pool.shared (mset (dp_conns p)) p []"
  by (auto simp: fresh_pool_def pool.shared_def db_pool_ok_def free_conns_def)

lemma pool_reach_shared:
  assumes "pool_reach p0 ph" and "pool.shared all p0 []"
  shows "pool.shared all (fst ph) (snd ph)"
  using assms
proof (induction)
  case (stepped ph ph')
  from stepped.hyps(2) stepped.IH [OF stepped.prems] show ?case
  proof cases
    case (taken p c p' held)
    then show ?thesis using pool.shared_take stepped.IH [OF stepped.prems] by auto
  next
    case (returned c held p p')
    then show ?thesis using pool.shared_put [of all p held c] stepped.IH [OF stepped.prems] by auto
  qed
qed simp


subsection \<open>Properties\<close>

text \<open>C20. Creating the pool is all or nothing: when it fails, at whatever call, nothing it took is still held
  and the database file is as it was, even if the migration could not be committed; when it succeeds
  the pool has the connections asked for, all free and all different, the schema is there (migrated if
  the file was empty and otherwise untouched), and destroying the pool gives back exactly what it holds.\<close>

theorem pool_create_all_or_nothing:
  assumes "run_state (ps_db_pool_create S cpus pool_size) s = (r, s')" and "sq_saved s = None"
  shows "case r of
     None \<Rightarrow> sq_held s' = sq_held s \<and> same_file s s'
   | Some p \<Rightarrow> migrated s s' \<and> fresh_pool (pool_size_of cpus pool_size) p \<and>
       sq_held (snd (run_state (ps_db_pool_destroy (Some p)) s')) = sq_held s"
proof (cases r)
  case None
  with run_pool_create [OF assms] show ?thesis by simp
next
  case (Some p)
  with run_pool_create [OF assms] have p: "migrated s s'" "sq_held s' = sq_held s + pool_parts + mset (map R_conn (dp_conns p))"
    "fresh_pool (pool_size_of cpus pool_size) p" by auto
  obtain u s2 where d: "run_state (ps_db_pool_destroy (Some p)) s' = (u, s2)" by (metis prod.collapse)
  have "sq_saved s' = None" using p(1) by (simp add: migrated_def)
  from run_pool_destroy [OF d this] p(2,3) have "sq_held s2 = sq_held s" by (simp add: fresh_pool_def)
  with p d Some show ?thesis by simp
qed

definition new_file :: sqlite where
  "new_file = \<lparr>sq_held = {#}, sq_next = 0, sq_versions = None, sq_db = None, sq_saved = None, sq_tick = 0\<rparr>"

lemmas pool_runs = ps_db_pool_create_def obtain_res_def attempt_def hold_def let_go_def sq_later_def new_file_def fill_pool_def
  pool_size_of_def ps_db_open_standalone_def sqlite3_open_v2_def configure_connection_def run_migrations_def current_schema_version_def
  table_exists_def sq_query_def sq_begin_def exec_schema_001_init_def sq_commit_def sqlite3_close_def closed_tx_def
  destroy_locks_def free_arrays_def numeral_2_eq_2 Let_def

theorem pool_create_all_or_nothing_witness:
  "(\<exists>p s'. run_state (ps_db_pool_create \<lparr>ss_fault = (\<lambda>_. False), ss_null = (\<lambda>_. False)\<rparr> 4 2) new_file = (Some p, s') \<and>
      migrated new_file s' \<and> fresh_pool 2 p) \<and>
   (\<exists>s'. run_state (ps_db_pool_create \<lparr>ss_fault = (\<lambda>n. n = 15), ss_null = (\<lambda>_. False)\<rparr> 4 2) new_file = (None, s') \<and>
      sq_held s' = {#} \<and> sq_versions s' = None)"
proof
  let ?S = "\<lparr>ss_fault = (\<lambda>_. False), ss_null = (\<lambda>_. False)\<rparr>"
  obtain r s' where run: "run_state (ps_db_pool_create ?S 4 2) new_file = (r, s')" by (metis prod.collapse)
  have "fst (run_state (ps_db_pool_create ?S 4 2) new_file) \<noteq> None" by (simp add: pool_runs)
  then obtain p where "r = Some p" using run by auto
  with pool_create_all_or_nothing [OF run] run show "\<exists>p s'. run_state (ps_db_pool_create ?S 4 2) new_file = (Some p, s') \<and>
      migrated new_file s' \<and> fresh_pool 2 p" by (auto simp: new_file_def pool_size_of_def)
next
  let ?S = "\<lparr>ss_fault = (\<lambda>n. n = 15), ss_null = (\<lambda>_. False)\<rparr>"
  obtain r s' where run: "run_state (ps_db_pool_create ?S 4 2) new_file = (r, s')" by (metis prod.collapse)
  have "fst (run_state (ps_db_pool_create ?S 4 2) new_file) = None" by (simp add: pool_runs)
  then have "r = None" using run by auto
  with pool_create_all_or_nothing [OF run] run show "\<exists>s'. run_state (ps_db_pool_create ?S 4 2) new_file = (None, s') \<and>
      sq_held s' = {#} \<and> sq_versions s' = None" by (auto simp: new_file_def same_file_def)
qed

text \<open>C19. A connection is never in two hands: in every state that workers reach by taking connections and
  returning those they hold, the connections held and the free ones are together exactly those of the
  pool, each once; a return never writes outside the free list, a worker waits only while all
  connections are held, and a worker that takes right after a return gets the connection just returned.\<close>

theorem pool_connections_exclusive:
  assumes "fresh_pool n p0" and "pool_reach p0 (p, held)"
  shows "distinct (held @ free_conns p) \<and> set (held @ free_conns p) = set (dp_conns p0) \<and>
    (\<forall>c \<in> set held. \<exists>p' p''. pool_release p c = Some p' \<and> pool_acquire p' = Some (c, p'')) \<and>
    (pool_acquire p = None \<longleftrightarrow> length held = n)"
proof -
  have sh: "pool.shared (mset (dp_conns p0)) p held" using pool_reach_shared [OF assms(2) fresh_shared [OF assms(1)]] by simp
  then have ok: "db_pool_ok p" and m: "mset (held @ free_conns p) = mset (dp_conns p0)" by (auto simp: pool.shared_def add.commute)
  have "distinct (held @ free_conns p)" using m assms(1) mset_eq_imp_distinct_iff [OF m] by (simp add: fresh_pool_def)
  moreover have "set (held @ free_conns p) = set (dp_conns p0)" by (rule mset_eq_setD [OF m])
  moreover have "\<exists>p' p''. pool_release p c = Some p' \<and> pool_acquire p' = Some (c, p'')" if c: "c \<in> set held" for c
  proof -
    obtain p' where p': "pool_release p c = Some p'" using pool.shared_put [OF sh c] by blast
    with pool.put_top [OF ok p'] pool.take_empty [of p'] obtain c' p'' where t: "pool_acquire p' = Some (c', p'')" by fastforce
    with pool.take_top [OF _ t] pool.put_top [OF ok p'] p' show ?thesis by (metis list.inject)
  qed
  moreover have "length held + length (free_conns p) = n"
    using mset_eq_length [OF m] assms(1) by (simp add: fresh_pool_def)
  then have "pool_acquire p = None \<longleftrightarrow> length held = n" using pool.take_empty [OF ok] by auto
  ultimately show ?thesis by blast
qed

theorem pool_connections_exclusive_witness:
  "\<exists>p. pool_reach \<lparr>dp_conns = [5, 6], dp_free_stack = [5, 6], dp_size = 2, dp_free_count = 2\<rparr> (p, [5, 6]) \<and> pool_acquire p = None"
proof -
  let ?p0 = "\<lparr>dp_conns = [5, 6], dp_free_stack = [5, 6], dp_size = 2, dp_free_count = 2\<rparr>"
  have f: "fresh_pool 2 ?p0" by (simp add: fresh_pool_def)
  have "pool_reach ?p0 (?p0\<lparr>dp_free_count := 1\<rparr>, [6])"
    by (rule stepped [OF created], rule taken) (simp add: pool_acquire_def)
  then have r: "pool_reach ?p0 (?p0\<lparr>dp_free_count := 0\<rparr>, [5, 6])"
    by (rule stepped, intro taken) (simp add: pool_acquire_def)
  from pool_connections_exclusive [OF f r] r show ?thesis by auto
qed

end
