(* ===== verification/Lifecycle.thy ===== *)
theory Lifecycle
  imports Db_Pool Threadpool Ratelimit Password
begin

text \<open>
  Creating and destroying the long-lived parts of the process, with every allocation, lock and thread that
  can fail: the semaphore of the KDF (\<^verbatim>\<open>src/src/crypto/kdf_semaphore.c\<close>), the rate limiter
  (\<^verbatim>\<open>src/src/platform/ratelimit.c\<close>), the thread pool (\<^verbatim>\<open>src/src/platform/threadpool.c\<close>) and the maintenance thread
  (\<^verbatim>\<open>src/src/platform/maintenance.c\<close>), over the holdings of the process that \<open>Db_Pool\<close> introduces. What a part is once it
  is there, is in the theory of that part; joining a thread that has been told to stop returns.

  \<open>part\<close> is their common contract: creation takes everything or nothing, and destruction gives back what
  creation took. The connection pool satisfies it too. \<open>Startup\<close> composes the parts by this contract only.
\<close>

subsection \<open>The contract\<close>

definition holding :: "resource multiset \<Rightarrow> resource multiset \<Rightarrow> sqlite \<Rightarrow> bool" where
  "holding H K s \<longleftrightarrow> sq_saved s = None \<and> sq_held s = H + K"

locale part =
  fixes create :: "'c sq"
    and made :: "'c \<Rightarrow> 'r option"
    and destroy :: "'r \<Rightarrow> unit sq"
    and ok :: "'r \<Rightarrow> bool"
    and parts :: "'r \<Rightarrow> resource multiset"
  assumes refused: "sq_saved s = None \<Longrightarrow> run_state create s = (c, s') \<Longrightarrow> made c = None \<Longrightarrow> sq_saved s' = None \<and> sq_held s' = sq_held s"
    and taken: "sq_saved s = None \<Longrightarrow> run_state create s = (c, s') \<Longrightarrow> made c = Some r \<Longrightarrow>
      sq_saved s' = None \<and> ok r \<and> sq_held s' = sq_held s + parts r"
    and given: "sq_saved s = None \<Longrightarrow> ok r \<Longrightarrow> run_state (destroy r) s = (u, s') \<Longrightarrow> sq_saved s' = None \<and> sq_held s' = sq_held s - parts r"
begin

text \<open>Seen from a process that holds \<open>K\<close> more than it had: a part adds what it is made of, or nothing, and takes it away.\<close>

lemma holding_refused: "holding H K s \<Longrightarrow> run_state create s = (c, s') \<Longrightarrow> made c = None \<Longrightarrow> holding H K s'"
  using refused [of s c s'] by (simp add: holding_def)

lemma holding_taken: "holding H K s \<Longrightarrow> run_state create s = (c, s') \<Longrightarrow> made c = Some r \<Longrightarrow> holding H (K + parts r) s' \<and> ok r"
  using taken [of s c s' r] by (simp add: holding_def ac_simps)

lemma holding_given: "holding H (K + parts r) s \<Longrightarrow> ok r \<Longrightarrow> run_state (destroy r) s = (u, s') \<Longrightarrow> holding H K s'"
  using given [of s r u s'] by (simp add: holding_def)

end

definition right_of :: "'a + 'b \<Rightarrow> 'b option" where
  "right_of x = (case x of Inl _ \<Rightarrow> None | Inr y \<Rightarrow> Some y)"

lemma right_of_simps [simp]: "right_of (Inl a) = None" "right_of (Inr b) = Some b"
  by (simp_all add: right_of_def)


subsection \<open>The semaphore\<close>

definition ps_kdf_semaphore_create_res :: "sqlite_sys \<Rightarrow> int \<Rightarrow> int \<Rightarrow> (bytes + nat) sq" where
  "ps_kdf_semaphore_create_res S n nprocs = do {
     block \<leftarrow> obtain_res S (R_block ''kdf_semaphore'');
     if \<not> block then give (Inl ''out of memory'')
     else do {
       sem \<leftarrow> obtain_res S R_sem;
       if \<not> sem then do { let_go (R_block ''kdf_semaphore''); give (Inl ''sem_init failed'') }
       else give (Inr (ps_kdf_semaphore_create n nprocs)) } }"

definition ps_kdf_semaphore_destroy :: "unit sq" where
  "ps_kdf_semaphore_destroy = do { let_go R_sem; let_go (R_block ''kdf_semaphore'') }"

abbreviation kdf_parts :: "resource multiset" where
  "kdf_parts \<equiv> {#R_block ''kdf_semaphore'', R_sem#}"


subsection \<open>The rate limiter\<close>

primrec destroy_shards :: "nat \<Rightarrow> unit sq" where
  "destroy_shards 0 = give ()"
| "destroy_shards (Suc n) = do { let_go R_mutex; let_go (R_block ''slots''); destroy_shards n }"

definition destroy_partial :: "nat \<Rightarrow> unit sq" where
  "destroy_partial initialized_shards = do { destroy_shards initialized_shards; let_go (R_block ''ratelimiter'') }"

primrec init_shards :: "sqlite_sys \<Rightarrow> nat \<Rightarrow> nat \<Rightarrow> (bytes + unit) sq" where
  "init_shards S 0 i = give (Inr ())"
| "init_shards S (Suc n) i = do {
     lock \<leftarrow> obtain_res S R_mutex;
     if \<not> lock then do { destroy_partial i; give (Inl ''pthread_mutex_init failed'') }
     else do {
       slots \<leftarrow> obtain_res S (R_block ''slots'');
       if \<not> slots then do { let_go R_mutex; destroy_partial i; give (Inl ''out of memory'') }
       else init_shards S n (Suc i) } }"

definition ps_ratelimiter_create_res :: "sqlite_sys \<Rightarrow> int \<Rightarrow> (bytes + ps_ratelimiter_t) sq" where
  "ps_ratelimiter_create_res S max_entries = do {
     rl \<leftarrow> obtain_res S (R_block ''ratelimiter'');
     if \<not> rl then give (Inl ''out of memory'')
     else do {
       r \<leftarrow> init_shards S PS_RATELIMIT_SHARDS 0;
       give (case r of Inl e \<Rightarrow> Inl e | Inr _ \<Rightarrow> Inr (ps_ratelimiter_create max_entries)) } }"

definition ps_ratelimiter_destroy :: "unit sq" where
  "ps_ratelimiter_destroy = do { destroy_shards PS_RATELIMIT_SHARDS; let_go (R_block ''ratelimiter'') }"

definition shard_parts :: "nat \<Rightarrow> resource multiset" where
  "shard_parts n = replicate_mset n R_mutex + replicate_mset n (R_block ''slots'')"

definition limiter_parts :: "resource multiset" where
  "limiter_parts = add_mset (R_block ''ratelimiter'') (shard_parts PS_RATELIMIT_SHARDS)"


subsection \<open>The thread pool\<close>

primrec start_workers :: "sqlite_sys \<Rightarrow> nat \<Rightarrow> nat \<Rightarrow> nat option sq" where
  "start_workers S 0 i = give None"
| "start_workers S (Suc n) i = do {
     started \<leftarrow> obtain_res S (R_thread ''worker'' i);
     if \<not> started then give (Some i) else start_workers S n (Suc i) }"

primrec join_workers :: "nat \<Rightarrow> unit sq" where
  "join_workers 0 = give ()"
| "join_workers (Suc n) = do { join_workers n; let_go (R_thread ''worker'' n) }"

definition free_pool :: "unit sq" where
  "free_pool = do { let_go (R_block ''ring''); let_go (R_block ''workers''); let_go (R_block ''threadpool'') }"

definition start_pool :: "sqlite_sys \<Rightarrow> 'j tp_state \<Rightarrow> (bytes + 'j tp_state) sq" where
  "start_pool S pool = do {
     failed \<leftarrow> start_workers S (length (tp_workers pool)) 0;
     case failed of
       None \<Rightarrow> give (Inr pool)
     | Some i \<Rightarrow> do {
         join_workers i; let_go R_mutex; let_go R_cond; free_pool;
         give (Inl (''pthread_create failed at worker '' @ show_nat i)) } }"

definition threadpool_init :: "sqlite_sys \<Rightarrow> 'j tp_state \<Rightarrow> (bytes + 'j tp_state) sq" where
  "threadpool_init S pool = do {
     lock \<leftarrow> obtain_res S R_mutex;
     if \<not> lock then do { free_pool; give (Inl ''pthread_mutex_init failed'') }
     else do {
       not_empty \<leftarrow> obtain_res S R_cond;
       if \<not> not_empty then do { let_go R_mutex; free_pool; give (Inl ''pthread_cond_init failed'') }
       else start_pool S pool } }"

definition ps_threadpool_create_res :: "sqlite_sys \<Rightarrow> int \<Rightarrow> int \<Rightarrow> int \<Rightarrow> 'j \<Rightarrow> (bytes + 'j tp_state) sq" where
  "ps_threadpool_create_res S n_workers queue_capacity nprocs j0 =
     (case ps_threadpool_create n_workers queue_capacity nprocs j0 of
        Inl e \<Rightarrow> give (Inl e)
      | Inr pool \<Rightarrow> do {
          block \<leftarrow> obtain_res S (R_block ''threadpool'');
          if \<not> block then give (Inl ''out of memory'')
          else do {
            ring \<leftarrow> obtain_res S (R_block ''ring'');
            workers \<leftarrow> obtain_res S (R_block ''workers'');
            if \<not> ring \<or> \<not> workers then do {
              (if ring then let_go (R_block ''ring'') else give ());
              (if workers then let_go (R_block ''workers'') else give ());
              let_go (R_block ''threadpool'');
              give (Inl ''out of memory'') }
            else threadpool_init S pool } })"

definition ps_threadpool_destroy :: "nat \<Rightarrow> unit sq" where
  "ps_threadpool_destroy n_workers = do { join_workers n_workers; let_go R_mutex; let_go R_cond; free_pool }"

definition worker_parts :: "nat \<Rightarrow> nat \<Rightarrow> resource multiset" where
  "worker_parts i n = mset (map (R_thread ''worker'') [i..<i + n])"

abbreviation pool_blocks :: "resource multiset" where
  "pool_blocks \<equiv> {#R_block ''threadpool'', R_block ''workers'', R_block ''ring''#}"

definition threadpool_parts :: "nat \<Rightarrow> resource multiset" where
  "threadpool_parts n = worker_parts 0 n + {#R_cond, R_mutex#} + pool_blocks"


subsection \<open>The maintenance thread\<close>

definition ps_maintenance_start :: "sqlite_sys \<Rightarrow> nat option sq" where
  "ps_maintenance_start S = do {
     m \<leftarrow> obtain_res S (R_block ''maintenance'');
     if \<not> m then give None
     else do {
       conn \<leftarrow> ps_db_open_standalone S;
       case conn of
         None \<Rightarrow> do { let_go (R_block ''maintenance''); give None }
       | Some c \<Rightarrow> do {
           lock \<leftarrow> obtain_res S R_mutex;
           if \<not> lock then do { sqlite3_close (Some c); let_go (R_block ''maintenance''); give None }
           else do {
             attr \<leftarrow> attempt S;
             clock \<leftarrow> (if attr then attempt S else give False);
             cond \<leftarrow> (if clock then obtain_res S R_cond else give False);
             if \<not> cond then do { let_go R_mutex; sqlite3_close (Some c); let_go (R_block ''maintenance''); give None }
             else do {
               thread \<leftarrow> obtain_res S (R_thread ''maintenance'' 0);
               if \<not> thread then do {
                 let_go R_mutex; let_go R_cond; sqlite3_close (Some c); let_go (R_block ''maintenance''); give None }
               else give (Some c) } } } } }"

definition ps_maintenance_stop :: "nat option \<Rightarrow> unit sq" where
  "ps_maintenance_stop m = (case m of
     None \<Rightarrow> give ()
   | Some c \<Rightarrow> do {
       let_go (R_thread ''maintenance'' 0); let_go R_mutex; let_go R_cond; sqlite3_close (Some c); let_go (R_block ''maintenance'') })"

definition maintenance_parts :: "nat \<Rightarrow> resource multiset" where
  "maintenance_parts c = {#R_block ''maintenance'', R_conn c, R_cond, R_mutex, R_thread ''maintenance'' 0#}"


subsection \<open>The parts satisfy the contract\<close>

lemmas holding_defs = obtain_res_def attempt_def hold_def let_go_def sq_later_def

interpretation kdf: part "ps_kdf_semaphore_create_res S n nprocs" right_of "\<lambda>_. ps_kdf_semaphore_destroy" "\<lambda>_. True" "\<lambda>_. kdf_parts"
  for S n nprocs
  by unfold_locales
    (auto simp: ps_kdf_semaphore_create_res_def ps_kdf_semaphore_destroy_def holding_defs add_mset_commute [of R_sem] split: if_splits)

text \<open>The shards: the loop has taken \<open>i\<close> of them when it is entered, and gives those back when it fails.\<close>

lemma run_destroy_shards: "run_state (destroy_shards n) s = (u, s') \<Longrightarrow> sq_saved s' = sq_saved s \<and> sq_held s' = sq_held s - shard_parts n"
proof (induction n arbitrary: s)
  case (Suc n)
  then have "run_state (destroy_shards n) (s\<lparr>sq_held := sq_held s - {#R_mutex#} - {#R_block ''slots''#}\<rparr>) = (u, s')" by (simp add: let_go_def)
  from Suc.IH [OF this] show ?case by (simp add: shard_parts_def)
qed (simp add: shard_parts_def)

lemma run_destroy_partial:
  "run_state (destroy_partial n) s = (u, s') \<Longrightarrow> sq_saved s' = sq_saved s \<and> sq_held s' = sq_held s - shard_parts n - {#R_block ''ratelimiter''#}"
  by (cases "run_state (destroy_shards n) s") (auto simp: destroy_partial_def let_go_def dest: run_destroy_shards)

lemma shard_parts_Suc: "shard_parts (Suc n) = shard_parts n + {#R_mutex, R_block ''slots''#}"
  by (simp add: shard_parts_def)

lemma run_init_shards:
  assumes "run_state (init_shards S n i) s = (r, s')" and "sq_held s = K + shard_parts i + {#R_block ''ratelimiter''#}"
  shows "sq_saved s' = sq_saved s \<and> sq_held s' = (case r of Inl e \<Rightarrow> K | Inr _ \<Rightarrow> K + shard_parts (i + n) + {#R_block ''ratelimiter''#})"
  using assms
proof (induction n arbitrary: i s)
  case 0
  then show ?case by (cases r) auto
next
  case (Suc n)
  from Suc.prems(1) obtain lock s1 where l: "run_state (obtain_res S R_mutex) s = (lock, s1)"
    and r: "run_state (if \<not> lock then do { destroy_partial i; give (Inl ''pthread_mutex_init failed'') }
     else do {
       slots \<leftarrow> obtain_res S (R_block ''slots'');
       if \<not> slots then do { let_go R_mutex; destroy_partial i; give (Inl ''out of memory'') }
       else init_shards S n (Suc i) }) s1 = (r, s')"
    by (auto simp: sq_run_bind simp del: run_state_bind)
  note l' = run_obtain [OF l]
  show ?case
  proof (cases lock)
    case False
    with r l' Suc.prems(2) show ?thesis
      by (cases "run_state (destroy_partial i) s1") (auto simp: same_file_def dest!: run_destroy_partial)
  next
    case True
    with r obtain slots s2 where o: "run_state (obtain_res S (R_block ''slots'')) s1 = (slots, s2)"
      and r2: "run_state (if \<not> slots then do { let_go R_mutex; destroy_partial i; give (Inl ''out of memory'') }
       else init_shards S n (Suc i)) s2 = (r, s')"
      by (auto simp: sq_run_bind simp del: run_state_bind)
    note o' = run_obtain [OF o]
    show ?thesis
    proof (cases slots)
      case False
      with r2 True l' o' Suc.prems(2) show ?thesis
        by (cases "run_state (destroy_partial i) (s2\<lparr>sq_held := sq_held s2 - {#R_mutex#}\<rparr>)")
          (auto simp: same_file_def let_go_def dest!: run_destroy_partial)
    next
      case slots: True
      with True l' o' Suc.prems(2) have "sq_held s2 = K + shard_parts (Suc i) + {#R_block ''ratelimiter''#}" "sq_saved s2 = sq_saved s"
        by (simp_all add: shard_parts_Suc same_file_def)
      with Suc.IH [of "Suc i" s2] r2 slots show ?thesis by (cases r) simp_all
    qed
  qed
qed

interpretation limiter: part "ps_ratelimiter_create_res S max_entries" right_of "\<lambda>_. ps_ratelimiter_destroy" "\<lambda>_. True" "\<lambda>_. limiter_parts"
  for S max_entries
proof -
  have create: "sq_saved s' = sq_saved s \<and> sq_held s' = (case right_of c of None \<Rightarrow> sq_held s | Some _ \<Rightarrow> sq_held s + limiter_parts)"
    if "run_state (ps_ratelimiter_create_res S max_entries) s = (c, s')" for s c s'
  proof -
    from that obtain rl s1 where o: "run_state (obtain_res S (R_block ''ratelimiter'')) s = (rl, s1)"
      and r: "run_state (if \<not> rl then give (Inl ''out of memory'')
         else do {
           r \<leftarrow> init_shards S PS_RATELIMIT_SHARDS 0;
           give (case r of Inl e \<Rightarrow> Inl e | Inr _ \<Rightarrow> Inr (ps_ratelimiter_create max_entries)) }) s1 = (c, s')"
      unfolding ps_ratelimiter_create_res_def sq_run_bind by blast
    note o' = run_obtain [OF o]
    show ?thesis
    proof (cases rl)
      case True
      with r obtain x where i: "run_state (init_shards S PS_RATELIMIT_SHARDS 0) s1 = (x, s')"
        and c: "c = (case x of Inl e \<Rightarrow> Inl e | Inr _ \<Rightarrow> Inr (ps_ratelimiter_create max_entries))"
        by (auto simp: sq_run simp del: run_state_bind)
      have "sq_held s1 = sq_held s + shard_parts 0 + {#R_block ''ratelimiter''#}" using o' True by (simp add: shard_parts_def)
      from run_init_shards [OF i this] o' c show ?thesis by (auto simp: limiter_parts_def same_file_def split: sum.splits)
    qed (use r o' in \<open>auto simp: same_file_def\<close>)
  qed
  have destroy: "sq_saved s' = sq_saved s \<and> sq_held s' = sq_held s - limiter_parts" if "run_state ps_ratelimiter_destroy s = (u, s')" for s u s'
    using that run_destroy_partial [of PS_RATELIMIT_SHARDS s u s']
    by (simp add: ps_ratelimiter_destroy_def destroy_partial_def limiter_parts_def)
  show "part (ps_ratelimiter_create_res S max_entries) right_of (\<lambda>_. ps_ratelimiter_destroy) (\<lambda>_. True) (\<lambda>_. limiter_parts)"
    by unfold_locales (use create destroy in fastforce)+
qed

text \<open>The workers: those started before a failure are exactly those joined.\<close>

lemma worker_parts_Suc: "worker_parts i (Suc n) = add_mset (R_thread ''worker'' i) (worker_parts (Suc i) n)"
  by (simp add: worker_parts_def upt_conv_Cons del: upt_Suc)

lemma worker_parts_snoc: "worker_parts 0 (Suc n) = add_mset (R_thread ''worker'' n) (worker_parts 0 n)"
  by (simp add: worker_parts_def)

lemma run_start_workers:
  "run_state (start_workers S n i) s = (r, s') \<Longrightarrow> sq_saved s' = sq_saved s \<and>
     (case r of None \<Rightarrow> sq_held s' = sq_held s + worker_parts i n
      | Some k \<Rightarrow> i \<le> k \<and> sq_held s' = sq_held s + worker_parts i (k - i))"
proof (induction n arbitrary: i s)
  case 0
  then show ?case by (auto simp: worker_parts_def)
next
  case (Suc n)
  obtain ok s1 where o: "run_state (obtain_res S (R_thread ''worker'' i)) s = (ok, s1)" by (metis prod.collapse)
  note o' = run_obtain [OF o]
  show ?case
  proof (cases ok)
    case False
    with Suc.prems o o' show ?thesis by (auto simp: worker_parts_def same_file_def)
  next
    case True
    with Suc.prems o have "run_state (start_workers S n (Suc i)) s1 = (r, s')" by simp
    note IH = Suc.IH [OF this]
    show ?thesis
    proof (cases r)
      case None
      with IH o' True show ?thesis by (simp add: worker_parts_Suc same_file_def)
    next
      case (Some k)
      with IH have "Suc i \<le> k" by simp
      then have "k - i = Suc (k - Suc i)" by simp
      with IH o' True Some show ?thesis by (simp add: worker_parts_Suc same_file_def)
    qed
  qed
qed

lemma run_join_workers: "run_state (join_workers n) s = (u, s') \<Longrightarrow> sq_saved s' = sq_saved s \<and> sq_held s' = sq_held s - worker_parts 0 n"
proof (induction n arbitrary: u s')
  case (Suc n)
  obtain u1 s1 where j: "run_state (join_workers n) s = (u1, s1)" by (metis prod.collapse)
  with Suc.prems have "s' = s1\<lparr>sq_held := sq_held s1 - {#R_thread ''worker'' n#}\<rparr>" by (simp add: let_go_def)
  with Suc.IH [OF j] show ?case by (simp add: worker_parts_snoc)
qed (simp add: worker_parts_def)

lemma run_pool_teardown:
  "run_state (do { join_workers n; let_go R_mutex; let_go R_cond; free_pool; give x }) s = (r, s') \<Longrightarrow>
     r = x \<and> sq_saved s' = sq_saved s \<and> sq_held s' = sq_held s - threadpool_parts n"
proof -
  assume run: "run_state (do { join_workers n; let_go R_mutex; let_go R_cond; free_pool; give x }) s = (r, s')"
  obtain u s1 where j: "run_state (join_workers n) s = (u, s1)" by (metis prod.collapse)
  have "r = x \<and> s' = s1\<lparr>sq_held := sq_held s1 - {#R_mutex#} - {#R_cond#} - pool_blocks\<rparr>"
    using run j by (simp add: free_pool_def let_go_def)
  with run_join_workers [OF j] show "r = x \<and> sq_saved s' = sq_saved s \<and> sq_held s' = sq_held s - threadpool_parts n"
    by (simp add: threadpool_parts_def)
qed

lemma run_start_pool:
  assumes "run_state (start_pool S pool) s = (c, s')" and "sq_held s = K + {#R_cond, R_mutex#} + pool_blocks"
  shows "sq_saved s' = sq_saved s \<and> (case c of Inl e \<Rightarrow> sq_held s' = K | Inr p \<Rightarrow> p = pool \<and> sq_held s' = K + threadpool_parts (length (tp_workers pool)))"
proof -
  from assms(1) obtain failed s1 where w: "run_state (start_workers S (length (tp_workers pool)) 0) s = (failed, s1)"
    and r: "run_state (case failed of None \<Rightarrow> give (Inr pool) | Some i \<Rightarrow> do { join_workers i; let_go R_mutex; let_go R_cond; free_pool;
         give (Inl (''pthread_create failed at worker '' @ show_nat i)) }) s1 = (c, s')"
    unfolding start_pool_def sq_run_bind by blast
  note w' = run_start_workers [OF w]
  show ?thesis
  proof (cases failed)
    case None
    with r w' assms(2) show ?thesis by (auto simp: threadpool_parts_def)
  next
    case (Some i)
    with w' assms(2) have "sq_held s1 = K + threadpool_parts i" by (simp add: threadpool_parts_def)
    moreover from r Some have "run_state (do { join_workers i; let_go R_mutex; let_go R_cond; free_pool;
         give (Inl (''pthread_create failed at worker '' @ show_nat i)) }) s1 = (c, s')" by simp
    ultimately show ?thesis using w' run_pool_teardown by fastforce
  qed
qed

lemma run_threadpool_init:
  assumes "run_state (threadpool_init S pool) s = (c, s')" and "sq_held s = K + pool_blocks"
  shows "sq_saved s' = sq_saved s \<and> (case c of Inl e \<Rightarrow> sq_held s' = K | Inr p \<Rightarrow> p = pool \<and> sq_held s' = K + threadpool_parts (length (tp_workers pool)))"
proof -
  consider e where "c = Inl e" "sq_saved s' = sq_saved s" "sq_held s' = K"
    | s1 where "run_state (start_pool S pool) s1 = (c, s')" "sq_saved s1 = sq_saved s" "sq_held s1 = K + {#R_cond, R_mutex#} + pool_blocks"
    using assms by (auto simp: threadpool_init_def holding_defs free_pool_def split: if_splits)
  then show ?thesis
  proof cases
    case (2 s1)
    with run_start_pool [OF 2(1,3)] show ?thesis by simp
  qed simp
qed

lemma run_threadpool_destroy:
  "run_state (ps_threadpool_destroy n) s = (u, s') \<Longrightarrow> sq_saved s' = sq_saved s \<and> sq_held s' = sq_held s - threadpool_parts n"
  using run_pool_teardown [of n u s u s'] by (simp add: ps_threadpool_destroy_def)

interpretation workers: part "ps_threadpool_create_res S n_workers queue_capacity nprocs j0" right_of "\<lambda>p. ps_threadpool_destroy (length (tp_workers p))"
  "\<lambda>_. True" "\<lambda>p. threadpool_parts (length (tp_workers p))"
  for S n_workers queue_capacity nprocs j0
proof -
  have create: "sq_saved s' = sq_saved s \<and>
      sq_held s' = (case right_of c of None \<Rightarrow> sq_held s | Some p \<Rightarrow> sq_held s + threadpool_parts (length (tp_workers p)))"
    if run: "run_state (ps_threadpool_create_res S n_workers queue_capacity nprocs j0) s = (c, s')" for s s' :: sqlite and c :: "bytes + 'a tp_state"
  proof (cases "ps_threadpool_create n_workers queue_capacity nprocs j0")
    case (Inl e)
    with run have "c = Inl e" "s' = s" by (simp_all add: ps_threadpool_create_res_def)
    then show ?thesis by simp
  next
    case (Inr pool)
    then consider e where "c = Inl e" "sq_saved s' = sq_saved s" "sq_held s' = sq_held s"
      | s1 where "run_state (threadpool_init S pool) s1 = (c, s')" "sq_saved s1 = sq_saved s"
          "sq_held s1 = add_mset (R_block ''workers'') (add_mset (R_block ''ring'') (add_mset (R_block ''threadpool'') (sq_held s)))"
      using run by (auto simp: ps_threadpool_create_res_def holding_defs split: if_splits)
    then show ?thesis
    proof cases
      case (2 s1)
      then have "sq_held s1 = sq_held s + pool_blocks" by (simp add: add_mset_commute)
      with 2 run_threadpool_init [OF 2(1) this] show ?thesis by (cases c) auto
    qed simp
  qed
  show "part (ps_threadpool_create_res S n_workers queue_capacity nprocs j0) right_of (\<lambda>p. ps_threadpool_destroy (length (tp_workers p)))
      (\<lambda>_. True) (\<lambda>p. threadpool_parts (length (tp_workers p)))"
    by unfold_locales (use create run_threadpool_destroy in fastforce)+
qed

interpretation db_pool: part "ps_db_pool_create S cpus pool_size" "\<lambda>p. p" "\<lambda>p. ps_db_pool_destroy (Some p)" "\<lambda>p. dp_size p = length (dp_conns p)"
  "\<lambda>p. pool_parts + mset (map R_conn (dp_conns p))"
  for S cpus pool_size
proof
  fix s s' :: sqlite and c :: "ps_db_pool option" and r :: ps_db_pool and u :: unit
  assume s: "sq_saved s = None"
  show "sq_saved s' = None \<and> sq_held s' = sq_held s" if "run_state (ps_db_pool_create S cpus pool_size) s = (c, s')" "c = None"
    using run_pool_create [OF that(1) s] that(2) s by (simp add: same_file_def)
  show "sq_saved s' = None \<and> dp_size r = length (dp_conns r) \<and> sq_held s' = sq_held s + (pool_parts + mset (map R_conn (dp_conns r)))"
    if "run_state (ps_db_pool_create S cpus pool_size) s = (c, s')" "c = Some r"
    using run_pool_create [OF that(1) s] that(2) by (auto simp: migrated_def fresh_pool_def)
  show "sq_saved s' = None \<and> sq_held s' = sq_held s - (pool_parts + mset (map R_conn (dp_conns r)))"
    if "dp_size r = length (dp_conns r)" "run_state (ps_db_pool_destroy (Some r)) s = (u, s')"
    using run_pool_destroy [OF that(2) s that(1)] s by (simp add: same_file_def)
qed

text \<open>The thread: its connection is its own.\<close>

lemma run_maintenance_start:
  assumes "run_state (ps_maintenance_start S) s = (r, s')" and "sq_saved s = None"
  shows "sq_saved s' = None \<and> sq_held s' = sq_held s + (case r of None \<Rightarrow> {#} | Some c \<Rightarrow> maintenance_parts c)"
proof -
  obtain m s1 where m: "run_state (obtain_res S (R_block ''maintenance'')) s = (m, s1)" by (metis prod.collapse)
  note m' = run_obtain [OF m]
  show ?thesis
  proof (cases m)
    case False
    with assms m m' show ?thesis by (auto simp: ps_maintenance_start_def same_file_def)
  next
    case True
    obtain conn s2 where c: "run_state (ps_db_open_standalone S) s1 = (conn, s2)" by (metis prod.collapse)
    have "sq_saved s1 = None" using m' assms(2) by (simp add: same_file_def)
    note o = run_open_standalone [OF c this]
    then have s2: "sq_saved s2 = None" using \<open>sq_saved s1 = None\<close> by (simp add: same_file_def)
    show ?thesis
    proof (cases conn)
      case None
      with True assms(1) m c o m' s2 show ?thesis by (auto simp: ps_maintenance_start_def let_go_def)
    next
      case (Some h)
      with o m' True have "sq_held s2 = add_mset (R_conn h) (add_mset (R_block ''maintenance'') (sq_held s))" by simp
      with True Some assms(1) m c s2 show ?thesis
        by (auto simp: ps_maintenance_start_def sqlite3_close_def closed_tx_def holding_defs maintenance_parts_def split: if_splits)
    qed
  qed
qed

interpretation sweeper: part "ps_maintenance_start S" "\<lambda>m. m" "\<lambda>c. ps_maintenance_stop (Some c)" "\<lambda>_. True" maintenance_parts
  for S
proof
  fix s s' :: sqlite and c :: "nat option" and r :: nat and u :: unit
  assume s: "sq_saved s = None"
  show "sq_saved s' = None \<and> sq_held s' = sq_held s" if "run_state (ps_maintenance_start S) s = (c, s')" "c = None"
    using run_maintenance_start [OF that(1) s] that(2) by simp
  show "sq_saved s' = None \<and> True \<and> sq_held s' = sq_held s + maintenance_parts r" if "run_state (ps_maintenance_start S) s = (c, s')" "c = Some r"
    using run_maintenance_start [OF that(1) s] that(2) by simp
  show "sq_saved s' = None \<and> sq_held s' = sq_held s - maintenance_parts r" if "run_state (ps_maintenance_stop (Some r)) s = (u, s')"
    using that s by (auto simp: ps_maintenance_stop_def let_go_def sqlite3_close_def closed_tx_def maintenance_parts_def)
qed

end
