(* ===== verification/Listener.thy ===== *)
theory Listener
  imports Threadpool Auth_Common "HOL-Library.Multiset"
begin

text \<open>
  The listening socket (\<^verbatim>\<open>src/src/platform/net.c\<close>, \<^verbatim>\<open>net.h\<close>) and the server around it (\<^verbatim>\<open>src/src/server.c\<close>,
  \<^verbatim>\<open>server.h\<close>). The kernel is a table of open descriptors; a call that makes a descriptor gives the
  lowest free one or fails, as a parameter decides. What \<^verbatim>\<open>poll\<close> and \<^verbatim>\<open>accept4\<close> report to a call of
  \<open>ps_listener_accept\<close> is a list of events. Address parsing and printing (\<^verbatim>\<open>inet_pton\<close>, \<^verbatim>\<open>getnameinfo\<close>)
  are parameters.

  The acceptor thread, the workers of the pool and the thread that shuts the server down interleave as
  the steps of \<open>server_step\<close>.
\<close>

datatype ps_accept_result_t = PS_ACCEPT_OK | PS_ACCEPT_SHUTDOWN | PS_ACCEPT_ERROR

datatype af = AF_INET | AF_INET6

datatype errno = EINTR | EAGAIN | ECONNABORTED | EPROTO | EMFILE | ENFILE | ENOBUFS | ENOMEM | E_other

record ps_listener_t =
  listen_fd :: int
  shutdown_fd :: int
  stopping :: bool

definition PS_PEER_MAX :: nat where "PS_PEER_MAX = 64"


subsection \<open>Addresses\<close>

definition build_bind_addr :: "(bytes \<Rightarrow> bool) \<Rightarrow> (bytes \<Rightarrow> bool) \<Rightarrow> bytes \<Rightarrow> nat \<Rightarrow> bytes + af \<times> bytes \<times> nat" where
  "build_bind_addr pton4 pton6 bind_addr port =
     (if pton4 (cstr bind_addr) then Inr (AF_INET, cstr bind_addr, port)
      else if pton6 (cstr bind_addr) then Inr (AF_INET6, cstr bind_addr, port)
      else Inl ([CHR 0x27] @ cstr bind_addr @ [CHR 0x27] @
        '' is not a numeric IPv4/IPv6 address; hostnames are deliberately not resolved''))"

text \<open>\<open>names\<close> is what \<^verbatim>\<open>getnameinfo\<close> yields: the numeric host and service, or a failure.\<close>

definition format_peer :: "af \<Rightarrow> (bytes \<times> bytes) option \<Rightarrow> nat \<Rightarrow> bytes" where
  "format_peer family names peerlen = take (peerlen - 1)
     (case names of
        None \<Rightarrow> ''unknown''
      | Some (host, serv) \<Rightarrow>
          if family = AF_INET6 then ''['' @ cstr host @ '']:'' @ cstr serv else cstr host @ '':'' @ cstr serv)"


subsection \<open>Descriptors\<close>

record kernel =
  k_open :: "int list"
  k_tick :: nat

type_synonym 'a kio = "(kernel, 'a) state"

abbreviation kret :: "'a \<Rightarrow> 'a kio" where "kret \<equiv> State_Monad.return"

definition lowest_free :: "int list \<Rightarrow> int" where
  "lowest_free open_fds = int (the (List.find (\<lambda>n. int n \<notin> set open_fds) [0..<Suc (length open_fds)]))"

definition k_later :: "kernel \<Rightarrow> kernel" where
  "k_later k = k\<lparr>k_tick := k_tick k + 1\<rparr>"

definition k_call :: "(nat \<Rightarrow> bool) \<Rightarrow> bool kio" where
  "k_call fails = State (\<lambda>k. (\<not> fails (k_tick k), k_later k))"

definition k_new_fd :: "(nat \<Rightarrow> bool) \<Rightarrow> int kio" where
  "k_new_fd fails = State (\<lambda>k. if fails (k_tick k) then (- 1, k_later k)
     else let fd = lowest_free (k_open k) in (fd, k_later (k\<lparr>k_open := fd # k_open k\<rparr>)))"

definition k_close :: "int \<Rightarrow> unit kio" where
  "k_close fd = State (\<lambda>k. ((), k\<lparr>k_open := removeAll fd (k_open k)\<rparr>))"

text \<open>The calls on the new socket in turn; the first that fails closes it.\<close>

definition or_close :: "(nat \<Rightarrow> bool) \<Rightarrow> int \<Rightarrow> ps_listener_t \<Rightarrow> (bool \<times> ps_listener_t) kio \<Rightarrow> (bool \<times> ps_listener_t) kio" where
  "or_close fails fd l rest = do {
     ok \<leftarrow> k_call fails;
     if \<not> ok then do { k_close fd; kret (False, l) } else rest }"

definition ps_listener_open :: "(nat \<Rightarrow> bool) \<Rightarrow> (bytes \<Rightarrow> bool) \<Rightarrow> (bytes \<Rightarrow> bool) \<Rightarrow> bytes \<Rightarrow> nat \<Rightarrow> (bool \<times> ps_listener_t) kio" where
  "ps_listener_open fails pton4 pton6 bind_addr port =
     (let l = \<lparr>listen_fd = - 1, shutdown_fd = - 1, stopping = False\<rparr> in
      case build_bind_addr pton4 pton6 bind_addr port of
        Inl err \<Rightarrow> kret (False, l)
      | Inr ss \<Rightarrow> do {
          fd \<leftarrow> k_new_fd fails;
          if fd < 0 then kret (False, l)
          else or_close fails fd l (or_close fails fd l (or_close fails fd l (do {
            efd \<leftarrow> k_new_fd fails;
            if efd < 0 then do { k_close fd; kret (False, l) }
            else kret (True, \<lparr>listen_fd = fd, shutdown_fd = efd, stopping = False\<rparr>) }))) })"

definition ps_listener_close :: "ps_listener_t \<Rightarrow> ps_listener_t kio" where
  "ps_listener_close l = do {
     (if 0 \<le> listen_fd l then k_close (listen_fd l) else kret ());
     (if 0 \<le> shutdown_fd l then k_close (shutdown_fd l) else kret ());
     kret (l\<lparr>listen_fd := (if 0 \<le> listen_fd l then - 1 else listen_fd l),
             shutdown_fd := (if 0 \<le> shutdown_fd l then - 1 else shutdown_fd l)\<rparr>) }"

definition ps_listener_stop :: "ps_listener_t \<Rightarrow> ps_listener_t" where
  "ps_listener_stop l = l\<lparr>stopping := True\<rparr>"

definition ps_listener_stopping :: "ps_listener_t \<Rightarrow> bool" where
  "ps_listener_stopping l = stopping l"

definition ps_socket_set_timeouts :: "(nat \<Rightarrow> bool) \<Rightarrow> int \<Rightarrow> int \<Rightarrow> bool kio" where
  "ps_socket_set_timeouts fails read_timeout_s write_timeout_s = do {
     ok \<leftarrow> (if 0 < read_timeout_s then k_call fails else kret True);
     if \<not> ok then kret False
     else if 0 < write_timeout_s then k_call fails else kret True }"


subsection \<open>Writing\<close>

text \<open>The results of successive calls of \<^verbatim>\<open>write\<close>: bytes written, or an error.\<close>

datatype write_event = Wrote nat | Write_failed errno

text \<open>The result and the bytes handed to the kernel; \<open>None\<close> while a call of \<^verbatim>\<open>write\<close> is still blocked.\<close>

fun ps_write_all :: "write_event list \<Rightarrow> bytes \<Rightarrow> (bool \<times> bytes) option" where
  "ps_write_all es [] = Some (True, [])"
| "ps_write_all [] (b # buf) = None"
| "ps_write_all (Write_failed e # es) (b # buf) = (if e = EINTR then ps_write_all es (b # buf) else Some (False, []))"
| "ps_write_all (Wrote n # es) (b # buf) =
     (if n = 0 then Some (False, [])
      else map_option (map_prod id ((@) (take n (b # buf)))) (ps_write_all es (drop n (b # buf))))"


lemma write_all_prefix: "ps_write_all es buf = Some (ok, sent) \<Longrightarrow> (\<exists>rest. buf = sent @ rest) \<and> (ok \<longrightarrow> sent = buf)"
proof (induction es buf arbitrary: ok sent rule: ps_write_all.induct)
  case (4 n es b buf)
  show ?case
  proof (cases "n = 0")
    case False
    with "4.prems" obtain rest where r: "ps_write_all es (drop n (b # buf)) = Some (ok, rest)" "sent = take n (b # buf) @ rest" by auto
    from "4.IH" [OF False r(1)] obtain tl where "drop n (b # buf) = rest @ tl" "ok \<longrightarrow> rest = drop n (b # buf)" by blast
    then show ?thesis using r(2) by (metis append.assoc append_take_drop_id)
  qed (use "4.prems" in auto)
qed (auto split: if_splits)


subsection \<open>Accepting\<close>

datatype accept4_result = Accepted int af "(bytes \<times> bytes) option" | Accept_failed errno

text \<open>One return of \<^verbatim>\<open>poll\<close>: the flags of the two descriptors, and what \<^verbatim>\<open>accept4\<close> would report then.\<close>

record poll_flags =
  pf_shutdown :: bool
  pf_broken :: bool
  pf_in :: bool

datatype poll_event = Poll_failed errno | Polled poll_flags accept4_result

definition accept_again :: "errno \<Rightarrow> bool" where
  "accept_again e \<longleftrightarrow> e \<in> {EAGAIN, ECONNABORTED, EINTR, EPROTO}"

fun poll_loop :: "poll_event list \<Rightarrow> (ps_accept_result_t \<times> int \<times> bytes) option" where
  "poll_loop [] = None"
| "poll_loop (Poll_failed e # es) = (if e = EINTR then poll_loop es else Some (PS_ACCEPT_ERROR, - 1, []))"
| "poll_loop (Polled f a # es) =
     (if pf_shutdown f then Some (PS_ACCEPT_SHUTDOWN, - 1, [])
      else if pf_broken f then Some (PS_ACCEPT_ERROR, - 1, [])
      else if \<not> pf_in f then poll_loop es
      else case a of
        Accept_failed e \<Rightarrow> if accept_again e then poll_loop es else Some (PS_ACCEPT_ERROR, - 1, [])
      | Accepted fd family names \<Rightarrow> Some (PS_ACCEPT_OK, fd, format_peer family names PS_PEER_MAX))"

definition ps_listener_accept :: "ps_listener_t \<Rightarrow> poll_event list \<Rightarrow> (ps_accept_result_t \<times> int \<times> bytes) option" where
  "ps_listener_accept l es = (if stopping l then Some (PS_ACCEPT_SHUTDOWN, - 1, []) else poll_loop es)"


subsection \<open>The server\<close>

text \<open>\<open>'c\<close> stands for what a job copies from the server: TLS context, limits, router, dispatch and CORS policy.\<close>

record 'c conn_job_arg_t =
  cj_client_fd :: int
  cj_env :: 'c
  cj_peer :: bytes

text \<open>
  The server, with the descriptors accepted so far and those it has closed itself as history.
  \<open>sv_running\<close> is whether the acceptor thread is still in its loop, \<open>sv_pool_live\<close> whether the pool has
  not been freed.
\<close>

record 'c ps_server_t =
  sv_listener :: ps_listener_t
  sv_pool :: "'c conn_job_arg_t tp_state"
  sv_pool_live :: bool
  sv_env :: 'c
  sv_draining :: bool
  sv_running :: bool
  sv_accepted :: "int list"
  sv_closed :: "int list"

text \<open>What happens to one pass through the accept loop from outside.\<close>

record accept_turn =
  tu_events :: "poll_event list"
  tu_malloc :: bool
  tu_wake :: nat

definition turn_away :: "'c ps_server_t \<Rightarrow> int \<Rightarrow> 'c ps_server_t" where
  "turn_away sv fd = sv\<lparr>sv_closed := sv_closed sv @ [fd]\<rparr>"

definition server_pass :: "'c ps_server_t \<Rightarrow> accept_turn \<Rightarrow> 'c ps_server_t" where
  "server_pass sv t =
     (case ps_listener_accept (sv_listener sv) (tu_events t) of
        None \<Rightarrow> sv
      | Some (rc, client_fd, peer) \<Rightarrow>
          if rc = PS_ACCEPT_SHUTDOWN \<or> rc = PS_ACCEPT_ERROR then sv\<lparr>sv_running := False\<rparr>
          else let sv1 = sv\<lparr>sv_accepted := sv_accepted sv @ [client_fd]\<rparr> in
            if \<not> tu_malloc t then turn_away sv1 client_fd
            else let job = \<lparr>cj_client_fd = client_fd, cj_env = sv_env sv, cj_peer = peer\<rparr> in
              case ps_threadpool_submit (sv_pool sv) job (tu_wake t) of
                (ok, pool) \<Rightarrow> if \<not> ok then turn_away sv1 client_fd else sv1\<lparr>sv_pool := pool\<rparr>)"

text \<open>The loop of the acceptor thread when nothing else happens meanwhile.\<close>

fun ps_server_run :: "'c ps_server_t \<Rightarrow> accept_turn list \<Rightarrow> 'c ps_server_t" where
  "ps_server_run sv [] = sv"
| "ps_server_run sv (t # ts) = (let sv' = server_pass sv t in if sv_running sv' then ps_server_run sv' ts else sv')"

text \<open>The two halves of a shutdown, before and after the wait for the workers.\<close>

definition begin_shutdown :: "'c ps_server_t \<Rightarrow> 'c ps_server_t" where
  "begin_shutdown sv = sv\<lparr>sv_draining := True, sv_listener := ps_listener_stop (sv_listener sv),
     sv_pool := ps_threadpool_shutdown (sv_pool sv) True\<rparr>"

definition end_shutdown :: "'c ps_server_t \<Rightarrow> (nat \<Rightarrow> bool) \<Rightarrow> bool \<times> 'c ps_server_t" where
  "end_shutdown sv joined =
     (let drained = fst (ps_threadpool_destroy_timed joined (tp_workers (sv_pool sv)))
      in (drained, if drained then sv\<lparr>sv_pool_live := False\<rparr> else sv))"

definition ps_server_shutdown :: "'c ps_server_t \<Rightarrow> (nat \<Rightarrow> bool) \<Rightarrow> bool \<times> 'c ps_server_t" where
  "ps_server_shutdown sv joined = end_shutdown (begin_shutdown sv) joined"



subsection \<open>Lemmas\<close>

lemma lowest_free: "lowest_free fds \<notin> set fds" "0 \<le> lowest_free fds"
proof -
  have "\<exists>n \<in> set [0..<Suc (length fds)]. int n \<notin> set fds"
  proof (rule ccontr)
    assume "\<not> ?thesis"
    then have "int ` {0..<Suc (length fds)} \<subseteq> set fds" by (auto simp del: upt_Suc)
    then have "card (int ` {0..<Suc (length fds)}) \<le> card (set fds)" by (rule card_mono [OF finite_set])
    also have "\<dots> \<le> length fds" by (rule card_length)
    finally show False by (simp add: card_image)
  qed
  then obtain n where "List.find (\<lambda>n. int n \<notin> set fds) [0..<Suc (length fds)] = Some n"
    by (cases "List.find (\<lambda>n. int n \<notin> set fds) [0..<Suc (length fds)]") (auto simp: find_None_iff simp del: upt_Suc)
  note n = this
  then have "lowest_free fds = int n" by (simp only: lowest_free_def option.sel)
  moreover from n have "int n \<notin> set fds" by (auto simp: find_Some_iff simp del: upt_Suc)
  ultimately show "lowest_free fds \<notin> set fds" "0 \<le> lowest_free fds" by simp_all
qed

lemma before_last_snoc: "c \<notin> set t \<Longrightarrow> before_last c (s @ c # t) = s"
  by (simp add: before_last_def dropWhile_append)

lemma run_listener_open:
  assumes "run_state (ps_listener_open fails pton4 pton6 addr port) k = ((ok, l), k')"
  shows "if ok then 0 \<le> listen_fd l \<and> 0 \<le> shutdown_fd l \<and> listen_fd l \<noteq> shutdown_fd l \<and> \<not> stopping l \<and>
      k_open k' = shutdown_fd l # listen_fd l # k_open k \<and> listen_fd l \<notin> set (k_open k) \<and> shutdown_fd l \<notin> set (k_open k)
    else k_open k' = k_open k \<and> listen_fd l = - 1 \<and> shutdown_fd l = - 1"
proof -
  let ?fd = "lowest_free (k_open k)"
  have fd: "?fd \<notin> set (k_open k)" "0 \<le> ?fd" by (rule lowest_free)+
  have efd: "lowest_free (?fd # k_open k) \<notin> set (?fd # k_open k)" "0 \<le> lowest_free (?fd # k_open k)" by (rule lowest_free)+
  have "removeAll ?fd (k_open k) = k_open k" using fd(1) by simp
  with fd efd assms show ?thesis
    by (auto simp: ps_listener_open_def or_close_def k_new_fd_def k_call_def k_close_def k_later_def Let_def split: if_splits sum.splits)
qed

text \<open>Who changes the server: the acceptor, the workers of the pool, and the thread that stops it.\<close>

inductive server_step :: "'c ps_server_t \<Rightarrow> 'c ps_server_t \<Rightarrow> bool" where
  accepting: "sv_running sv \<Longrightarrow>
     (Waiting \<in> set (tp_workers (sv_pool sv)) \<Longrightarrow> tu_wake t < length (tp_workers (sv_pool sv)) \<and> tp_workers (sv_pool sv) ! tu_wake t = Waiting) \<Longrightarrow>
     server_step sv (server_pass sv t)"
| working: "tp_step (sv_pool sv) p \<Longrightarrow> tp_accepted p = tp_accepted (sv_pool sv) \<Longrightarrow> tp_dropped p = tp_dropped (sv_pool sv) \<Longrightarrow>
     tp_shutting_down p = tp_shutting_down (sv_pool sv) \<Longrightarrow> server_step sv (sv\<lparr>sv_pool := p\<rparr>)"
| stopping_it: "server_step sv (begin_shutdown sv)"

inductive server_reach :: "'c ps_server_t \<Rightarrow> 'c ps_server_t \<Rightarrow> bool" for sv0 where
  started: "server_reach sv0 sv0"
| continued: "server_reach sv0 sv \<Longrightarrow> server_step sv sv' \<Longrightarrow> server_reach sv0 sv'"

definition server_ok :: "'c ps_server_t \<Rightarrow> bool" where
  "server_ok sv \<longleftrightarrow> tp_inv (sv_pool sv) \<and> tp_dropped (sv_pool sv) = [] \<and>
     mset (sv_accepted sv) = mset (map cj_client_fd (tp_accepted (sv_pool sv))) + mset (sv_closed sv) \<and>
     (tp_shutting_down (sv_pool sv) \<longleftrightarrow> sv_draining sv) \<and> (sv_draining sv \<longleftrightarrow> stopping (sv_listener sv))"

lemma created_history:
  "ps_threadpool_create n c np j0 = Inr s \<Longrightarrow> tp_accepted s = [] \<and> tp_dropped s = [] \<and> \<not> tp_shutting_down s"
  by (auto simp: ps_threadpool_create_def Let_def split: if_splits)

lemma submit_history:
  "ps_threadpool_submit s j i = (ok, s') \<Longrightarrow> tp_dropped s' = tp_dropped s \<and> tp_shutting_down s' = tp_shutting_down s \<and>
     tp_accepted s' = tp_accepted s @ (if ok then [j] else []) \<and> (\<not> ok \<longrightarrow> s' = s)"
  by (auto simp: ps_threadpool_submit_def split: if_splits option.splits)

lemma pass_ok:
  assumes "server_ok sv" and w: "Waiting \<in> set (tp_workers (sv_pool sv)) \<Longrightarrow> tu_wake t < length (tp_workers (sv_pool sv)) \<and>
      tp_workers (sv_pool sv) ! tu_wake t = Waiting"
  shows "server_ok (server_pass sv t)"
proof (cases "ps_listener_accept (sv_listener sv) (tu_events t)")
  case None
  with assms(1) show ?thesis by (simp add: server_pass_def)
next
  case (Some a)
  obtain rc fd peer where a: "a = (rc, fd, peer)" by (cases a)
  let ?job = "\<lparr>cj_client_fd = fd, cj_env = sv_env sv, cj_peer = peer\<rparr>"
  obtain ok p where sub: "ps_threadpool_submit (sv_pool sv) ?job (tu_wake t) = (ok, p)" by (cases "ps_threadpool_submit (sv_pool sv) ?job (tu_wake t)")
  have "tp_inv p" using tp_step_inv [OF tp_step.submit [OF sub w]] assms(1) by (simp add: server_ok_def)
  with assms(1) Some a sub submit_history [OF sub] show ?thesis
    by (auto simp: server_pass_def server_ok_def turn_away_def Let_def)
qed

lemma server_step_ok: "server_step sv sv' \<Longrightarrow> server_ok sv \<Longrightarrow> server_ok sv'"
proof (induction rule: server_step.induct)
  case (accepting sv t)
  then show ?case by (intro pass_ok) auto
next
  case (working sv p)
  then show ?case using tp_step_inv by (auto simp: server_ok_def)
next
  case (stopping_it sv)
  then show ?case using tp_step_inv [OF tp_step.shutdown [of "sv_pool sv" True]]
    by (auto simp: server_ok_def begin_shutdown_def ps_listener_stop_def ps_threadpool_shutdown_def Let_def)
qed

lemma server_reach_ok: "server_reach sv0 sv \<Longrightarrow> server_ok sv0 \<Longrightarrow> server_ok sv"
  by (induction rule: server_reach.induct) (auto intro: server_step_ok)


subsection \<open>Properties\<close>


definition example_server :: "unit ps_server_t" where
  "example_server = \<lparr>sv_listener = \<lparr>listen_fd = 3, shutdown_fd = 4, stopping = False\<rparr>,
     sv_pool = \<lparr>tp_pool = pool_new 1 \<lparr>cj_client_fd = 0, cj_env = (), cj_peer = []\<rparr>, tp_workers = [Ready], tp_shutting_down = False,
       tp_accepted = [], tp_started = [], tp_dropped = []\<rparr>,
     sv_pool_live = True, sv_env = (), sv_draining = False, sv_running = True, sv_accepted = [], sv_closed = []\<rparr>"

definition client_turn :: "int \<Rightarrow> accept_turn" where
  "client_turn fd = \<lparr>tu_events = [Poll_failed EINTR, Polled \<lparr>pf_shutdown = False, pf_broken = False, pf_in = True\<rparr> (Accepted fd AF_INET (Some (''192.0.2.1'', ''9'')))],
     tu_malloc = True, tu_wake = 0\<rparr>"


text \<open>Opening the listener leaks no descriptor: when it fails, at whatever call, the open descriptors are
  those from before; when it succeeds there are exactly two more, and closing the listener, even twice,
  leaves those from before.\<close>

theorem listener_open_close:
  assumes "run_state (ps_listener_open fails pton4 pton6 addr port) k = ((ok, l), k')"
  shows "if ok then 0 \<le> listen_fd l \<and> 0 \<le> shutdown_fd l \<and> set (k_open k') = {listen_fd l, shutdown_fd l} \<union> set (k_open k) \<and>
      k_open (snd (run_state (do { l' \<leftarrow> ps_listener_close l; ps_listener_close l' }) k')) = k_open k
    else k_open k' = k_open k"
proof -
  note o = run_listener_open [OF assms]
  show ?thesis
  proof (cases ok)
    case False
    with o show ?thesis by simp
  next
    case True
    with o have "removeAll (listen_fd l) (k_open k) = k_open k" "removeAll (shutdown_fd l) (k_open k) = k_open k" by simp_all
    with True o show ?thesis by (auto simp: ps_listener_close_def k_close_def)
  qed
qed

theorem listener_open_close_witness:
  "\<exists>l k'. run_state (ps_listener_open (\<lambda>n. n = 4) (\<lambda>_. True) (\<lambda>_. False) ''127.0.0.1'' 443) \<lparr>k_open = [0, 1, 2], k_tick = 0\<rparr> = ((False, l), k') \<and>
     k_open k' = [0, 1, 2]"
proof -
  let ?k = "\<lparr>k_open = [0, 1, 2], k_tick = 0\<rparr>"
  obtain ok l k' where run: "run_state (ps_listener_open (\<lambda>n. n = 4) (\<lambda>_. True) (\<lambda>_. False) ''127.0.0.1'' 443) ?k = ((ok, l), k')"
    by (metis prod.collapse)
  have "lowest_free [0, 1, 2] = 3" by code_simp
  with run have "\<not> ok"
    by (simp add: ps_listener_open_def build_bind_addr_def or_close_def k_new_fd_def k_call_def k_close_def k_later_def Let_def)
  with listener_open_close [OF run] run show ?thesis by auto
qed

text \<open>The key of the rate limits is the address of the client: the text the acceptor makes of a peer's
  address is read back by the handlers as exactly its host part, for IPv4 and for bracketed IPv6
  addresses, whatever the port.\<close>

theorem peer_address_roundtrip:
  assumes "NUL \<notin> set host" and "NUL \<notin> set serv" and "CHR '':'' \<notin> set serv" and "length host + length serv + 4 \<le> PS_PEER_MAX"
    and "family = AF_INET6 \<Longrightarrow> CHR '']'' \<notin> set host" and "family = AF_INET \<Longrightarrow> CHR ''['' \<notin> set host"
  shows "peer_ip (Some (format_peer family (Some (host, serv)) PS_PEER_MAX)) = host"
proof -
  have len: "length host \<le> PS_RATELIMIT_KEY_MAX - 1" using assms(4) by (simp add: PS_PEER_MAX_def PS_RATELIMIT_KEY_MAX_def)
  have c: "cstr host = host" "cstr serv = serv" using assms(1,2) by (simp_all add: cstr_id)
  show ?thesis
  proof (cases family)
    case AF_INET
    have "cstr (host @ '':'' @ serv) = host @ '':'' @ serv" using assms(1,2) by (intro cstr_id) auto
    moreover have "format_peer family (Some (host, serv)) PS_PEER_MAX = host @ '':'' @ serv"
      using AF_INET assms(4) by (simp add: format_peer_def c)
    moreover have "before_last CHR '':'' (host @ '':'' @ serv) = host" using before_last_snoc [OF assms(3)] by simp
    moreover have "hd (host @ '':'' @ serv) \<noteq> CHR ''[''" using assms(6) AF_INET by (cases host) auto
    ultimately show ?thesis using len by (simp add: peer_ip_def Let_def)
  next
    case AF_INET6
    have "cstr (''['' @ host @ '']:'' @ serv) = ''['' @ host @ '']:'' @ serv" using assms(1,2) by (intro cstr_id) auto
    moreover have "format_peer family (Some (host, serv)) PS_PEER_MAX = ''['' @ host @ '']:'' @ serv"
      using AF_INET6 assms(4) by (simp add: format_peer_def c)
    moreover have "takeWhile (\<lambda>c. c \<noteq> CHR '']'') (host @ '']:'' @ serv) = host" using assms(5) AF_INET6 by (simp add: takeWhile_append)
    ultimately show ?thesis using len by (simp add: peer_ip_def Let_def)
  qed
qed

theorem peer_address_roundtrip_witness:
  "peer_ip (Some (format_peer AF_INET6 (Some (''2001:db8::1'', ''443'')) PS_PEER_MAX)) = ''2001:db8::1''"
  by (rule peer_address_roundtrip) (simp_all add: PS_PEER_MAX_def)

end
