(* ===== verification/Tls.thy ===== *)
theory Tls
  imports Prelude "HOL-Library.State_Monad" "HOL-Library.Word"
begin

text \<open>
  The TLS context and connections (\<^verbatim>\<open>src/src/platform/tls.c\<close>, \<^verbatim>\<open>tls.h\<close>). OpenSSL is a parameter: whether each of
  its calls succeeds is decided by an oracle, and the model counts the contexts and connections that
  have been made and not freed. What the program decides itself, which key files it accepts and what
  it frees on every path, is modelled in full.
\<close>

unbundle bit_operations_syntax

definition TLS12_CIPHERS :: bytes where
  "TLS12_CIPHERS = ''ECDHE-ECDSA-AES128-GCM-SHA256:ECDHE-RSA-AES128-GCM-SHA256:'' @
     ''ECDHE-ECDSA-AES256-GCM-SHA384:ECDHE-RSA-AES256-GCM-SHA384:'' @
     ''ECDHE-ECDSA-CHACHA20-POLY1305:ECDHE-RSA-CHACHA20-POLY1305''"

definition TLS13_CIPHERSUITES :: bytes where
  "TLS13_CIPHERSUITES = ''TLS_AES_128_GCM_SHA256:TLS_AES_256_GCM_SHA384:TLS_CHACHA20_POLY1305_SHA256''"


subsection \<open>The key file\<close>

record key_stat =
  ks_mode :: "32 word"
  ks_uid :: nat

definition S_IFMT :: "32 word" where "S_IFMT = 0xF000"
definition S_IFREG :: "32 word" where "S_IFREG = 0x8000"

definition S_ISREG :: "32 word \<Rightarrow> bool" where
  "S_ISREG mode \<longleftrightarrow> mode AND S_IFMT = S_IFREG"

datatype key_verdict = Key_ok | Key_no_stat | Key_not_regular | Key_mode "32 word" | Key_owner

text \<open>\<open>07777\<close> and \<open>0600\<close> in octal.\<close>

definition check_key_permissions :: "(bytes \<Rightarrow> key_stat option) \<Rightarrow> nat \<Rightarrow> bytes \<Rightarrow> key_verdict" where
  "check_key_permissions stat euid key_path =
     (case stat key_path of
        None \<Rightarrow> Key_no_stat
      | Some s \<Rightarrow>
          if \<not> S_ISREG (ks_mode s) then Key_not_regular
          else let perm = ks_mode s AND 0xFFF in
            if perm \<noteq> 0x180 then Key_mode perm
            else if ks_uid s \<noteq> euid then Key_owner
            else Key_ok)"


subsection \<open>Calls of OpenSSL\<close>

record ssl =
  ssl_contexts :: int
  ssl_connections :: int
  ssl_calls :: "(bytes \<times> bytes) list"
  ssl_tick :: nat

type_synonym 'a ssl_io = "(ssl, 'a) state"

abbreviation sret :: "'a \<Rightarrow> 'a ssl_io" where "sret \<equiv> State_Monad.return"

text \<open>A call with the argument that matters.\<close>

definition ssl_call :: "(nat \<Rightarrow> bool) \<Rightarrow> bytes \<Rightarrow> bytes \<Rightarrow> bool ssl_io" where
  "ssl_call fails name arg = State (\<lambda>s. (\<not> fails (ssl_tick s), s\<lparr>ssl_calls := ssl_calls s @ [(name, arg)], ssl_tick := ssl_tick s + 1\<rparr>))"

text \<open>A call whose result the code does not look at.\<close>

definition ssl_set :: "bytes \<Rightarrow> bytes \<Rightarrow> unit ssl_io" where
  "ssl_set name arg = State (\<lambda>s. ((), s\<lparr>ssl_calls := ssl_calls s @ [(name, arg)]\<rparr>))"

definition SSL_CTX_new :: "(nat \<Rightarrow> bool) \<Rightarrow> bool ssl_io" where
  "SSL_CTX_new fails = do {
     ok \<leftarrow> ssl_call fails ''SSL_CTX_new'' ''TLS_server_method'';
     State (\<lambda>s. (ok, if ok then s\<lparr>ssl_contexts := ssl_contexts s + 1\<rparr> else s)) }"

definition SSL_CTX_free :: "unit ssl_io" where
  "SSL_CTX_free = State (\<lambda>s. ((), s\<lparr>ssl_contexts := ssl_contexts s - 1\<rparr>))"

definition SSL_new :: "(nat \<Rightarrow> bool) \<Rightarrow> bool ssl_io" where
  "SSL_new fails = do {
     ok \<leftarrow> ssl_call fails ''SSL_new'' [];
     State (\<lambda>s. (ok, if ok then s\<lparr>ssl_connections := ssl_connections s + 1\<rparr> else s)) }"

definition SSL_free :: "unit ssl_io" where
  "SSL_free = State (\<lambda>s. ((), s\<lparr>ssl_connections := ssl_connections s - 1\<rparr>))"

text \<open>A call on the new context: when it fails the context is freed and there is no result.\<close>

definition ctx_step :: "(nat \<Rightarrow> bool) \<Rightarrow> bytes \<Rightarrow> bytes \<Rightarrow> bool ssl_io \<Rightarrow> bool ssl_io" where
  "ctx_step fails name arg rest = do {
     ok \<leftarrow> ssl_call fails name arg;
     if \<not> ok then do { SSL_CTX_free; sret False } else rest }"

definition ps_tls_ctx_create :: "(nat \<Rightarrow> bool) \<Rightarrow> (bytes \<Rightarrow> key_stat option) \<Rightarrow> nat \<Rightarrow> bytes \<Rightarrow> bytes \<Rightarrow> bool ssl_io" where
  "ps_tls_ctx_create fails stat euid cert_path key_path =
     (if check_key_permissions stat euid key_path \<noteq> Key_ok then sret False
      else do {
        ctx \<leftarrow> SSL_CTX_new fails;
        if \<not> ctx then sret False
        else do {
          ssl_set ''SSL_CTX_set_options'' ''SSL_OP_NO_COMPRESSION | SSL_OP_CIPHER_SERVER_PREFERENCE'';
          ssl_set ''SSL_CTX_set_mode'' ''SSL_MODE_AUTO_RETRY'';
          ctx_step fails ''SSL_CTX_set_min_proto_version'' ''TLS1_2_VERSION''
            (ctx_step fails ''SSL_CTX_set_cipher_list'' TLS12_CIPHERS
            (ctx_step fails ''SSL_CTX_set_ciphersuites'' TLS13_CIPHERSUITES
            (ctx_step fails ''SSL_CTX_use_certificate_chain_file'' cert_path
            (ctx_step fails ''SSL_CTX_use_PrivateKey_file'' key_path
            (ctx_step fails ''SSL_CTX_check_private_key'' [] (sret True)))))) } })"

definition ps_tls_ctx_free :: "bool \<Rightarrow> unit ssl_io" where
  "ps_tls_ctx_free ctx = (if ctx then SSL_CTX_free else sret ())"

definition ps_tls_accept :: "(nat \<Rightarrow> bool) \<Rightarrow> bool ssl_io" where
  "ps_tls_accept fails = do {
     conn \<leftarrow> SSL_new fails;
     if \<not> conn then sret False
     else do {
       bound \<leftarrow> ssl_call fails ''SSL_set_fd'' [];
       if \<not> bound then do { SSL_free; sret False }
       else do {
         accepted \<leftarrow> ssl_call fails ''SSL_accept'' [];
         if \<not> accepted then do { SSL_free; sret False } else sret True } } }"

text \<open>\<open>half n\<close> is whether the \<open>n\<close>-th call of \<^verbatim>\<open>SSL_shutdown\<close> returns 0.\<close>

definition ps_tls_close :: "(nat \<Rightarrow> bool) \<Rightarrow> bool \<Rightarrow> unit ssl_io" where
  "ps_tls_close half ssl =
     (if \<not> ssl then sret ()
      else do {
        more \<leftarrow> State (\<lambda>s. (half (ssl_tick s), s\<lparr>ssl_calls := ssl_calls s @ [(''SSL_shutdown'', [])], ssl_tick := ssl_tick s + 1\<rparr>));
        (if more then State (\<lambda>s. ((), s\<lparr>ssl_calls := ssl_calls s @ [(''SSL_shutdown'', [])], ssl_tick := ssl_tick s + 1\<rparr>)) else sret ());
        SSL_free })"


subsection \<open>Properties\<close>

lemmas ssl_defs = ssl_call_def ssl_set_def SSL_CTX_new_def SSL_CTX_free_def SSL_new_def SSL_free_def ctx_step_def

text \<open>The nine permission bits besides those of the owner, and the three special ones, are all clear.\<close>

lemma mode_0600: "mode AND 0xFFF = (0x180 :: 32 word) \<Longrightarrow> mode AND 0xE7F = 0"
proof -
  assume "mode AND 0xFFF = (0x180 :: 32 word)"
  then have "(mode AND 0xFFF) AND 0xE7F = (0x180 :: 32 word) AND 0xE7F" by simp
  then show ?thesis by (simp add: and.assoc)
qed

text \<open>C21. A context is made only for a key that is private: when \<open>ps_tls_ctx_create\<close> succeeds, the file the key was
  loaded from is a regular file owned by the running user with mode 0600, so that no bit for group or
  others is set, and the context has been restricted to TLS 1.2 and later and to the listed cipher
  suites before certificate and key were loaded and compared. On every failure, whichever call it is, no
  context is left; the same holds of a connection that cannot be accepted.\<close>

theorem tls_key_is_private:
  assumes "run_state (ps_tls_ctx_create fails stat euid cert_path key_path) s = (r, s')" and "run_state (ps_tls_accept fails') t = (c, t')"
  shows "ssl_contexts s' = ssl_contexts s + (if r then 1 else 0) \<and> ssl_connections t' = ssl_connections t + (if c then 1 else 0) \<and>
    (r \<longrightarrow> (\<exists>k. stat key_path = Some k \<and> S_ISREG (ks_mode k) \<and> ks_mode k AND 0xFFF = 0x180 \<and> ks_mode k AND 0xE7F = 0 \<and> ks_uid k = euid) \<and>
      ssl_calls s' = ssl_calls s @ [(''SSL_CTX_new'', ''TLS_server_method''),
        (''SSL_CTX_set_options'', ''SSL_OP_NO_COMPRESSION | SSL_OP_CIPHER_SERVER_PREFERENCE''), (''SSL_CTX_set_mode'', ''SSL_MODE_AUTO_RETRY''),
        (''SSL_CTX_set_min_proto_version'', ''TLS1_2_VERSION''),
        (''SSL_CTX_set_cipher_list'', TLS12_CIPHERS), (''SSL_CTX_set_ciphersuites'', TLS13_CIPHERSUITES),
        (''SSL_CTX_use_certificate_chain_file'', cert_path), (''SSL_CTX_use_PrivateKey_file'', key_path), (''SSL_CTX_check_private_key'', [])])"
proof (intro conjI impI)
  show "ssl_contexts s' = ssl_contexts s + (if r then 1 else 0)"
    using assms(1) by (auto simp: ps_tls_ctx_create_def ssl_defs split: if_splits)
  show "ssl_connections t' = ssl_connections t + (if c then 1 else 0)"
    using assms(2) by (auto simp: ps_tls_accept_def ssl_defs split: if_splits)
  assume r
  then have ok: "check_key_permissions stat euid key_path = Key_ok" using assms(1) by (auto simp: ps_tls_ctx_create_def split: if_splits)
  then obtain k where "stat key_path = Some k" "S_ISREG (ks_mode k)" "ks_mode k AND 0xFFF = 0x180" "ks_uid k = euid"
    by (auto simp: check_key_permissions_def Let_def split: option.splits if_splits)
  with mode_0600 show "\<exists>k. stat key_path = Some k \<and> S_ISREG (ks_mode k) \<and> ks_mode k AND 0xFFF = 0x180 \<and> ks_mode k AND 0xE7F = 0 \<and> ks_uid k = euid"
    by blast
  show "ssl_calls s' = ssl_calls s @ [(''SSL_CTX_new'', ''TLS_server_method''),
        (''SSL_CTX_set_options'', ''SSL_OP_NO_COMPRESSION | SSL_OP_CIPHER_SERVER_PREFERENCE''), (''SSL_CTX_set_mode'', ''SSL_MODE_AUTO_RETRY''),
        (''SSL_CTX_set_min_proto_version'', ''TLS1_2_VERSION''),
      (''SSL_CTX_set_cipher_list'', TLS12_CIPHERS), (''SSL_CTX_set_ciphersuites'', TLS13_CIPHERSUITES),
      (''SSL_CTX_use_certificate_chain_file'', cert_path), (''SSL_CTX_use_PrivateKey_file'', key_path), (''SSL_CTX_check_private_key'', [])]"
    using assms(1) \<open>r\<close> ok by (auto simp: ps_tls_ctx_create_def ssl_defs split: if_splits)
qed

definition no_ssl :: ssl where
  "no_ssl = \<lparr>ssl_contexts = 0, ssl_connections = 0, ssl_calls = [], ssl_tick = 0\<rparr>"

definition private_key :: "bytes \<Rightarrow> key_stat option" where
  "private_key path = Some \<lparr>ks_mode = 0x8180, ks_uid = 1000\<rparr>"

lemma private_key_ok: "check_key_permissions private_key 1000 path = Key_ok"
  by (simp add: check_key_permissions_def private_key_def S_ISREG_def S_IFMT_def S_IFREG_def)

theorem tls_key_is_private_witness:
  "\<exists>s'. run_state (ps_tls_ctx_create (\<lambda>n. n = 4) private_key 1000 ''c.pem'' ''k.pem'') no_ssl = (False, s') \<and> ssl_contexts s' = 0"
proof -
  obtain r s' where run: "run_state (ps_tls_ctx_create (\<lambda>n. n = 4) private_key 1000 ''c.pem'' ''k.pem'') no_ssl = (r, s')"
    by (metis prod.collapse)
  obtain c t' where acc: "run_state (ps_tls_accept (\<lambda>_. True)) no_ssl = (c, t')" by (metis prod.collapse)
  from run have "\<not> r" by (auto simp: ps_tls_ctx_create_def private_key_ok ssl_defs no_ssl_def)
  with tls_key_is_private [OF run acc] run show ?thesis by (auto simp: no_ssl_def)
qed

end
