(* ===== verification/Startup.thy ===== *)
theory Startup
  imports Service Lifecycle Listener Tls
begin

text \<open>
  The entry point (\<^verbatim>\<open>src/src/main.c\<close>). \<open>main\<close> composes the models of the parts: the configuration, the routes, the
  CORS policy, the pool with its migration, the denylist, the semaphore, the limiter, the bootstrap, the
  maintenance thread, the listener, the TLS context and the workers. It runs over the holdings of the process and
  the database file of \<open>Db_Pool\<close>, and creates and destroys the parts by the operations of \<open>Lifecycle\<close>. What it takes and
  gives back is also recorded as a trace of events, in the order of the code, with what is printed on the
  standard output and the moment the signals are blocked. What is left to the environment (files, failing
  calls, the wait for a signal) is a field of \<open>boot_env\<close>. Log lines are left out.
\<close>

subsection \<open>Arguments\<close>

record ps_args_t =
  ag_config_path :: "bytes option"
  ag_dev_mode :: bool
  ag_check_config :: bool
  ag_show_help :: bool
  ag_show_version :: bool
  ag_dump_routes :: bool

definition no_args :: ps_args_t where
  "no_args = \<lparr>ag_config_path = None, ag_dev_mode = False, ag_check_config = False, ag_show_help = False, ag_show_version = False,
     ag_dump_routes = False\<rparr>"

function parse_args :: "ps_args_t \<Rightarrow> bytes list \<Rightarrow> bytes + ps_args_t" where
  "parse_args args [] = Inr args"
| "parse_args args (a # rest) =
     (if a = ''-h'' \<or> a = ''--help'' then parse_args (args\<lparr>ag_show_help := True\<rparr>) rest
      else if a = ''-v'' \<or> a = ''--version'' then parse_args (args\<lparr>ag_show_version := True\<rparr>) rest
      else if a = ''--dev'' then parse_args (args\<lparr>ag_dev_mode := True\<rparr>) rest
      else if a = ''--check-config'' then parse_args (args\<lparr>ag_check_config := True\<rparr>) rest
      else if a = ''--dump-routes'' then parse_args (args\<lparr>ag_dump_routes := True\<rparr>) rest
      else if a = ''-c'' \<or> a = ''--config'' then
        (case rest of
           [] \<Rightarrow> Inl (c_snprintf_s 512 (a @ '' requires a path argument''))
         | path # rest' \<Rightarrow> parse_args (args\<lparr>ag_config_path := Some path\<rparr>) rest')
      else Inl (c_snprintf_s 512 (''unknown option '' @ [CHR 0x27] @ a @ [CHR 0x27] @ '' (try --help)'')))"
  by pat_completeness auto
termination
  by (relation "measure (\<lambda>(_, as). length as)") auto

declare parse_args.simps(2) [simp del]


subsection \<open>Version, help and the route table, printed\<close>

definition PS_VERSION :: bytes where
  "PS_VERSION = ''0.5.0-phase5''"

definition PS_JWT_SECRET_MIN :: int where
  "PS_JWT_SECRET_MIN = 32"

definition print_usage :: "bytes \<Rightarrow> bytes" where
  "print_usage argv0 = concat (map (\<lambda>l. l @ [LF])
     [''PlatformService '' @ PS_VERSION,
      [],
      ''Usage: '' @ argv0 @ '' [options]'',
      [],
      ''Options:'',
      ''  -c, --config PATH   Read configuration from PATH (optional; every'',
      ''                      setting has a working default)'',
      ''      --dev           Enable dev mode: relaxed rate limits, verification'',
      ''                      links logged, dev outbox endpoint. Never for production.'',
      ''      --check-config  Load and validate configuration, print it, exit'',
      ''      --dump-routes   Print the route table and its RBAC policy, exit'',
      ''  -v, --version       Print version and exit'',
      ''  -h, --help          Print this help and exit'',
      [],
      ''Required environment:'',
      ''  PS_JWT_SECRET       HS256 signing key, at least '' @ show_int PS_JWT_SECRET_MIN @ '' bytes.'',
      ''                      Generate: openssl rand -base64 48'',
      [],
      ''First run only (when the database contains no administrator):'',
      ''  BOOTSTRAP_ADMIN_USERNAME'',
      ''  BOOTSTRAP_ADMIN_EMAIL'',
      ''  BOOTSTRAP_ADMIN_PASSWORD'',
      [],
      ''There is no default password. If these are absent on an'',
      ''administrator-less database, startup fails rather than creating an'',
      ''account whose credentials are public knowledge.''])"

fun policy_kind_name :: "ps_policy_kind_t \<Rightarrow> bytes" where
  "policy_kind_name PS_POLICY_PUBLIC = ''PUBLIC''"
| "policy_kind_name PS_POLICY_AUTHENTICATED = ''AUTHENTICATED''"
| "policy_kind_name PS_POLICY_ROLE = ''ROLE''"
| "policy_kind_name PS_POLICY_SELF_OR_ROLE = ''SELF_OR_ROLE''"

definition required_role_name :: "32 word \<Rightarrow> bytes" where
  "required_role_name required =
     (if required = 0 then ''NONE''
      else if required = PS_JWT_ROLE_ADMIN then ''ADMIN''
      else if required = PS_JWT_ROLE_USER then ''USER''
      else ''UNKNOWN'')"

definition dump_routes :: bytes where
  "dump_routes = concat (map (\<lambda>p. po_method p @ [CHR 0x09] @ po_path_pattern p @ [CHR 0x09] @ policy_kind_name (po_kind p) @ [CHR 0x09] @
     required_role_name (po_required_role p) @ [LF]) PS_RBAC_POLICIES)"


subsection \<open>Signals\<close>

text \<open>The numbers of Linux. A signal that is ignored or blocked stays so in every thread created later.\<close>

definition SIGHUP :: int where "SIGHUP = 1"

definition SIGINT :: int where "SIGINT = 2"

definition SIGPIPE :: int where "SIGPIPE = 13"

definition SIGTERM :: int where "SIGTERM = 15"

record sig_state =
  sg_ignored :: "int list"
  sg_blocked :: "int list"

definition waitset :: "int list" where
  "waitset = [SIGINT, SIGTERM, SIGHUP]"

text \<open>Both calls can fail; the arguments are the texts of their errors.\<close>

definition install_signal_handling :: "bytes option \<Rightarrow> bytes option \<Rightarrow> sig_state \<Rightarrow> (bytes + int list) \<times> sig_state" where
  "install_signal_handling sigaction_err sigmask_err s =
     (case sigaction_err of
        Some e \<Rightarrow> (Inl (c_snprintf_s 512 (''sigaction(SIGPIPE): '' @ e)), s)
      | None \<Rightarrow>
          let s1 = s\<lparr>sg_ignored := List.insert SIGPIPE (sg_ignored s)\<rparr> in
          (case sigmask_err of
             Some e \<Rightarrow> (Inl (c_snprintf_s 512 (''pthread_sigmask: '' @ e)), s1)
           | None \<Rightarrow> (Inr waitset, s1\<lparr>sg_blocked := List.union waitset (sg_blocked s1)\<rparr>)))"

definition signal_name :: "int \<Rightarrow> bytes" where
  "signal_name sig =
     (if sig = SIGINT then ''SIGINT'' else if sig = SIGTERM then ''SIGTERM'' else if sig = SIGHUP then ''SIGHUP'' else ''signal'')"

text \<open>When installing succeeds the process survives a client that hangs up, the signals of the shutdown wait for
  \<^verbatim>\<open>sigwait\<close>, and each of those has a name of its own in the log.\<close>

lemma signals_installed:
  assumes "install_signal_handling e1 e2 s = (Inr ws, s')"
  shows "ws = waitset \<and> SIGPIPE \<in> set (sg_ignored s') \<and> set ws \<subseteq> set (sg_blocked s')"
    and "inj_on signal_name (set ws)"
  using assms by (auto simp: install_signal_handling_def Let_def waitset_def inj_on_def signal_name_def SIGINT_def SIGTERM_def SIGHUP_def
      split: option.splits)


subsection \<open>main\<close>

datatype boot_res = B_config | B_db_pool | B_denylist | B_kdf_semaphore | B_ratelimiter | B_maintenance | B_listener | B_tls_ctx |
  B_threadpool | B_acceptor

datatype boot_event = Took boot_res | Gave boot_res | Printed bytes | Masked "int list"

record boot_env =
  be_file :: "bytes \<Rightarrow> config_file"
  be_env :: "bytes \<Rightarrow> bytes option"
  be_cpus :: int
  be_sigaction_err :: "bytes option"
  be_sigmask_err :: "bytes option"
  be_sqlite :: sqlite_sys
  be_denylist_file :: "bytes \<Rightarrow> bytes option"
  be_sys :: sys
  be_net_fails :: "nat \<Rightarrow> bool"
  be_pton4 :: "bytes \<Rightarrow> bool"
  be_pton6 :: "bytes \<Rightarrow> bool"
  be_kernel :: kernel
  be_ssl_fails :: "nat \<Rightarrow> bool"
  be_key_stat :: "bytes \<Rightarrow> key_stat option"
  be_euid :: nat
  be_ssl :: ssl
  be_sigwait :: "int option"
  be_drained :: bool

text \<open>What has to be known of a part to destroy it.\<close>

record boot_parts =
  bp_pool :: ps_db_pool
  bp_maintenance :: nat
  bp_workers :: nat

fun give_back :: "boot_parts \<Rightarrow> boot_res \<Rightarrow> unit sq" where
  "give_back b B_config = give ()"
| "give_back b B_db_pool = ps_db_pool_destroy (Some (bp_pool b))"
| "give_back b B_denylist = let_go (R_block ''denylist'')"
| "give_back b B_kdf_semaphore = ps_kdf_semaphore_destroy"
| "give_back b B_ratelimiter = ps_ratelimiter_destroy"
| "give_back b B_maintenance = ps_maintenance_stop (Some (bp_maintenance b))"
| "give_back b B_listener = let_go R_listener"
| "give_back b B_tls_ctx = let_go R_tls_ctx"
| "give_back b B_threadpool = ps_threadpool_destroy (bp_workers b)"
| "give_back b B_acceptor = let_go (R_thread ''acceptor'' 0)"

primrec give_back_all :: "boot_parts \<Rightarrow> boot_res list \<Rightarrow> unit sq" where
  "give_back_all b [] = give ()"
| "give_back_all b (r # rs) = do { give_back b r; give_back_all b rs }"

definition leave :: "int \<Rightarrow> boot_parts \<Rightarrow> boot_res list \<Rightarrow> boot_res list \<Rightarrow> (int \<times> boot_event list) sq" where
  "leave code b acquired released = do { give_back_all b released; give (code, map Took acquired @ map Gave released) }"

text \<open>From the acceptor thread to the end: the wait for a signal and the shutdown.\<close>

definition serving :: "boot_res list" where
  "serving = [B_db_pool, B_denylist, B_kdf_semaphore, B_ratelimiter, B_maintenance, B_listener, B_tls_ctx, B_threadpool, B_acceptor]"

definition main_serve :: "boot_env \<Rightarrow> boot_parts \<Rightarrow> (int \<times> boot_event list) sq" where
  "main_serve E b =
     (let pool = (if be_drained E then [B_threadpool] else []) in
      case be_sigwait E of
        None \<Rightarrow> leave 1 b serving (pool @ [B_acceptor, B_listener, B_maintenance, B_ratelimiter, B_kdf_semaphore, B_denylist, B_db_pool])
      | Some sig \<Rightarrow> leave 0 b serving (pool @ [B_acceptor, B_listener, B_maintenance] @
          (if be_drained E then [B_tls_ctx, B_ratelimiter, B_kdf_semaphore, B_denylist, B_db_pool] else [])))"

text \<open>The TLS context, the workers and the acceptor thread; then the listener before them.\<close>

definition main_workers :: "boot_env \<Rightarrow> ps_config_t \<Rightarrow> boot_parts \<Rightarrow> (int \<times> boot_event list) sq" where
  "main_workers E cfg b =
     (if \<not> fst (run_state (ps_tls_ctx_create (be_ssl_fails E) (be_key_stat E) (be_euid E) (cfg_str cfg ''tls.cert_path'') (cfg_str cfg ''tls.key_path''))
            (be_ssl E)) then
        leave 1 b [B_db_pool, B_denylist, B_kdf_semaphore, B_ratelimiter, B_maintenance, B_listener]
          [B_listener, B_maintenance, B_ratelimiter, B_kdf_semaphore, B_denylist, B_db_pool]
      else do {
        hold R_tls_ctx;
        pool \<leftarrow> ps_threadpool_create_res (be_sqlite E) (cfg_int cfg ''server.worker_threads'') (cfg_int cfg ''server.accept_queue_depth'') (be_cpus E) ();
        case pool of
          Inl e \<Rightarrow> leave 1 b [B_db_pool, B_denylist, B_kdf_semaphore, B_ratelimiter, B_maintenance, B_listener, B_tls_ctx]
            [B_tls_ctx, B_listener, B_maintenance, B_ratelimiter, B_kdf_semaphore, B_denylist, B_db_pool]
        | Inr tp \<Rightarrow> do {
            acceptor \<leftarrow> obtain_res (be_sqlite E) (R_thread ''acceptor'' 0);
            if \<not> acceptor then
              leave 1 (b\<lparr>bp_workers := length (tp_workers tp)\<rparr>)
                [B_db_pool, B_denylist, B_kdf_semaphore, B_ratelimiter, B_maintenance, B_listener, B_tls_ctx, B_threadpool]
                [B_threadpool, B_tls_ctx, B_listener, B_maintenance, B_ratelimiter, B_kdf_semaphore, B_denylist, B_db_pool]
            else main_serve E (b\<lparr>bp_workers := length (tp_workers tp)\<rparr>) } })"

definition main_listen :: "boot_env \<Rightarrow> ps_config_t \<Rightarrow> boot_parts \<Rightarrow> (int \<times> boot_event list) sq" where
  "main_listen E cfg b =
     (if \<not> fst (fst (run_state (ps_listener_open (be_net_fails E) (be_pton4 E) (be_pton6 E) (cfg_str cfg ''server.bind_address'')
            (nat (cfg_int cfg ''server.port''))) (be_kernel E))) then
        leave 1 b [B_db_pool, B_denylist, B_kdf_semaphore, B_ratelimiter, B_maintenance]
          [B_maintenance, B_ratelimiter, B_kdf_semaphore, B_denylist, B_db_pool]
      else do { hold R_listener; main_workers E cfg b })"

text \<open>The bootstrap runs on a connection of the pool just created, on the database just opened.\<close>

definition boot_world :: "ps_ratelimiter_t \<Rightarrow> nat \<Rightarrow> ps_db_pool \<Rightarrow> sqlite \<Rightarrow> world" where
  "boot_world limiter slots pool s = \<lparr>w_db = (case sq_db s of None \<Rightarrow> schema_001_init | Some d \<Rightarrow> d), w_saved = None,
     w_rl = limiter, w_kdf = slots, w_conns = int (dp_free_count pool), w_tick = 0\<rparr>"

definition main_bootstrap :: "boot_env \<Rightarrow> ps_config_t \<Rightarrow> bytes list \<Rightarrow> ps_ratelimiter_t \<Rightarrow> nat \<Rightarrow> ps_db_pool \<Rightarrow> (ps_bootstrap_result_t \<times> ps_config_t) sq" where
  "main_bootstrap E cfg denylist limiter slots pool = State (\<lambda>s.
     let (r, w) = run_state (do {
            ps_db_pool_acquire;
            now \<leftarrow> time_now (be_sys E);
            r \<leftarrow> ps_bootstrap_admin (be_sys E) cfg (cfg_int cfg ''auth.kdf_iterations'') (Some denylist) now;
            ps_db_pool_release;
            ret r }) (boot_world limiter slots pool s)
     in (r, s\<lparr>sq_db := Some (w_db w)\<rparr>))"

text \<open>The bootstrap and the maintenance thread; then the semaphore and the limiter before them.\<close>

definition main_sweeper :: "boot_env \<Rightarrow> ps_config_t \<Rightarrow> bytes list \<Rightarrow> ps_ratelimiter_t \<Rightarrow> nat \<Rightarrow> boot_parts \<Rightarrow> (int \<times> boot_event list) sq" where
  "main_sweeper E cfg denylist rl slots b = do {
     (result, cfg') \<leftarrow> main_bootstrap E cfg denylist rl slots (bp_pool b);
     if result \<noteq> PS_BOOTSTRAP_OK then
       leave 1 b [B_db_pool, B_denylist, B_kdf_semaphore, B_ratelimiter] [B_ratelimiter, B_kdf_semaphore, B_denylist, B_db_pool]
     else do {
       maintenance \<leftarrow> ps_maintenance_start (be_sqlite E);
       case maintenance of
         None \<Rightarrow> leave 1 b [B_db_pool, B_denylist, B_kdf_semaphore, B_ratelimiter] [B_ratelimiter, B_kdf_semaphore, B_denylist, B_db_pool]
       | Some c \<Rightarrow> main_listen E cfg' (b\<lparr>bp_maintenance := c\<rparr>) } }"

definition main_tables :: "boot_env \<Rightarrow> ps_config_t \<Rightarrow> bytes list \<Rightarrow> boot_parts \<Rightarrow> (int \<times> boot_event list) sq" where
  "main_tables E cfg denylist b = do {
     kdf \<leftarrow> ps_kdf_semaphore_create_res (be_sqlite E) 0 (be_cpus E);
     case kdf of
       Inl e \<Rightarrow> leave 1 b [B_db_pool, B_denylist] [B_denylist, B_db_pool]
     | Inr slots \<Rightarrow> do {
         limiter \<leftarrow> ps_ratelimiter_create_res (be_sqlite E) (cfg_int cfg ''ratelimit.max_entries'');
         case limiter of
           Inl e \<Rightarrow> leave 1 b [B_db_pool, B_denylist, B_kdf_semaphore] [B_kdf_semaphore, B_denylist, B_db_pool]
         | Inr rl \<Rightarrow> main_sweeper E cfg denylist rl slots b } }"

definition main_resources :: "boot_env \<Rightarrow> ps_config_t \<Rightarrow> (int \<times> boot_event list) sq" where
  "main_resources E cfg = do {
     pool \<leftarrow> ps_db_pool_create (be_sqlite E) (be_cpus E) (cfg_int cfg ''server.worker_threads'');
     case pool of
       None \<Rightarrow> give (1, [])
     | Some p \<Rightarrow>
         let b = \<lparr>bp_pool = p, bp_maintenance = 0, bp_workers = 0\<rparr> in
         (case ps_password_denylist_load (be_denylist_file E (cfg_str cfg ''auth.common_passwords_path'')) of
            None \<Rightarrow> leave 1 b [B_db_pool] [B_db_pool]
          | Some denylist \<Rightarrow> do { hold (R_block ''denylist''); main_tables E cfg denylist b }) }"

definition main_policies :: "boot_env \<Rightarrow> ps_config_t \<Rightarrow> (int \<times> boot_event list) sq" where
  "main_policies E cfg =
     (case ps_routes_register of
        Inl e \<Rightarrow> give (1, [])
      | Inr router \<Rightarrow>
          (case ps_cors_policy_init (cfg_str cfg ''cors.allowed_origins'') (cfg_bool cfg ''cors.allow_credentials'') of
             Inl e \<Rightarrow> give (1, [])
           | Inr cors \<Rightarrow> main_resources E cfg))"

definition main_configured :: "boot_env \<Rightarrow> ps_args_t \<Rightarrow> ps_config_t \<Rightarrow> (int \<times> boot_event list) sq" where
  "main_configured E args cfg =
     (if ag_check_config args then give (0, [])
      else case fst (install_signal_handling (be_sigaction_err E) (be_sigmask_err E) \<lparr>sg_ignored = [], sg_blocked = []\<rparr>) of
        Inl e \<Rightarrow> give (1, [])
      | Inr ws \<Rightarrow> do {
          (code, trace) \<leftarrow> (if \<not> cfg_bool cfg ''tls.enabled'' then give (1, []) else main_policies E cfg);
          give (code, Masked ws # trace) })"

text \<open>With the configuration loaded; it is freed at the end, whatever happened.\<close>

definition main_loaded :: "boot_env \<Rightarrow> ps_args_t \<Rightarrow> ps_config_t \<Rightarrow> (int \<times> boot_event list) sq" where
  "main_loaded E args cfg0 = do {
     (code, trace) \<leftarrow> main_configured E args (if ag_dev_mode args then cfg0(''server.dev_mode'' \<mapsto> V_bool True) else cfg0);
     give (code, Took B_config # trace @ [Gave B_config]) }"

text \<open>The exit code and the trace; \<open>argv\<close> are the arguments after the name of the program.\<close>

definition main :: "boot_env \<Rightarrow> bytes \<Rightarrow> bytes list \<Rightarrow> (int \<times> boot_event list) sq" where
  "main E argv0 argv =
     (case parse_args no_args argv of
        Inl e \<Rightarrow> give (1, [])
      | Inr args \<Rightarrow>
          if ag_show_help args then give (0, [Printed (print_usage argv0)])
          else if ag_show_version args then give (0, [Printed (PS_VERSION @ [LF])])
          else if ag_dump_routes args then give (0, [Printed dump_routes])
          else case ps_config_load (map_option (\<lambda>p. (p, be_file E p)) (ag_config_path args)) (be_env E) of
            Inl e \<Rightarrow> give (1, [])
          | Inr cfg0 \<Rightarrow> main_loaded E args cfg0)"


subsection \<open>Lemmas\<close>

text \<open>A trace that gives back what it took, in reverse order, whatever else it does.\<close>

fun on_resource :: "boot_event \<Rightarrow> bool" where
  "on_resource (Took r) = True"
| "on_resource (Gave r) = True"
| "on_resource (Printed out) = False"
| "on_resource (Masked ws) = False"

definition unwinds :: "boot_res list \<Rightarrow> boot_event list \<Rightarrow> bool" where
  "unwinds rs trace \<longleftrightarrow> distinct rs \<and> filter on_resource trace = map Took rs @ map Gave (rev rs)"

lemma all_on_resource [simp]: "filter on_resource (map Took rs) = map Took rs" "filter on_resource (map Gave rs) = map Gave rs"
  by (induction rs) auto

lemma unwinds_config: "unwinds rs trace \<Longrightarrow> B_config \<notin> set rs \<Longrightarrow> unwinds (B_config # rs) (Took B_config # trace @ [Gave B_config])"
  by (simp add: unwinds_def)

text \<open>What a part is made of, and a process that has exactly some of them.\<close>

fun parts_of :: "boot_parts \<Rightarrow> boot_res \<Rightarrow> resource multiset" where
  "parts_of b B_config = {#}"
| "parts_of b B_db_pool = pool_parts + mset (map R_conn (dp_conns (bp_pool b)))"
| "parts_of b B_denylist = {#R_block ''denylist''#}"
| "parts_of b B_kdf_semaphore = kdf_parts"
| "parts_of b B_ratelimiter = limiter_parts"
| "parts_of b B_maintenance = maintenance_parts (bp_maintenance b)"
| "parts_of b B_listener = {#R_listener#}"
| "parts_of b B_tls_ctx = {#R_tls_ctx#}"
| "parts_of b B_threadpool = threadpool_parts (bp_workers b)"
| "parts_of b B_acceptor = {#R_thread ''acceptor'' 0#}"

definition has :: "resource multiset \<Rightarrow> boot_parts \<Rightarrow> boot_res list \<Rightarrow> sqlite \<Rightarrow> bool" where
  "has H b rs s \<longleftrightarrow> dp_size (bp_pool b) = length (dp_conns (bp_pool b)) \<and> holding H (\<Sum>r\<leftarrow>rs. parts_of b r) s"

lemma run_hold: "run_state (hold r) s = (u, s') \<Longrightarrow> s' = s\<lparr>sq_held := add_mset r (sq_held s)\<rparr>"
  by (auto simp: hold_def)

lemma holding_let_go: "holding H (K + {#r#}) s \<Longrightarrow> run_state (let_go r) s = (u, s') \<Longrightarrow> holding H K s'"
  by (auto simp: holding_def let_go_def)

lemma give_back_parts:
  assumes "holding H (K + parts_of b r) s" and "dp_size (bp_pool b) = length (dp_conns (bp_pool b))" and "run_state (give_back b r) s = (u, s')"
  shows "holding H K s'"
proof (cases r)
  case B_db_pool
  with assms show ?thesis using db_pool.holding_given by fastforce
next
  case B_kdf_semaphore
  with assms show ?thesis using kdf.holding_given by fastforce
next
  case B_ratelimiter
  with assms show ?thesis using limiter.holding_given by fastforce
next
  case B_maintenance
  with assms show ?thesis using sweeper.holding_given by fastforce
next
  case B_threadpool
  with assms show ?thesis using run_threadpool_destroy [of "bp_workers b" s u s'] by (simp add: holding_def)
qed (use assms in \<open>auto intro: holding_let_go\<close>)

lemma give_back_all_parts:
  "holding H (K + (\<Sum>r\<leftarrow>rs. parts_of b r)) s \<Longrightarrow> dp_size (bp_pool b) = length (dp_conns (bp_pool b)) \<Longrightarrow>
     run_state (give_back_all b rs) s = (u, s') \<Longrightarrow> holding H K s'"
proof (induction rs arbitrary: s)
  case (Cons r rs)
  from Cons.prems(3) obtain u1 s1 where g: "run_state (give_back b r) s = (u1, s1)" "run_state (give_back_all b rs) s1 = (u, s')"
    by (auto simp: sq_run_bind simp del: run_state_bind)
  from Cons.prems(1) have "holding H ((K + (\<Sum>r\<leftarrow>rs. parts_of b r)) + parts_of b r) s" by (simp add: ac_simps)
  from Cons.IH [OF give_back_parts [OF this Cons.prems(2) g(1)] Cons.prems(2) g(2)] show ?case .
qed (simp add: sq_run)

text \<open>Leaving with some parts kept.\<close>

lemma run_leave:
  assumes "has H b rs s" and "run_state (leave code b rs rel) s = (r, s')" and "(\<Sum>r\<leftarrow>rs. parts_of b r) = K + (\<Sum>r\<leftarrow>rel. parts_of b r)"
  shows "r = (code, map Took rs @ map Gave rel)" and "holding H K s'"
proof -
  from assms(2) obtain u where g: "run_state (give_back_all b rel) s = (u, s')" and r: "r = (code, map Took rs @ map Gave rel)"
    by (auto simp: leave_def sq_run simp del: run_state_bind)
  show "r = (code, map Took rs @ map Gave rel)" by (rule r)
  show "holding H K s'" using give_back_all_parts [OF _ _ g] assms(1,3) by (simp add: has_def)
qed

text \<open>What a start that fails has done: it gives back everything, in reverse; otherwise it serves.\<close>

definition fails_cleanly :: "int \<times> boot_event list \<Rightarrow> bool" where
  "fails_cleanly r \<longleftrightarrow> fst r = 1 \<and> (\<exists>rs. B_config \<notin> set rs \<and> B_acceptor \<notin> set rs \<and> unwinds rs (snd r))"

definition starts :: "boot_env \<Rightarrow> resource multiset \<Rightarrow> (int \<times> boot_event list) \<times> sqlite \<Rightarrow> bool" where
  "starts E H rs \<longleftrightarrow> fails_cleanly (fst rs) \<and> holding H {#} (snd rs) \<or> (\<exists>b s. has H b serving s \<and> rs = run_state (main_serve E b) s)"

lemma starts_nothing: "holding H {#} s \<Longrightarrow> starts E H ((1, []), s)"
  by (auto simp: starts_def fails_cleanly_def unwinds_def)

lemma starts_leave:
  assumes "has H b rs s" and "rel = rev rs" and "distinct rs" and "B_config \<notin> set rs" and "B_acceptor \<notin> set rs"
  shows "starts E H (run_state (leave 1 b rs rel) s)"
proof -
  obtain r s' where run: "run_state (leave 1 b rs rel) s = (r, s')" by (metis prod.collapse)
  have "(\<Sum>r\<leftarrow>rs. parts_of b r) = {#} + (\<Sum>r\<leftarrow>rel. parts_of b r)" unfolding assms(2) rev_map [symmetric] by (simp add: sum_list_rev)
  from run_leave [OF assms(1) run this] run assms show ?thesis by (auto simp: starts_def fails_cleanly_def unwinds_def)
qed

lemma starts_serve: "has H b serving s \<Longrightarrow> starts E H (run_state (main_serve E b) s)"
  by (auto simp: starts_def)

lemma starts_bind: "(\<And>a s1. run_state m s = (a, s1) \<Longrightarrow> starts E H (run_state (f a) s1)) \<Longrightarrow> starts E H (run_state (State_Monad.bind m f) s)"
  by (cases "run_state m s") auto

declare run_state_bind [simp del]

text \<open>Each part extends what the process has, or leaves it as it was.\<close>

lemma has_hold: "has H b rs s \<Longrightarrow> run_state (hold x) s = (u, s') \<Longrightarrow> parts_of b r = {#x#} \<Longrightarrow> has H b (rs @ [r]) s'"
  by (auto simp: has_def holding_def dest!: run_hold)

lemma has_obtain:
  "has H b rs s \<Longrightarrow> run_state (obtain_res S x) s = (ok, s') \<Longrightarrow> parts_of b r = {#x#} \<Longrightarrow> has H b (if ok then rs @ [r] else rs) s'"
  by (auto simp: has_def holding_def same_file_def dest!: run_obtain)

context part
begin

lemma has_refused: "has H b rs s \<Longrightarrow> run_state create s = (c, s') \<Longrightarrow> made c = None \<Longrightarrow> has H b rs s'"
  using holding_refused by (auto simp: has_def)

lemma has_taken:
  "has H b rs s \<Longrightarrow> run_state create s = (c, s') \<Longrightarrow> made c = Some r \<Longrightarrow> map (parts_of b') rs = map (parts_of b) rs \<Longrightarrow>
     bp_pool b' = bp_pool b \<Longrightarrow> parts_of b' x = parts r \<Longrightarrow> has H b' (rs @ [x]) s'"
  using holding_taken [of H "\<Sum>r\<leftarrow>rs. parts_of b r" s c s' r] by (simp add: has_def del: map_eq_conv)

end

lemma starts_workers:
  assumes "has H b [B_db_pool, B_denylist, B_kdf_semaphore, B_ratelimiter, B_maintenance, B_listener] s"
  shows "starts E H (run_state (main_workers E cfg b) s)"
proof -
  have "starts E H (run_state (case pool of
        Inl e \<Rightarrow> leave 1 b [B_db_pool, B_denylist, B_kdf_semaphore, B_ratelimiter, B_maintenance, B_listener, B_tls_ctx]
          [B_tls_ctx, B_listener, B_maintenance, B_ratelimiter, B_kdf_semaphore, B_denylist, B_db_pool]
      | Inr tp \<Rightarrow> do {
          acceptor \<leftarrow> obtain_res (be_sqlite E) (R_thread ''acceptor'' 0);
          if \<not> acceptor then
            leave 1 (b\<lparr>bp_workers := length (tp_workers tp)\<rparr>)
              [B_db_pool, B_denylist, B_kdf_semaphore, B_ratelimiter, B_maintenance, B_listener, B_tls_ctx, B_threadpool]
              [B_threadpool, B_tls_ctx, B_listener, B_maintenance, B_ratelimiter, B_kdf_semaphore, B_denylist, B_db_pool]
          else main_serve E (b\<lparr>bp_workers := length (tp_workers tp)\<rparr>) }) s2)"
    if t: "run_state (hold R_tls_ctx) s = (u, s1)" and p: "run_state (ps_threadpool_create_res (be_sqlite E) n q cpus ()) s1 = (pool, s2)"
    for u s1 n q cpus s2 and pool :: "bytes + unit tp_state"
  proof -
    have s1: "has H b [B_db_pool, B_denylist, B_kdf_semaphore, B_ratelimiter, B_maintenance, B_listener, B_tls_ctx] s1"
      using has_hold [OF assms t, of B_tls_ctx] by simp
    show ?thesis
    proof (cases pool)
      case (Inl e)
      with workers.has_refused [OF s1 p] show ?thesis by (auto intro: starts_leave)
    next
      case (Inr tp)
      let ?b = "b\<lparr>bp_workers := length (tp_workers tp)\<rparr>"
      have s2: "has H ?b [B_db_pool, B_denylist, B_kdf_semaphore, B_ratelimiter, B_maintenance, B_listener, B_tls_ctx, B_threadpool] s2"
        using workers.has_taken [OF s1 p, of tp ?b B_threadpool] Inr by simp
      show ?thesis
        unfolding Inr by (auto intro!: starts_bind starts_leave starts_serve dest!: has_obtain [OF s2, where r = B_acceptor] simp: serving_def)
    qed
  qed
  then show ?thesis unfolding main_workers_def using starts_leave [OF assms] by (auto intro!: starts_bind)
qed

lemma starts_listen:
  assumes "has H b [B_db_pool, B_denylist, B_kdf_semaphore, B_ratelimiter, B_maintenance] s"
  shows "starts E H (run_state (main_listen E cfg b) s)"
  unfolding main_listen_def using starts_leave [OF assms] has_hold [OF assms, of R_listener _ _ B_listener]
  by (auto intro!: starts_bind starts_workers)

lemma has_bootstrap: "has H b rs s \<Longrightarrow> run_state (main_bootstrap E cfg denylist rl slots pool) s = (r, s') \<Longrightarrow> has H b rs s'"
  by (auto simp: main_bootstrap_def has_def holding_def Let_def split: prod.splits)

lemma starts_sweeper:
  assumes "has H b [B_db_pool, B_denylist, B_kdf_semaphore, B_ratelimiter] s"
  shows "starts E H (run_state (main_sweeper E cfg denylist rl slots b) s)"
  unfolding main_sweeper_def
proof (rule starts_bind)
  fix x s1
  assume "run_state (main_bootstrap E cfg denylist rl slots (bp_pool b)) s = (x, s1)"
  note s1 = has_bootstrap [OF assms this]
  have "starts E H (run_state (case maintenance of
      None \<Rightarrow> leave 1 b [B_db_pool, B_denylist, B_kdf_semaphore, B_ratelimiter] [B_ratelimiter, B_kdf_semaphore, B_denylist, B_db_pool]
    | Some c \<Rightarrow> main_listen E cfg' (b\<lparr>bp_maintenance := c\<rparr>)) s2)"
    if m: "run_state (ps_maintenance_start (be_sqlite E)) s1 = (maintenance, s2)" for maintenance s2 cfg'
  proof (cases maintenance)
    case None
    with sweeper.has_refused [OF s1 m] show ?thesis by (auto intro: starts_leave)
  next
    case (Some c)
    with sweeper.has_taken [OF s1 m, of c "b\<lparr>bp_maintenance := c\<rparr>" B_maintenance] starts_listen show ?thesis by simp
  qed
  then show "starts E H (run_state (case x of (result, cfg') \<Rightarrow>
      if result \<noteq> PS_BOOTSTRAP_OK then leave 1 b [B_db_pool, B_denylist, B_kdf_semaphore, B_ratelimiter] [B_ratelimiter, B_kdf_semaphore, B_denylist, B_db_pool]
      else do {
        maintenance \<leftarrow> ps_maintenance_start (be_sqlite E);
        case maintenance of
          None \<Rightarrow> leave 1 b [B_db_pool, B_denylist, B_kdf_semaphore, B_ratelimiter] [B_ratelimiter, B_kdf_semaphore, B_denylist, B_db_pool]
        | Some c \<Rightarrow> main_listen E cfg' (b\<lparr>bp_maintenance := c\<rparr>) }) s1)"
    using starts_leave [OF s1] by (auto intro!: starts_bind split: prod.split)
qed

lemma starts_tables:
  assumes "has H b [B_db_pool, B_denylist] s"
  shows "starts E H (run_state (main_tables E cfg denylist b) s)"
  unfolding main_tables_def
proof (rule starts_bind)
  fix kdf s1
  assume k: "run_state (ps_kdf_semaphore_create_res (be_sqlite E) 0 (be_cpus E)) s = (kdf, s1)"
  show "starts E H (run_state (case kdf of Inl e \<Rightarrow> leave 1 b [B_db_pool, B_denylist] [B_denylist, B_db_pool] | Inr slots \<Rightarrow> do {
      limiter \<leftarrow> ps_ratelimiter_create_res (be_sqlite E) (cfg_int cfg ''ratelimit.max_entries'');
      case limiter of Inl e \<Rightarrow> leave 1 b [B_db_pool, B_denylist, B_kdf_semaphore] [B_kdf_semaphore, B_denylist, B_db_pool]
      | Inr rl \<Rightarrow> main_sweeper E cfg denylist rl slots b }) s1)"
  proof (cases kdf)
    case (Inl e)
    with kdf.has_refused [OF assms k] show ?thesis by (auto intro: starts_leave)
  next
    case (Inr slots)
    with kdf.has_taken [OF assms k, of slots b B_kdf_semaphore] have s1: "has H b [B_db_pool, B_denylist, B_kdf_semaphore] s1" by simp
    have "starts E H (run_state (case limiter of Inl e \<Rightarrow> leave 1 b [B_db_pool, B_denylist, B_kdf_semaphore] [B_kdf_semaphore, B_denylist, B_db_pool]
        | Inr rl \<Rightarrow> main_sweeper E cfg denylist rl slots b) s2)"
      if l: "run_state (ps_ratelimiter_create_res (be_sqlite E) n) s1 = (limiter, s2)" for n limiter s2
    proof (cases limiter)
      case (Inl e)
      with limiter.has_refused [OF s1 l] show ?thesis by (auto intro: starts_leave)
    next
      case (Inr rl)
      with limiter.has_taken [OF s1 l, of rl b B_ratelimiter] starts_sweeper show ?thesis by simp
    qed
    with Inr show ?thesis by (auto intro: starts_bind)
  qed
qed

lemma starts_resources:
  assumes "holding H {#} s"
  shows "starts E H (run_state (main_resources E cfg) s)"
  unfolding main_resources_def
proof (rule starts_bind)
  fix pool s1
  assume p: "run_state (ps_db_pool_create (be_sqlite E) (be_cpus E) (cfg_int cfg ''server.worker_threads'')) s = (pool, s1)"
  show "starts E H (run_state (case pool of None \<Rightarrow> give (1, []) | Some p \<Rightarrow>
      let b = \<lparr>bp_pool = p, bp_maintenance = 0, bp_workers = 0\<rparr> in
      (case ps_password_denylist_load (be_denylist_file E (cfg_str cfg ''auth.common_passwords_path'')) of
         None \<Rightarrow> leave 1 b [B_db_pool] [B_db_pool]
       | Some denylist \<Rightarrow> do { hold (R_block ''denylist''); main_tables E cfg denylist b })) s1)"
  proof (cases pool)
    case None
    with db_pool.holding_refused [OF assms p] starts_nothing show ?thesis by simp
  next
    case (Some q)
    let ?b = "\<lparr>bp_pool = q, bp_maintenance = 0, bp_workers = 0\<rparr>"
    have s1: "has H ?b [B_db_pool] s1" using db_pool.holding_taken [OF assms p, of q] Some by (simp add: has_def)
    show ?thesis
      using Some starts_leave [OF s1] has_hold [OF s1, of "R_block ''denylist''" _ _ B_denylist]
      by (auto simp: Let_def intro!: starts_bind starts_tables split: option.split)
  qed
qed

lemma starts_policies: "holding H {#} s \<Longrightarrow> starts E H (run_state (main_policies E cfg) s)"
  by (auto simp: main_policies_def intro: starts_nothing starts_resources split: sum.split)

text \<open>The signals are blocked before anything but the configuration is taken.\<close>

lemma configured_cases:
  assumes "\<not> ag_check_config args" and "holding H {#} s" and "run_state (main_configured E args cfg) s = (r, s')"
  obtains "r = (1, [])" "s' = s" | r0 where "r = (fst r0, Masked waitset # snd r0)" "starts E H (r0, s')"
proof (cases "fst (install_signal_handling (be_sigaction_err E) (be_sigmask_err E) \<lparr>sg_ignored = [], sg_blocked = []\<rparr>)")
  case (Inl e)
  with assms(1,3) that(1) show thesis by (simp add: main_configured_def)
next
  case (Inr ws)
  then have "ws = waitset" by (metis signals_installed(1) prod.collapse)
  with Inr assms(1,3) obtain r0 where
    "run_state (if \<not> cfg_bool cfg ''tls.enabled'' then give (1, []) else main_policies E cfg) s = (r0, s')" "r = (fst r0, Masked waitset # snd r0)"
    by (auto simp: main_configured_def sq_run split_beta simp del: run_state_bind split: if_splits)
  moreover have "starts E H (run_state (if \<not> cfg_bool cfg ''tls.enabled'' then give (1, []) else main_policies E cfg) s)"
    using starts_nothing [OF assms(2)] starts_policies [OF assms(2)] by simp
  ultimately show thesis using that(2) by metis
qed

text \<open>The whole program: what it is asked to print, a clean failure, or the life of a server.\<close>

lemma loaded_run:
  "run_state (main_loaded E args cfg0) s = (r, s') \<Longrightarrow> \<exists>cfg r0. run_state (main_configured E args cfg) s = (r0, s') \<and>
     r = (fst r0, Took B_config # snd r0 @ [Gave B_config])"
  by (auto simp: main_loaded_def sq_run split_beta simp del: run_state_bind)

lemma loaded_cases:
  assumes "run_state (main_loaded E args cfg0) s = (r, s')" and "holding H {#} s"
  obtains "r = (0, [Took B_config, Gave B_config])"
  | rs where "B_acceptor \<notin> set rs" "unwinds rs (snd r)" "fst r = 1" "holding H {#} s'"
  | b s1 r0 where "has H b serving s1" "run_state (main_serve E b) s1 = (r0, s')" "r = (fst r0, Took B_config # Masked waitset # snd r0 @ [Gave B_config])"
proof -
  from loaded_run [OF assms(1)] obtain cfg r0 where c: "run_state (main_configured E args cfg) s = (r0, s')"
    and r: "r = (fst r0, Took B_config # snd r0 @ [Gave B_config])" by blast
  show thesis
  proof (cases "ag_check_config args")
    case True
    with c have "r0 = (0, [])" by (simp add: main_configured_def)
    with r that(1) show thesis by simp
  next
    case False
    from this assms(2) c show thesis
    proof (cases rule: configured_cases)
      case 1
      with r that(2) [of "[B_config]"] assms(2) show thesis by (simp add: unwinds_def)
    next
      case (2 r1)
      from 2(2) consider rs where "fst r1 = 1" "B_config \<notin> set rs" "B_acceptor \<notin> set rs" "unwinds rs (snd r1)" "holding H {#} s'"
        | b s1 where "has H b serving s1" "run_state (main_serve E b) s1 = (r1, s')"
        unfolding starts_def fails_cleanly_def by auto
      then show thesis
      proof cases
        case (1 rs)
        then have "unwinds rs (Masked waitset # snd r1)" by (simp add: unwinds_def)
        with 1 r 2(1) unwinds_config [OF this] show thesis by (intro that(2) [of "B_config # rs"]) simp_all
      qed (use r 2(1) that(3) in auto)
    qed
  qed
qed

lemma main_outcomes:
  assumes "run_state (main E argv0 argv) s = (r, s')"
  shows "r = (1, []) \<and> s' = s \<or> (\<exists>out. r = (0, [Printed out])) \<or> (\<exists>args cfg0. run_state (main_loaded E args cfg0) s = (r, s'))"
proof (cases "parse_args no_args argv")
  case (Inr args)
  with assms show ?thesis
    by (cases "ps_config_load (map_option (\<lambda>p. (p, be_file E p)) (ag_config_path args)) (be_env E)") (auto simp: main_def split: if_splits)
qed (use assms in \<open>simp add: main_def\<close>)

lemma main_cases:
  assumes "run_state (main E argv0 argv) s = (r, s')" and "sq_saved s = None"
  obtains out where "r = (0, [Printed out])"
  | "r = (0, [Took B_config, Gave B_config])"
  | rs where "B_acceptor \<notin> set rs" "unwinds rs (snd r)" "fst r = 1" "sq_held s' = sq_held s"
  | b s1 r0 where "has (sq_held s) b serving s1" "run_state (main_serve E b) s1 = (r0, s')"
      "r = (fst r0, Took B_config # Masked waitset # snd r0 @ [Gave B_config])"
proof -
  have h: "holding (sq_held s) {#} s" using assms(2) by (simp add: holding_def)
  from main_outcomes [OF assms(1)] consider "r = (1, [])" "s' = s" | out where "r = (0, [Printed out])"
    | args cfg0 where "run_state (main_loaded E args cfg0) s = (r, s')" by blast
  then show thesis
  proof cases
    case 1
    with that(3) [of "[]"] show thesis by (simp add: unwinds_def)
  next
    case (3 args cfg0)
    from this h show thesis by (cases rule: loaded_cases) (use that(2,3,4) in \<open>auto simp: holding_def\<close>)
  qed (use that(1) in blast)
qed

text \<open>Every thread of the service is created after the signals are blocked, so that only the main thread receives them.\<close>

lemma threads_inherit_mask:
  assumes "run_state (main E argv0 argv) s = ((code, trace), s')" and "sq_saved s = None" and "Took r \<in> set trace" and "r \<noteq> B_config"
  shows "\<exists>later. trace = Took B_config # Masked waitset # later"
proof -
  from main_outcomes [OF assms(1)] assms(3) obtain args cfg0 where "run_state (main_loaded E args cfg0) s = ((code, trace), s')" by auto
  from loaded_run [OF this] obtain cfg r0 where c: "run_state (main_configured E args cfg) s = (r0, s')"
    and t: "trace = Took B_config # snd r0 @ [Gave B_config]" by auto
  then have "\<not> ag_check_config args" using assms(3,4) by (auto simp: main_configured_def)
  moreover have "holding (sq_held s) {#} s" using assms(2) by (simp add: holding_def)
  ultimately show ?thesis using c by (cases rule: configured_cases) (use t assms(3,4) in auto)
qed

lemma unwinds_took: "unwinds rs trace \<Longrightarrow> Took r \<in> set trace \<longleftrightarrow> r \<in> set rs"
proof -
  have "Took r \<in> set trace \<longleftrightarrow> Took r \<in> set (filter on_resource trace)" by simp
  then show "unwinds rs trace \<Longrightarrow> Took r \<in> set trace \<longleftrightarrow> r \<in> set rs" unfolding unwinds_def by auto
qed

text \<open>The end of a server: what it gives back and what it keeps.\<close>

lemma serve_stopped:
  assumes "has H b serving s" and "run_state (main_serve E b) s = (r, s')" and "be_sigwait E = Some sig"
  shows "fst r = 0 \<and> snd r = map Took serving @ map Gave
      (if be_drained E then [B_threadpool, B_acceptor, B_listener, B_maintenance, B_tls_ctx, B_ratelimiter, B_kdf_semaphore, B_denylist, B_db_pool]
       else [B_acceptor, B_listener, B_maintenance]) \<and> (be_drained E \<longrightarrow> sq_held s' = H)"
proof (cases "be_drained E")
  case True
  with assms(2,3) have "run_state (leave 0 b serving
      [B_threadpool, B_acceptor, B_listener, B_maintenance, B_tls_ctx, B_ratelimiter, B_kdf_semaphore, B_denylist, B_db_pool]) s = (r, s')"
    by (simp add: main_serve_def)
  from run_leave [OF assms(1) this, of "{#}"] True show ?thesis by (simp add: serving_def holding_def ac_simps)
next
  case False
  with assms(2,3) have "run_state (leave 0 b serving [B_acceptor, B_listener, B_maintenance]) s = (r, s')" by (simp add: main_serve_def)
  from run_leave(1) [OF assms(1) this, of "\<Sum>r\<leftarrow>[B_db_pool, B_denylist, B_kdf_semaphore, B_ratelimiter, B_tls_ctx, B_threadpool]. parts_of b r"] False
  show ?thesis by (simp add: serving_def ac_simps)
qed

lemma serve_interrupted:
  assumes "has H b serving s" and "run_state (main_serve E b) s = (r, s')" and "be_sigwait E = None"
  shows "fst r = 1 \<and> R_tls_ctx \<in># sq_held s' \<and> snd r = map Took serving @ map Gave
      ((if be_drained E then [B_threadpool] else []) @ [B_acceptor, B_listener, B_maintenance, B_ratelimiter, B_kdf_semaphore, B_denylist, B_db_pool])"
proof -
  let ?rel = "(if be_drained E then [B_threadpool] else []) @ [B_acceptor, B_listener, B_maintenance, B_ratelimiter, B_kdf_semaphore, B_denylist, B_db_pool]"
  let ?K = "\<Sum>r\<leftarrow>(if be_drained E then [B_tls_ctx] else [B_tls_ctx, B_threadpool]). parts_of b r"
  from assms(2,3) have run: "run_state (leave 1 b serving ?rel) s = (r, s')" by (simp add: main_serve_def)
  have "(\<Sum>r\<leftarrow>serving. parts_of b r) = ?K + (\<Sum>r\<leftarrow>?rel. parts_of b r)" by (simp add: serving_def ac_simps)
  from run_leave [OF assms(1) run this] show ?thesis by (simp add: holding_def split: if_splits)
qed

declare run_state_bind [simp]

text \<open>An environment in which nothing fails, but for the address to listen on if it is not one, and a database with an
  administrator.\<close>

definition no_fault :: sqlite_sys where
  "no_fault = \<lparr>ss_fault = (\<lambda>_. False), ss_null = (\<lambda>_. False)\<rparr>"

definition healthy :: "bool \<Rightarrow> int option \<Rightarrow> boot_env" where
  "healthy address_ok sig = \<lparr>be_file = (\<lambda>_. Cannot_open []), be_env = example_env, be_cpus = 2, be_sigaction_err = None, be_sigmask_err = None,
     be_sqlite = no_fault, be_denylist_file = (\<lambda>_. Some []), be_sys = quiet_sys, be_net_fails = (\<lambda>_. False),
     be_pton4 = (\<lambda>_. address_ok), be_pton6 = (\<lambda>_. False), be_kernel = \<lparr>k_open = [0, 1, 2], k_tick = 0\<rparr>, be_ssl_fails = (\<lambda>_. False),
     be_key_stat = private_key, be_euid = 1000, be_ssl = no_ssl, be_sigwait = sig, be_drained = True\<rparr>"

definition with_admin :: db where
  "with_admin = schema_001_init\<lparr>db_user_roles := [(1, 2)]\<rparr>"

definition healthy_file :: sqlite where
  "healthy_file = new_file\<lparr>sq_versions := Some [1], sq_db := Some with_admin\<rparr>"

lemma boot_config:
  "effective_config example_env ''server.worker_threads'' = Some (V_int 0)"
  "effective_config example_env ''server.accept_queue_depth'' = Some (V_int 256)"
  "effective_config example_env ''tls.enabled'' = Some (V_bool True)"
  "effective_config example_env ''cors.allowed_origins'' = Some (V_str [])"
  by (simp_all add: effective_defs)

lemma healthy_simps:
  "be_cpus (healthy a sig) = 2" "be_env (healthy a sig) = example_env" "be_sigaction_err (healthy a sig) = None" "be_sigmask_err (healthy a sig) = None"
  "be_sys (healthy a sig) = quiet_sys" "be_denylist_file (healthy a sig) f = Some []" "be_sqlite (healthy a sig) = no_fault"
  "be_sigwait (healthy a sig) = sig" "be_drained (healthy a sig)"
  by (simp_all add: healthy_def)

lemma obtained: "run_state (obtain_res no_fault r) s = (True, s\<lparr>sq_tick := sq_tick s + 1, sq_held := add_mset r (sq_held s)\<rparr>)"
  by (simp add: obtain_res_def attempt_def hold_def sq_later_def no_fault_def)

lemma healthy_shards: "\<exists>s'. run_state (init_shards no_fault n i) s = (Inr (), s') \<and> sq_db s' = sq_db s"
proof (induction n arbitrary: i s)
  case (Suc n)
  let ?s = "s\<lparr>sq_tick := sq_tick s + 2, sq_held := add_mset (R_block ''slots'') (add_mset R_mutex (sq_held s))\<rparr>"
  from Suc.IH [of "Suc i" ?s] show ?case by (simp add: obtained)
qed simp

lemma healthy_tables:
  "\<exists>slots s1. run_state (ps_kdf_semaphore_create_res no_fault n cpus) s = (Inr slots, s1) \<and> sq_db s1 = sq_db s"
  "\<exists>rl s1. run_state (ps_ratelimiter_create_res no_fault k) s = (Inr rl, s1) \<and> sq_db s1 = sq_db s"
proof -
  show "\<exists>slots s1. run_state (ps_kdf_semaphore_create_res no_fault n cpus) s = (Inr slots, s1) \<and> sq_db s1 = sq_db s"
    by (simp add: ps_kdf_semaphore_create_res_def obtained)
  obtain s1 where "run_state (init_shards no_fault PS_RATELIMIT_SHARDS 0) (s\<lparr>sq_tick := sq_tick s + 1, sq_held := add_mset (R_block ''ratelimiter'') (sq_held s)\<rparr>) = (Inr (), s1)"
    "sq_db s1 = sq_db s" using healthy_shards [of PS_RATELIMIT_SHARDS 0 "s\<lparr>sq_tick := sq_tick s + 1, sq_held := add_mset (R_block ''ratelimiter'') (sq_held s)\<rparr>"] by auto
  then show "\<exists>rl s1. run_state (ps_ratelimiter_create_res no_fault k) s = (Inr rl, s1) \<and> sq_db s1 = sq_db s"
    by (simp add: ps_ratelimiter_create_res_def obtained)
qed

lemma healthy_workers: "\<exists>s'. run_state (start_workers no_fault n i) s = (None, s')"
proof (induction n arbitrary: i s)
  case (Suc n)
  from Suc.IH [of "Suc i" "s\<lparr>sq_tick := sq_tick s + 1, sq_held := add_mset (R_thread ''worker'' i) (sq_held s)\<rparr>"] show ?case by (simp add: obtained)
qed simp

lemma healthy_threadpool: "0 < q \<Longrightarrow> \<exists>tp s'. run_state (ps_threadpool_create_res no_fault n q cpus j) s = (Inr tp, s')"
proof -
  assume "0 < q"
  then obtain tp where tp: "ps_threadpool_create n q cpus j = Inr tp" by (auto simp: ps_threadpool_create_def)
  have "\<exists>s'. run_state (start_pool no_fault tp) s = (Inr tp, s')" for s
    using healthy_workers [of "length (tp_workers tp)" 0 s] by (auto simp: start_pool_def)
  then show ?thesis by (simp add: ps_threadpool_create_res_def threadpool_init_def tp obtained) blast
qed

lemma healthy_maintenance: "\<exists>c s'. run_state (ps_maintenance_start no_fault) s = (Some c, s')"
  by (simp add: ps_maintenance_start_def no_fault_def obtain_res_def attempt_def hold_def ps_db_open_standalone_def sqlite3_open_v2_def
      configure_connection_def Let_def)

lemma healthy_pool: "\<exists>p s. run_state (ps_db_pool_create no_fault 2 0) healthy_file = (Some p, s) \<and> sq_db s = Some with_admin"
proof -
  obtain r s where run: "run_state (ps_db_pool_create no_fault 2 0) healthy_file = (r, s)" by (metis prod.collapse)
  have "fst (run_state (ps_db_pool_create no_fault 2 0) healthy_file) \<noteq> None"
    by (simp add: pool_runs healthy_file_def no_fault_def column_int_def)
  with run obtain p where r: "r = Some p" by auto
  have "sq_saved healthy_file = None" by (simp add: healthy_file_def new_file_def)
  from run_pool_create [OF run this] r have "migrated healthy_file s" by simp
  then have "sq_db s = sq_db healthy_file" by (auto simp: migrated_def same_file_def healthy_file_def)
  with run r show ?thesis by (auto simp: healthy_file_def)
qed

lemma free_not_negative: "\<not> lowest_free fds < 0"
  using lowest_free(2) [of fds] by simp

text \<open>With an address the server comes to serve; without one it stops at the listener.\<close>

lemma healthy_listens:
  "\<exists>b' s'. run_state (main_listen (healthy True sig) (effective_config example_env) b) s = run_state (main_serve (healthy True sig) b') s'"
  "run_state (main_listen (healthy False sig) (effective_config example_env) b) s =
     run_state (leave 1 b [B_db_pool, B_denylist, B_kdf_semaphore, B_ratelimiter, B_maintenance]
       [B_maintenance, B_ratelimiter, B_kdf_semaphore, B_denylist, B_db_pool]) s"
proof -
  have tls: "fst (run_state (ps_tls_ctx_create (\<lambda>_. False) private_key 1000 cert key) no_ssl)" for cert key
    by (simp add: ps_tls_ctx_create_def private_key_ok ssl_defs)
  have address: "fst (fst (run_state (ps_listener_open (\<lambda>_. False) (\<lambda>_. a) (\<lambda>_. False) addr port) k)) \<longleftrightarrow> a" for a addr port k
    by (cases a) (simp_all add: ps_listener_open_def build_bind_addr_def or_close_def k_new_fd_def k_call_def Let_def free_not_negative)
  obtain tp s1 where "run_state (ps_threadpool_create_res no_fault 0 256 2 ()) (s\<lparr>sq_held := add_mset R_tls_ctx (add_mset R_listener (sq_held s))\<rparr>) = (Inr tp, s1)"
    using healthy_threadpool [of 256 0 2 "()"] by (metis zero_less_numeral)
  with tls address show "\<exists>b' s'. run_state (main_listen (healthy True sig) (effective_config example_env) b) s = run_state (main_serve (healthy True sig) b') s'"
    by (simp add: main_listen_def main_workers_def healthy_def cfg_int_def boot_config hold_def obtained) blast
  show "run_state (main_listen (healthy False sig) (effective_config example_env) b) s =
     run_state (leave 1 b [B_db_pool, B_denylist, B_kdf_semaphore, B_ratelimiter, B_maintenance]
       [B_maintenance, B_ratelimiter, B_kdf_semaphore, B_denylist, B_db_pool]) s"
    using address by (simp add: main_listen_def healthy_def)
qed

lemma healthy_bootstrap:
  assumes "sq_db s = Some with_admin"
  shows "run_state (main_bootstrap (healthy a sig) cfg denylist rl slots pool) s = ((PS_BOOTSTRAP_OK, cfg), s)"
proof -
  have "s\<lparr>sq_db := Some with_admin\<rparr> = s" using assms by (cases s) simp
  then show ?thesis
    using assms
    by (simp add: main_bootstrap_def healthy_simps boot_world_def ps_db_pool_acquire_def time_now_def ps_bootstrap_admin_def count_admins_def
        sql_query_def quiet_simps admin_rows_def with_admin_def schema_001_init_def ps_db_pool_release_def)
qed

lemma healthy_resources:
  "\<exists>b s. run_state (main_resources (healthy a sig) (effective_config example_env)) healthy_file =
     run_state (main_listen (healthy a sig) (effective_config example_env) b) s"
proof -
  obtain p s1 where pool: "run_state (ps_db_pool_create no_fault 2 0) healthy_file = (Some p, s1)" "sq_db s1 = Some with_admin"
    using healthy_pool by blast
  let ?s1 = "s1\<lparr>sq_held := add_mset (R_block ''denylist'') (sq_held s1)\<rparr>"
  obtain slots s2 where kdf: "run_state (ps_kdf_semaphore_create_res no_fault 0 2) ?s1 = (Inr slots, s2)" "sq_db s2 = Some with_admin"
    using healthy_tables(1) [of 0 2 ?s1] pool(2) by auto
  obtain rl s3 where rl: "run_state (ps_ratelimiter_create_res no_fault (cfg_int (effective_config example_env) ''ratelimit.max_entries'')) s2 = (Inr rl, s3)"
    "sq_db s3 = Some with_admin" using healthy_tables(2) kdf(2) by metis
  obtain c s4 where "run_state (ps_maintenance_start no_fault) s3 = (Some c, s4)" using healthy_maintenance by blast
  with pool(1) kdf(1) rl(1) healthy_bootstrap [OF rl(2)]
  have "run_state (main_resources (healthy a sig) (effective_config example_env)) healthy_file =
     run_state (main_listen (healthy a sig) (effective_config example_env) \<lparr>bp_pool = p, bp_maintenance = c, bp_workers = 0\<rparr>) s4"
    by (simp add: main_resources_def main_tables_def main_sweeper_def healthy_simps cfg_int_def boot_config ps_password_denylist_load_def hold_def Let_def)
  then show ?thesis by blast
qed

lemma healthy_main: "\<exists>b s. run_state (main (healthy a sig) argv0 []) healthy_file =
    (case run_state (main_listen (healthy a sig) (effective_config example_env) b) s of
       ((code, trace), s') \<Rightarrow> ((code, Took B_config # Masked waitset # trace @ [Gave B_config]), s'))"
proof -
  have cors: "ps_cors_policy_init [] c = Inr \<lparr>cors_origins = [], cors_credentials = c\<rparr>" for c
    by (simp add: ps_cors_policy_init_def cors_scan.simps)
  obtain b s where "run_state (main_resources (healthy a sig) (effective_config example_env)) healthy_file =
     run_state (main_listen (healthy a sig) (effective_config example_env) b) s" using healthy_resources by blast
  then have "run_state (main (healthy a sig) argv0 []) healthy_file =
    (case run_state (main_listen (healthy a sig) (effective_config example_env) b) s of
       ((code, trace), s') \<Rightarrow> ((code, Took B_config # Masked waitset # trace @ [Gave B_config]), s'))"
    using example_load
    by (simp add: main_def no_args_def main_loaded_def main_configured_def main_policies_def install_signal_handling_def healthy_simps cfg_bool_def cfg_str_def
        boot_config routes_registered cors split_beta)
  then show ?thesis by blast
qed

lemma leave_result: "fst (run_state (leave code b rs rel) s) = (code, map Took rs @ map Gave rel)"
  by (simp add: leave_def split_beta)

lemma healthy_runs:
  "\<exists>s'. run_state (main (healthy False None) argv0 []) healthy_file =
     ((1, Took B_config # Masked waitset # map Took [B_db_pool, B_denylist, B_kdf_semaphore, B_ratelimiter, B_maintenance] @
        map Gave [B_maintenance, B_ratelimiter, B_kdf_semaphore, B_denylist, B_db_pool] @ [Gave B_config]), s')"
  "\<exists>trace s'. run_state (main (healthy True (Some 15)) argv0 []) healthy_file = ((0, trace), s') \<and> Took B_acceptor \<in> set trace"
proof -
  obtain b s where m: "run_state (main (healthy False None) argv0 []) healthy_file =
    (case run_state (main_listen (healthy False None) (effective_config example_env) b) s of
       ((code, trace), s') \<Rightarrow> ((code, Took B_config # Masked waitset # trace @ [Gave B_config]), s'))" using healthy_main by blast
  show "\<exists>s'. run_state (main (healthy False None) argv0 []) healthy_file =
     ((1, Took B_config # Masked waitset # map Took [B_db_pool, B_denylist, B_kdf_semaphore, B_ratelimiter, B_maintenance] @
        map Gave [B_maintenance, B_ratelimiter, B_kdf_semaphore, B_denylist, B_db_pool] @ [Gave B_config]), s')"
    unfolding m healthy_listens(2) by (simp add: split_beta leave_result del: run_state_bind)
  obtain b s b' s1 where "run_state (main (healthy True (Some 15)) argv0 []) healthy_file =
    (case run_state (main_serve (healthy True (Some 15)) b') s1 of
       ((code, trace), s') \<Rightarrow> ((code, Took B_config # Masked waitset # trace @ [Gave B_config]), s'))"
    using healthy_main [of True "Some 15"] healthy_listens(1) by metis
  then show "\<exists>trace s'. run_state (main (healthy True (Some 15)) argv0 []) healthy_file = ((0, trace), s') \<and> Took B_acceptor \<in> set trace"
    by (simp add: main_serve_def healthy_simps split_beta leave_result serving_def del: run_state_bind)
qed


subsection \<open>Properties\<close>



text \<open>C23. A server that is told to stop and drains in time gives everything back, each part once, exits with 0 and
  leaves the process holding what it held before; when it does not drain in time it keeps what its workers may
  still use, the pool, the TLS context and the tables behind the requests. When waiting for the signal fails,
  the shutdown is run too, but the result of draining is ignored: the database pool is given back even while
  workers still run, and the TLS context never is.\<close>

theorem shutdown_releases:
  assumes "run_state (main E argv0 argv) s = ((code, trace), s')" and "Took B_acceptor \<in> set trace" and "sq_saved s = None"
  shows "(be_sigwait E \<noteq> None \<and> be_drained E \<longrightarrow>
      code = 0 \<and> sq_held s' = sq_held s \<and> (\<forall>r. count_list trace (Gave r) = count_list trace (Took r))) \<and>
    (be_sigwait E \<noteq> None \<and> \<not> be_drained E \<longrightarrow> code = 0 \<and> (\<forall>r. Gave r \<in> set trace \<longleftrightarrow> r \<in> {B_acceptor, B_listener, B_maintenance, B_config})) \<and>
    (be_sigwait E = None \<longrightarrow> code = 1 \<and> R_tls_ctx \<in># sq_held s' \<and> Gave B_tls_ctx \<notin> set trace \<and> Gave B_db_pool \<in> set trace)"
proof (rule main_cases [OF assms(1,3)])
  fix b s1 r0
  assume has: "has (sq_held s) b serving s1" and run: "run_state (main_serve E b) s1 = (r0, s')"
    and t: "(code, trace) = (fst r0, Took B_config # Masked waitset # snd r0 @ [Gave B_config])"
  show ?thesis
  proof (cases "be_sigwait E")
    case None
    with serve_interrupted [OF has run] t show ?thesis by (auto simp: serving_def)
  next
    case (Some sig)
    with serve_stopped [OF has run Some] t show ?thesis by (auto simp: serving_def split: if_splits)
  qed
next
  fix rs
  assume "B_acceptor \<notin> set rs" "unwinds rs (snd (code, trace))"
  with assms show ?thesis by (auto simp: unwinds_took)
qed (use assms in auto)

theorem shutdown_releases_witness:
  "\<exists>trace s'. run_state (main (healthy True (Some 15)) ''./platformservice'' []) healthy_file = ((0, trace), s') \<and>
     sq_held s' = sq_held healthy_file \<and> Took B_acceptor \<in> set trace"
proof -
  obtain trace s' where run: "run_state (main (healthy True (Some 15)) ''./platformservice'' []) healthy_file = ((0, trace), s')"
    "Took B_acceptor \<in> set trace" using healthy_runs(2) by blast
  have "sq_saved healthy_file = None" by (simp add: healthy_file_def new_file_def)
  from shutdown_releases [OF run this] run show ?thesis by (auto simp: healthy_simps)
qed

end
