(* ===== verification/Log.thy ===== *)
theory Log
  imports Config
begin

text \<open>
  The logger (\<^verbatim>\<open>src/src/platform/log.c\<close>, \<^verbatim>\<open>log.h\<close>; the names of the levels are in \<open>Config\<close>). The globals of the module,
  the request identifier of the calling thread and what has been written to standard error are one
  record; a call writes its line under the mutex and is one step. The clock, \<^verbatim>\<open>gmtime_r\<close> and the text
  \<^verbatim>\<open>vsnprintf\<close> makes of the arguments are parameters.
\<close>

subsection \<open>Levels are ordered\<close>

fun level_number :: "ps_log_level_t \<Rightarrow> nat" where
  "level_number PS_LOG_TRACE = 0"
| "level_number PS_LOG_DEBUG = 1"
| "level_number PS_LOG_INFO = 2"
| "level_number PS_LOG_WARN = 3"
| "level_number PS_LOG_ERROR = 4"

lemma level_number_inj: "level_number a = level_number b \<longleftrightarrow> a = b"
  by (cases a; cases b) simp_all

instantiation ps_log_level_t :: linorder
begin

definition less_eq_ps_log_level_t :: "ps_log_level_t \<Rightarrow> ps_log_level_t \<Rightarrow> bool" where
  "less_eq_ps_log_level_t a b \<longleftrightarrow> level_number a \<le> level_number b"

definition less_ps_log_level_t :: "ps_log_level_t \<Rightarrow> ps_log_level_t \<Rightarrow> bool" where
  "less_ps_log_level_t a b \<longleftrightarrow> level_number a < level_number b"

instance
  by standard (auto simp: less_eq_ps_log_level_t_def less_ps_log_level_t_def level_number_inj)

end

definition LEVEL_COLORS :: "ps_log_level_t \<Rightarrow> bytes" where
  "LEVEL_COLORS l = [CHR 0x1B] @ [''[90m'', ''[36m'', ''[32m'', ''[33m'', ''[31m''] ! level_number l"

definition COLOR_RESET :: bytes where "COLOR_RESET = [CHR 0x1B] @ ''[0m''"

definition PS_REQUEST_ID_MAX :: nat where "PS_REQUEST_ID_MAX = 64"


subsection \<open>State\<close>

record logger =
  g_min_level :: ps_log_level_t
  g_use_color :: bool
  g_request_id :: bytes
  lg_lines :: "bytes list"

definition ps_log_init :: "ps_log_level_t \<Rightarrow> bool \<Rightarrow> logger \<Rightarrow> logger" where
  "ps_log_init min_level use_color g = g\<lparr>g_min_level := min_level, g_use_color := use_color\<rparr>"

definition ps_log_set_level :: "ps_log_level_t \<Rightarrow> logger \<Rightarrow> logger" where
  "ps_log_set_level min_level g = g\<lparr>g_min_level := min_level\<rparr>"

definition ps_log_get_level :: "logger \<Rightarrow> ps_log_level_t" where
  "ps_log_get_level g = g_min_level g"

definition ps_log_set_request_id :: "bytes option \<Rightarrow> logger \<Rightarrow> logger" where
  "ps_log_set_request_id request_id g = g\<lparr>g_request_id :=
     (case request_id of
        None \<Rightarrow> []
      | Some r \<Rightarrow>
          let n = length (cstr r);
              n' = (if PS_REQUEST_ID_MAX \<le> n then PS_REQUEST_ID_MAX - 1 else n)
          in take n' (cstr r))\<rparr>"


subsection \<open>Timestamps\<close>

record tm =
  tm_year :: int
  tm_mon :: nat
  tm_mday :: nat
  tm_hour :: nat
  tm_min :: nat
  tm_sec :: nat

definition pad_nat :: "nat \<Rightarrow> nat \<Rightarrow> bytes" where
  "pad_nat width n = replicate (width - length (show_nat n)) CHR ''0'' @ show_nat n"

text \<open>
  \<^verbatim>\<open>strftime\<close> with the format of the code into an array of 20 bytes: when the text does not fit, because the
  year has five digits, the array is left indeterminate (\<open>garbage\<close>, read as a C string).
\<close>

definition strftime_iso :: "bytes \<Rightarrow> tm \<Rightarrow> bytes" where
  "strftime_iso garbage t =
     (let text = show_int (tm_year t + 1900) @ ''-'' @ pad_nat 2 (tm_mon t + 1) @ ''-'' @
            pad_nat 2 (tm_mday t) @ ''T'' @ pad_nat 2 (tm_hour t) @ '':'' @ pad_nat 2 (tm_min t) @ '':'' @ pad_nat 2 (tm_sec t)
      in if length text < 20 then text else cstr garbage)"

definition no_timestamp :: bytes where
  "no_timestamp = ''0000-00-00T00:00:00.000Z''"

text \<open>\<open>now\<close> is the result of \<^verbatim>\<open>clock_gettime\<close>, if it succeeds: the broken-down time, if \<^verbatim>\<open>gmtime_r\<close> succeeds, and the nanoseconds.\<close>

definition format_timestamp :: "bytes \<Rightarrow> (tm option \<times> int) option \<Rightarrow> nat \<Rightarrow> bytes" where
  "format_timestamp garbage now buflen = take (buflen - 1)
     (case now of
        None \<Rightarrow> no_timestamp
      | Some (None, nsec) \<Rightarrow> no_timestamp
      | Some (Some t, nsec) \<Rightarrow>
          let ms = sgn nsec * (\<bar>nsec\<bar> div 1000000);
              ms' = (if ms < 0 then 0 else if 999 < ms then 999 else ms)
          in strftime_iso garbage t @ ''.'' @ pad_nat 3 (nat ms') @ ''Z'')"


subsection \<open>Writing a line\<close>

definition basename_of :: "bytes \<Rightarrow> bytes" where
  "basename_of path = (if CHR ''/'' \<in> set path then rev (takeWhile (\<lambda>c. c \<noteq> CHR ''/'') (rev path)) else path)"

definition pad_right :: "nat \<Rightarrow> bytes \<Rightarrow> bytes" where
  "pad_right n s = s @ replicate (n - length s) CHR 0x20"

text \<open>\<open>formatted\<close> is what the format and its arguments expand to, or a failure.\<close>

definition log_line :: "logger \<Rightarrow> ps_log_level_t \<Rightarrow> bytes \<Rightarrow> bytes \<Rightarrow> int \<Rightarrow> bytes \<Rightarrow> bytes" where
  "log_line g level timestamp file line message =
     timestamp @ [CHR 0x20] @ (if g_use_color g then LEVEL_COLORS level else []) @ pad_right 5 (ps_log_level_name level) @
     (if g_use_color g then COLOR_RESET else []) @
     (if g_request_id g \<noteq> [] then '' ['' @ g_request_id g @ '']'' else []) @
     [CHR 0x20] @ basename_of file @ '':'' @ show_int line @ [CHR 0x20, CHR 0x20] @ message @ [CHR 0x0A]"

definition ps_log_write ::
    "bytes \<Rightarrow> (tm option \<times> int) option \<Rightarrow> ps_log_level_t \<Rightarrow> bytes \<Rightarrow> int \<Rightarrow> bytes option \<Rightarrow> logger \<Rightarrow> logger" where
  "ps_log_write garbage now level file line formatted g =
     (if level < g_min_level g then g
      else let message = (case formatted of None \<Rightarrow> ''<message formatting failed>'' | Some m \<Rightarrow> c_snprintf_s 2048 m)
           in g\<lparr>lg_lines := lg_lines g @ [log_line g level (format_timestamp garbage now 32) file line message]\<rparr>)"


subsection \<open>What a call writes\<close>

lemma request_id_bounded: "length (g_request_id (ps_log_set_request_id r g)) < PS_REQUEST_ID_MAX"
  by (auto simp: ps_log_set_request_id_def PS_REQUEST_ID_MAX_def Let_def split: option.splits)

text \<open>A call below the level writes nothing, any other exactly one line, and none changes the settings.\<close>

lemma log_write_lines:
  "lg_lines (ps_log_write garbage now level file line formatted g) =
     lg_lines g @ (if level < g_min_level g then [] else
       [log_line g level (format_timestamp garbage now 32) file line
          (case formatted of None \<Rightarrow> ''<message formatting failed>'' | Some m \<Rightarrow> c_snprintf_s 2048 m)])"
  "g_min_level (ps_log_write garbage now level file line formatted g) = g_min_level g"
  "g_request_id (ps_log_write garbage now level file line formatted g) = g_request_id g"
  by (simp_all add: ps_log_write_def Let_def)

lemma show_nat_length_ge: "10 ^ k \<le> n \<Longrightarrow> k < length (show_nat n)"
proof (induction k arbitrary: n)
  case 0
  then show ?case by (simp add: show_nat_nonempty)
next
  case (Suc k)
  have "1 \<le> (10::nat) ^ k" by simp
  moreover have "10 * 10 ^ k \<le> n" using Suc.prems by simp
  ultimately have "\<not> n < 10" by linarith
  moreover have "10 ^ k \<le> n div 10" using Suc.prems by auto
  ultimately show ?case using Suc.IH [of "n div 10"] by (subst show_nat.simps) simp
qed

lemma show_nat_length: "10 ^ k \<le> n \<Longrightarrow> n < 10 ^ Suc k \<Longrightarrow> length (show_nat n) = Suc k"
  using show_nat_length_ge [of k n] show_nat_length_le [of n "Suc k"] by simp

lemma pad_nat_length: "n < 10 ^ w \<Longrightarrow> 0 < w \<Longrightarrow> length (pad_nat w n) = w"
  using show_nat_length_le [of n w] by (simp add: pad_nat_def)

text \<open>For the years 1000 to 9999 the time stamp has its 24 characters.\<close>

lemma timestamp_length:
  assumes "1000 \<le> tm_year t + 1900" and "tm_year t + 1900 < 10000" and "tm_mon t < 12" and "tm_mday t < 32" and "tm_hour t < 24"
    and "tm_min t < 60" and "tm_sec t \<le> 60"
  shows "length (format_timestamp garbage (Some (Some t, nsec)) 32) = 24"
proof -
  let ?ms = "sgn nsec * (\<bar>nsec\<bar> div 1000000)"
  have "length (show_int (tm_year t + 1900)) = 4"
    using assms(1,2) show_nat_length [of 3 "nat (tm_year t + 1900)"] by (simp add: show_int_def nat_less_iff)
  then have "length (strftime_iso garbage t) = 19"
    using assms by (simp add: strftime_iso_def pad_nat_length Let_def)
  moreover have "length (pad_nat 3 (nat (if ?ms < 0 then 0 else if 999 < ?ms then 999 else ?ms))) = 3"
    by (rule pad_nat_length) (auto simp: nat_less_iff)
  ultimately show ?thesis by (simp add: format_timestamp_def Let_def)
qed

end
