(* ===== verification/Spec2Isabelle.thy ===== *)
theory Spec2Isabelle
  imports Prelude Buf Base64url Double Json Json_Write Http_Request Router Cors Response Conn
    Ratelimit Threadpool Claims Jwt Validate Password
    Db User_Store Session_Store Token_Store Audit_Store Session Config
    Auth_Common Store_Contract Auth_Api Read_Api
    Json_Heap Json_Ownership Json_Safety Body_Memory Routes Login Lockout
    Maintenance Bootstrap Service Accounts
    Db_Pool Lifecycle Listener Tls Startup Log
begin

text \<open>
  A verification of PlatformService, an HTTPS authentication service in C: accounts with e-mail
  verification, password login with lockout, access tokens (JWT) and rotating refresh tokens, roles,
  rate limits, an audit log and a maintenance thread, over SQLite and OpenSSL. The paths below are
  under \<^verbatim>\<open>src/src/\<close>.

  \<^bold>\<open>The program and its model.\<close> A request travels through these parts, and each has a theory:

  \<^item> \<^verbatim>\<open>main.c\<close> creates the parts of the process in order and destroys them (\<open>Startup\<close>, over \<open>Lifecycle\<close> for what each
    part takes and gives back); \<^verbatim>\<open>platform/tls.c\<close> makes the TLS context
    (\<open>Tls\<close>); \<^verbatim>\<open>platform/net.c\<close> and \<^verbatim>\<open>server.c\<close> accept connections and hand them to the pool of workers
    (\<open>Listener\<close>, \<^verbatim>\<open>platform/threadpool.c\<close> in \<open>Threadpool\<close>).
  \<^item> A worker runs the connection loop of \<^verbatim>\<open>http/conn.c\<close> (\<open>Conn\<close>) over the parser \<^verbatim>\<open>http/request.c\<close>
    (\<open>Http_Request\<close>), the router (\<open>Router\<close>), the CORS policy (\<open>Cors\<close>) and the response writer (\<open>Response\<close>);
    bodies are JSON (\<^verbatim>\<open>json/\<close>: \<open>Json\<close>, \<open>Json_Write\<close>, with \<open>Double\<close> for numbers). \<open>Json\<close> has the values; \<open>Json_Heap\<close> is
    \<^verbatim>\<open>json/json_parse.c\<close> again, on the blocks it allocates, grows and frees, and \<open>Body_Memory\<close> the builders of
    response bodies of \<^verbatim>\<open>api/\<close> and \<^verbatim>\<open>http/response.c\<close> over it. \<^verbatim>\<open>platform/buf.c\<close> is \<open>Buf\<close> and
    \<^verbatim>\<open>crypto/base64url.c\<close> \<open>Base64url\<close>.
  \<^item> \<^verbatim>\<open>api/routes.c\<close> and \<^verbatim>\<open>api/rbac.c\<close> (\<open>Routes\<close>) authenticate the bearer token (\<^verbatim>\<open>auth/jwt.c\<close>, \<^verbatim>\<open>auth/claims.c\<close>:
    \<open>Jwt\<close>, \<open>Claims\<close>), check the policy and call a handler of \<^verbatim>\<open>api/auth_api.c\<close> (\<open>Auth_Common\<close>, \<open>Auth_Api\<close>) or of
    \<^verbatim>\<open>health_api.c\<close>, \<^verbatim>\<open>user_api.c\<close>, \<^verbatim>\<open>admin_api.c\<close> (\<open>Read_Api\<close>), with \<^verbatim>\<open>auth/validate.c\<close> (\<open>Validate\<close>),
    \<^verbatim>\<open>auth/password.c\<close> and the KDF semaphore (\<open>Password\<close>) and \<^verbatim>\<open>platform/ratelimit.c\<close> (\<open>Ratelimit\<close>).
  \<^item> The handlers run on the stores: \<open>Db\<close> is the database with its transactions, \<open>User_Store\<close>,
    \<open>Session_Store\<close>, \<open>Token_Store\<close>, \<open>Audit_Store\<close> the files of \<^verbatim>\<open>store/\<close>, and \<open>Session\<close> is \<^verbatim>\<open>auth/session.c\<close>.
    \<^verbatim>\<open>store/db.c\<close> itself, the pool and the migration, is \<open>Db_Pool\<close>.
  \<^item> \<^verbatim>\<open>platform/config.c\<close> is \<open>Config\<close>, \<^verbatim>\<open>auth/bootstrap.c\<close> \<open>Bootstrap\<close>, \<^verbatim>\<open>platform/maintenance.c\<close> \<open>Maintenance\<close>.

  \<open>Login\<close>, \<open>Lockout\<close>, \<open>Accounts\<close> and \<open>Service\<close> hold what is proved of the handlers and of their composition.

  \<^bold>\<open>How state and effects are modelled.\<close> A byte is a \<^typ>\<open>char\<close>, and a C string is read up to its first
  NUL (\<^const>\<open>cstr\<close>). Role masks are 32-bit words, the hash of the limiter and the groups of base64 are words
  of their width, sizes wrap at \<open>2 ^ 64\<close> in \<open>Buf\<close>, and times are integers. Errors are values: an \<open>option\<close>, a sum
  with the message, or the enumeration of the code. A handler is a program of the state monad over
  \<^typ>\<open>world\<close>: the database, the snapshot an open transaction would return to, the limiter, the free KDF
  slots and the free connections. Its environment \<^typ>\<open>sys\<close> says for every step whether a statement fails,
  what the clock and the random generator return, and gives HMAC, SHA-256 and PBKDF2 as functions; the
  theorems hold for every environment, or name what they need of it (\<open>env_ok\<close>: the documented lengths).
  The memory of \<open>Json_Heap\<close> is a store of live blocks with an oracle \<open>avail\<close> that says which allocations
  succeed; reading, writing or freeing outside the live blocks has no result (\<open>None\<close>). Sockets, \<^verbatim>\<open>poll\<close>, TLS reads and the wake-ups of threads are lists of events or oracles in the same way.

  \<^bold>\<open>Interfaces.\<close> The contracts between parts are locales, interpreted on the model: \<open>bounded_queue\<close>
  (the ring of the pool), \<open>lifo\<close> (the free list of connections), \<open>part\<close> (creation takes all or nothing and
  destruction gives that back: the connection pool, the workers, the limiter, the semaphore, the maintenance
  thread), \<open>store_invariant\<close> and \<open>statement_invariant\<close>
  (what every SQL statement keeps; interpreted for the well-formedness of users, sessions and keys, for
  the growth of the audit log and for the identity of users, so that each handler is proved to keep all of
  them once) and \<open>batched\<close> (the six sweeps). Resources and transactions of handlers are followed by the
  rules for \<open>shift\<close>, \<open>neutral\<close> and \<open>tx\<close> in \<open>Db\<close>.

  \<^bold>\<open>What is shown.\<close>

  \<^item> Authentication: a login needs the password of an active, unlocked account and has exactly its effect;
    the token it issues authenticates that user; a lockout happens after the threshold of wrong guesses,
    though guesses that overlap count once; password change, logout, rotation, reuse detection and the race
    of two refreshes do what they promise to sessions (\<open>Login\<close>, \<open>Lockout\<close>, \<open>Accounts\<close>, \<open>Session\<close>, \<open>Jwt\<close>).
  \<^item> Authorization: default deny, and a policy for everything that is routed (\<open>Service\<close>).
  \<^item> The whole service: the invariant of the tables and resources over connections, sweeps and restarts;
    history is never rewritten; a failed commit wedges its connection (\<open>Service\<close>). The sweep leaves exactly
    what is not over, the thread can always be stopped, bootstrapping is idempotent and atomic.
  \<^item> Memory: whichever allocations fail, the parser and the builders of bodies end without touching a dead
    block, and return the value of the specification in blocks that \<^verbatim>\<open>ps_json_free\<close> gives back exactly, or
    \<^verbatim>\<open>NULL\<close> with nothing left behind. \<open>rep\<close> relates a value to its tree of blocks; \<open>Json_Ownership\<close> shows how
    growing arrays and objects keeps it, \<open>Json_Safety\<close> follows the parser, \<open>Body_Memory\<close> the builders.
  \<^item> The process: no accepted connection is lost, no pooled connection is in two hands, creation of the
    pool is all or nothing, the TLS key is private, signals are blocked before the first thread, and
    a start that fails anywhere, like a shutdown in time, leaves the process holding what it held before.
  \<^item> The protocol: request framing and its bounds, independence of segmentation, response framing, JSON
    and JWT round trips, routing, the rate limiter as a map of token buckets and the eviction that breaks
    it, the ring and its workers, draining, the denylist search.

  \<^bold>\<open>Bounds and fuel.\<close> Loops are structural or have a measure. Those that need not end are
  \<open>partial_function (option)\<close>: the doubling loop of \<open>Buf\<close>, shown to end below \<open>2 ^ 63\<close> and not above, the
  loops of \<open>Maintenance\<close>, shown to end for a positive batch size and once the stop flag is set, and the
  recursions of \<open>Json_Heap\<close> over blocks, shown to end with a result for every text of up to \<open>2 ^ 63\<close> bytes, more
  than a buffer can hold. The JSON parser has the nesting limit of the code; nothing else is bounded by
  the model.

  \<^bold>\<open>Not modelled.\<close> SQLite, OpenSSL, the kernel and pthreads are parameters, with the documented behaviour
  written out where they are introduced. Handlers run one after the other on one connection, which is
  what the free list gives a single worker; that they are interleaved is modelled where the code depends
  on it (the two phases of a refresh in \<open>Session\<close>, the decision of a login in \<open>Lockout\<close>, the sweeps, the
  acceptor, the pool). Allocation is taken to succeed except in \<open>Buf\<close>, \<open>Base64url\<close>, \<open>Json_Heap\<close>, \<open>Body_Memory\<close>,
  \<open>Db_Pool\<close>, \<open>Lifecycle\<close>, \<open>Startup\<close> and \<open>Listener\<close>; the handlers themselves run on values. The logger itself is modelled
  (\<^verbatim>\<open>platform/log.c\<close>, in \<open>Log\<close>), but the calls of the other parts to it and the texts they log are left out.
  Key material is wiped where the code wipes a field of the configuration; copies on the stack are not
  followed.
\<close>

end
